(* ===== verification/Prelude.thy ===== *)
theory Prelude
  imports Complex_Main
begin

section \<open>Prelude: shared automation, byte strings and 64-bit ranges\<close>

text \<open>
  What every component shares: the collections of rewrite rules the proofs name
  (\<open>go_eval\<close> evaluates the models on concrete inputs, \<open>byte_simps\<close> holds the
  facts on byte strings), the model of a Go byte string as a list of \<open>char\<close> (a HOL
  \<open>char\<close> is one byte), and the range of Go's \<open>int\<close> and \<open>int64\<close>, which
  the models keep as \<open>int\<close> with the range written out.
\<close>

named_theorems go_eval \<open>rules that evaluate the model on concrete inputs\<close>
named_theorems byte_simps \<open>facts on byte strings and their prefixes\<close>

type_synonym bytes = string

subsection \<open>64-bit integers\<close>

definition min_int64 :: int where
  "min_int64 = - 9223372036854775808"

definition max_int64 :: int where
  "max_int64 = 9223372036854775807"

definition in_int64 :: "int \<Rightarrow> bool" where
  "in_int64 n \<longleftrightarrow> min_int64 \<le> n \<and> n \<le> max_int64"

text \<open>Go's \<open>int64\<close> addition and subtraction wrap around.\<close>

definition wrap64 :: "int \<Rightarrow> int" where
  "wrap64 n = (n + 9223372036854775808) mod 18446744073709551616 - 9223372036854775808"

lemma wrap64_in_int64 [simp, intro]: "in_int64 (wrap64 n)"
proof -
  have "0 \<le> (n + 9223372036854775808) mod 18446744073709551616"
    and "(n + 9223372036854775808) mod 18446744073709551616 < 18446744073709551616"
    by simp_all
  then show ?thesis
    unfolding wrap64_def in_int64_def min_int64_def max_int64_def by linarith
qed

lemma wrap64_id [simp]: "in_int64 n \<Longrightarrow> wrap64 n = n"
  by (simp add: wrap64_def in_int64_def min_int64_def max_int64_def)

lemmas int64_defs = in_int64_def min_int64_def max_int64_def

subsection \<open>Byte strings\<close>

text \<open>\<open>strings.HasPrefix\<close>, \<open>strings.CutPrefix\<close> and \<open>strings.TrimPrefix\<close>.\<close>

fun cut_prefix :: "bytes \<Rightarrow> bytes \<Rightarrow> bytes option" where
  "cut_prefix s [] = Some s"
| "cut_prefix [] (p # ps) = None"
| "cut_prefix (c # s) (p # ps) = (if c = p then cut_prefix s ps else None)"

definition has_prefix :: "bytes \<Rightarrow> bytes \<Rightarrow> bool" where
  "has_prefix s p \<longleftrightarrow> cut_prefix s p \<noteq> None"

definition trim_prefix :: "bytes \<Rightarrow> bytes \<Rightarrow> bytes" where
  "trim_prefix s p = (case cut_prefix s p of Some r \<Rightarrow> r | None \<Rightarrow> s)"

lemma cut_prefix_append [simp, byte_simps]: "cut_prefix (p @ s) p = Some s"
  by (induction p) auto

lemma cut_prefix_Some: "cut_prefix s p = Some r \<longleftrightarrow> s = p @ r"
  by (induction s p rule: cut_prefix.induct) auto

lemma has_prefix_iff [byte_simps]: "has_prefix s p \<longleftrightarrow> (\<exists>r. s = p @ r)"
  by (auto simp: has_prefix_def cut_prefix_Some)

lemma trim_prefix_append [simp, byte_simps]: "trim_prefix (p @ s) p = s"
  by (simp add: trim_prefix_def)

subsection \<open>Lists\<close>

lemma takeWhile_append_dropWhile_all:
  "takeWhile P xs @ dropWhile P xs = xs"
  by simp

lemma length_dropWhile_less [simp]: "\<not> P x \<Longrightarrow> length (dropWhile P (x # xs)) = Suc (length xs)"
  by simp

lemma sum_list_remove1_int:
  fixes f :: "'a \<Rightarrow> int"
  shows "x \<in> set xs \<Longrightarrow> sum_list (map f (remove1 x xs)) = sum_list (map f xs) - f x"
  by (induction xs) auto

lemma ball_remove1: "\<forall>x\<in>set xs. P x \<Longrightarrow> \<forall>x\<in>set (remove1 y xs). P x"
  by (meson notin_set_remove1)

end
