(* ===== verification/GoFloat.thy ===== *)
theory GoFloat
  imports Prelude
begin

section \<open>Go's float64: IEEE 754 binary64 with round-to-nearest-even\<close>

text \<open>
  The gateway computes money in \<open>float64\<close> and converts it to integer micro-USD, so the
  arithmetic is modelled as the hardware does it: a finite double is the rational it denotes,
  and every operation is the exact rational result rounded once to 53 significant bits
  (gradual underflow below \<open>2 ^ -1022\<close>, overflow to an infinity from \<open>2 ^ 1024\<close>).
  The two zeros are identified: no code of the gateway can tell them apart.

  Two things are left to the implementation by the Go specification and are a record
  \<open>arch\<close> here: whether a multiplication is fused into the addition that consumes it, and
  what \<open>int64(x)\<close> is for an \<open>x\<close> out of range.
\<close>

datatype f64 = Fin rat | PInf | NInf | NaN

subsection \<open>Rounding\<close>

text \<open>\<open>bits.Len64\<close>: the number of binary digits of a non-negative integer.\<close>

function blen :: "int \<Rightarrow> int" where
  "blen n = (if n \<le> 0 then 0 else 1 + blen (n div 2))"
  by pat_completeness auto
termination
  by (relation "measure nat") auto

declare blen.simps [simp del]

text \<open>The exponent of a positive rational: \<open>2 powi e \<le> q < 2 powi (e + 1)\<close>.\<close>

definition expo :: "rat \<Rightarrow> int" where
  "expo q = (if 1 \<le> q then blen \<lfloor>q\<rfloor> - 1 else - blen (\<lceil>1 / q\<rceil> - 1))"

definition round_half_even :: "rat \<Rightarrow> int" where
  "round_half_even x =
     (let n = \<lfloor>x\<rfloor>; d = x - of_int n
      in if d < 1 / 2 \<or> (d = 1 / 2 \<and> even n) then n else n + 1)"

text \<open>The weight of the last place, and the magnitude rounded to a multiple of it.\<close>

definition ulp_exp :: "rat \<Rightarrow> int" where
  "ulp_exp q = max (expo q) (-1022) - 52"

definition round_mag :: "rat \<Rightarrow> rat" where
  "round_mag q = of_int (round_half_even (q / 2 powi ulp_exp q)) * 2 powi ulp_exp q"

definition overflow :: "rat \<Rightarrow> f64" where
  "overflow v = (if 2 ^ 1024 \<le> v then PInf else Fin v)"

fun fneg :: "f64 \<Rightarrow> f64" where
  "fneg (Fin q) = Fin (- q)"
| "fneg PInf = NInf"
| "fneg NInf = PInf"
| "fneg NaN = NaN"

definition rnd64 :: "rat \<Rightarrow> f64" where
  "rnd64 q =
     (if q = 0 then Fin 0
      else if 0 < q then overflow (round_mag q)
      else fneg (overflow (round_mag (- q))))"

subsection \<open>Operations\<close>

text \<open>\<open>float64(n)\<close> of an integer.\<close>

definition f64_of_int :: "int \<Rightarrow> f64" where
  "f64_of_int n = rnd64 (of_int n)"

definition fsign :: "f64 \<Rightarrow> int" where
  "fsign x = (case x of Fin q \<Rightarrow> (if q < 0 then -1 else if q = 0 then 0 else 1) | PInf \<Rightarrow> 1 | NInf \<Rightarrow> -1 | NaN \<Rightarrow> 0)"

definition finf :: "int \<Rightarrow> f64" where
  "finf s = (if 0 < s then PInf else if s < 0 then NInf else NaN)"

fun fadd :: "f64 \<Rightarrow> f64 \<Rightarrow> f64" where
  "fadd (Fin a) (Fin b) = rnd64 (a + b)"
| "fadd NaN _ = NaN"
| "fadd _ NaN = NaN"
| "fadd PInf NInf = NaN"
| "fadd NInf PInf = NaN"
| "fadd PInf _ = PInf"
| "fadd NInf _ = NInf"
| "fadd (Fin a) PInf = PInf"
| "fadd (Fin a) NInf = NInf"

fun fmul :: "f64 \<Rightarrow> f64 \<Rightarrow> f64" where
  "fmul (Fin a) (Fin b) = rnd64 (a * b)"
| "fmul NaN _ = NaN"
| "fmul _ NaN = NaN"
| "fmul x y = finf (fsign x * fsign y)"

text \<open>Division by a finite non-zero constant, the only division of the gateway's hot path.\<close>

fun fdiv_const :: "f64 \<Rightarrow> rat \<Rightarrow> f64" where
  "fdiv_const (Fin a) c = rnd64 (a / c)"
| "fdiv_const NaN c = NaN"
| "fdiv_const PInf c = finf (fsign (Fin c))"
| "fdiv_const NInf c = finf (- fsign (Fin c))"

text \<open>Fused multiply-add: one rounding for \<open>a * b + c\<close>.\<close>

fun ffma :: "f64 \<Rightarrow> f64 \<Rightarrow> f64 \<Rightarrow> f64" where
  "ffma (Fin a) (Fin b) (Fin c) = rnd64 (a * b + c)"
| "ffma (Fin a) (Fin b) c = c"
| "ffma a b c = fadd (fmul a b) c"

text \<open>The order of doubles; every comparison with NaN is false.\<close>

fun fle :: "f64 \<Rightarrow> f64 \<Rightarrow> bool" where
  "fle NaN _ = False"
| "fle _ NaN = False"
| "fle NInf _ = True"
| "fle _ PInf = True"
| "fle (Fin a) (Fin b) = (a \<le> b)"
| "fle _ _ = False"

definition flt :: "f64 \<Rightarrow> f64 \<Rightarrow> bool" where
  "flt x y \<longleftrightarrow> fle x y \<and> x \<noteq> y"

text \<open>\<open>math.Round\<close>: to the nearest integer, halves away from zero. The result is exact.\<close>

definition round_away :: "rat \<Rightarrow> int" where
  "round_away q = (if 0 \<le> q then \<lfloor>q + 1 / 2\<rfloor> else \<lceil>q - 1 / 2\<rceil>)"

fun fround :: "f64 \<Rightarrow> f64" where
  "fround (Fin q) = Fin (of_int (round_away q))"
| "fround x = x"

subsection \<open>What the implementation chooses\<close>

datatype fma_mode = NoFMA | FuseLeft | FuseRight

record arch =
  fma :: fma_mode
  cvt_oob :: "f64 \<Rightarrow> int"

definition arch_ok :: "arch \<Rightarrow> bool" where
  "arch_ok A \<longleftrightarrow> (\<forall>x. in_int64 (cvt_oob A x))"

text \<open>\<open>x1 * y1 + x2 * y2\<close>, where the compiler may fuse one product into the sum.\<close>

definition fdot :: "arch \<Rightarrow> f64 \<Rightarrow> f64 \<Rightarrow> f64 \<Rightarrow> f64 \<Rightarrow> f64" where
  "fdot A x1 y1 x2 y2 =
     (case fma A of
        NoFMA \<Rightarrow> fadd (fmul x1 y1) (fmul x2 y2)
      | FuseLeft \<Rightarrow> ffma x1 y1 (fmul x2 y2)
      | FuseRight \<Rightarrow> ffma x2 y2 (fmul x1 y1))"

text \<open>\<open>int64(x)\<close>: truncation towards zero, implementation-defined out of range.\<close>

definition f64_to_int64 :: "arch \<Rightarrow> f64 \<Rightarrow> int" where
  "f64_to_int64 A x =
     (case x of
        Fin q \<Rightarrow> (let n = (if 0 \<le> q then \<lfloor>q\<rfloor> else \<lceil>q\<rceil>) in if in_int64 n then n else cvt_oob A x)
      | _ \<Rightarrow> cvt_oob A x)"

text \<open>
  The conversion of the Go toolchain on amd64 (\<open>CVTTSD2SQ\<close> gives the integer indefinite
  value) and on arm64 (\<open>FCVTZS\<close> saturates, and the compiler fuses).
\<close>

definition amd64 :: arch where
  "amd64 = \<lparr>fma = NoFMA, cvt_oob = (\<lambda>x. min_int64)\<rparr>"

definition arm64 :: arch where
  "arm64 = \<lparr>fma = FuseLeft,
     cvt_oob = (\<lambda>x. case x of Fin q \<Rightarrow> (if q < 0 then min_int64 else max_int64)
                            | PInf \<Rightarrow> max_int64 | NInf \<Rightarrow> min_int64 | NaN \<Rightarrow> 0)\<rparr>"

subsection \<open>Evaluation rules\<close>

lemma blen_numeral [go_eval]: "blen (numeral k) = 1 + blen (numeral k div 2)"
  by (subst blen.simps) simp

lemma blen_0 [go_eval, simp]: "blen 0 = 0"
  by (simp add: blen.simps)

lemma blen_1 [go_eval, simp]: "blen 1 = 1"
  by (simp add: blen.simps)

lemma floor_rat_numeral [go_eval]: "\<lfloor>numeral a / numeral b :: rat\<rfloor> = numeral a div numeral b"
  using floor_divide_of_int_eq [of "numeral a" "numeral b", where 'a=rat]
  by (simp del: floor_divide_of_int_eq)

lemma ceiling_rat_numeral [go_eval]:
  "\<lceil>numeral a / numeral b :: rat\<rceil> = - (- numeral a div numeral b)"
  using floor_divide_of_int_eq [of "- numeral a" "numeral b", where 'a=rat]
  by (simp add: ceiling_def)

lemma floor_rat_one [go_eval]: "\<lfloor>1 / numeral b :: rat\<rfloor> = 1 div numeral b"
  using floor_divide_of_int_eq [of "1" "numeral b", where 'a=rat]
  by (simp del: floor_divide_of_int_eq)

lemma ceiling_rat_one [go_eval]: "\<lceil>1 / numeral b :: rat\<rceil> = - (- 1 div numeral b)"
  using floor_divide_of_int_eq [of "- 1" "numeral b", where 'a=rat]
  by (simp add: ceiling_def)

lemmas f64_eval [go_eval] =
  rnd64_def overflow_def round_mag_def ulp_exp_def round_half_even_def expo_def Let_def
  power_int_minus f64_of_int_def f64_to_int64_def round_away_def

lemma rnd64_0 [simp]: "rnd64 0 = Fin 0"
  by (simp add: rnd64_def)

subsection \<open>The exponent and rounding of a magnitude\<close>

lemma blen_pos: "0 < n \<Longrightarrow> 0 < blen n"
proof (induction n rule: blen.induct)
  case (1 n)
  then show ?case
    by (cases "n div 2 > 0") (auto simp: blen.simps [of n] blen.simps [of "n div 2"])
qed

lemma blen_nonneg [simp]: "0 \<le> blen n"
  by (induction n rule: blen.induct) (simp add: blen.simps)

lemma blen_bounds:
  "0 < n \<Longrightarrow> 2 powi (blen n - 1) \<le> (of_int n :: rat) \<and> (of_int n :: rat) < 2 powi blen n"
proof (induction n rule: blen.induct)
  case (1 n)
  show ?case
  proof (cases "n = 1")
    case True
    then show ?thesis by simp
  next
    case False
    with "1.prems" have pos: "0 < n div 2" by presburger
    with "1.IH" "1.prems" have IH: "2 powi (blen (n div 2) - 1) \<le> (of_int (n div 2) :: rat)"
      "(of_int (n div 2) :: rat) < 2 powi blen (n div 2)" by auto
    have b: "blen n = 1 + blen (n div 2)" using "1.prems" by (subst blen.simps) simp
    have "2 * (n div 2) \<le> n" by simp
    then have "of_int (2 * (n div 2)) \<le> (of_int n :: rat)" by (simp only: of_int_le_iff)
    then have lo: "2 * (of_int (n div 2) :: rat) \<le> of_int n" by simp
    obtain k where k: "blen (n div 2) = int k" by (metis blen_nonneg nonneg_int_cases)
    have "n div 2 < 2 ^ k"
      using IH(2) k by (metis of_int_less_iff of_int_numeral of_int_power power_int_of_nat)
    then have "n < 2 * 2 ^ k" by linarith
    then have "(of_int n :: rat) < of_int (2 * 2 ^ k)" by (simp only: of_int_less_iff)
    then have hi: "(of_int n :: rat) < 2 * 2 powi blen (n div 2)" using k by simp
    have "2 powi (blen n - 1) = 2 * (2 powi (blen (n div 2) - 1) :: rat)"
      using b by (simp add: power_int_diff)
    moreover have "2 powi blen n = 2 * (2 powi (blen (n div 2)) :: rat)"
      using b by (simp add: power_int_add)
    ultimately show ?thesis using IH lo hi by linarith
  qed
qed

lemma expo_bounds:
  assumes "0 < q"
  shows "2 powi expo q \<le> q \<and> q < 2 powi (expo q + 1)"
proof (cases "1 \<le> q")
  case True
  then have "0 < \<lfloor>q\<rfloor>" by simp
  from blen_bounds [OF this] have "2 powi (blen \<lfloor>q\<rfloor> - 1) \<le> (of_int \<lfloor>q\<rfloor> :: rat)"
    and hi: "(of_int \<lfloor>q\<rfloor> :: rat) < 2 powi blen \<lfloor>q\<rfloor>" by auto
  moreover have "of_int \<lfloor>q\<rfloor> \<le> q" by simp
  moreover have "q < 2 powi blen \<lfloor>q\<rfloor>"
  proof -
    obtain k where k: "blen \<lfloor>q\<rfloor> = int k" by (metis blen_nonneg nonneg_int_cases)
    have "\<lfloor>q\<rfloor> < 2 ^ k" using hi k
      by (metis of_int_less_iff of_int_numeral of_int_power power_int_of_nat)
    then have "q < of_int (2 ^ k)" by (simp only: floor_less_iff)
    then show ?thesis using k by simp
  qed
  ultimately show ?thesis using True order_trans [of _ "of_int \<lfloor>q\<rfloor>" q] by (simp add: expo_def)
next
  case False
  let ?r = "\<lceil>1 / q\<rceil>"
  from False assms have "1 < 1 / q" by (simp add: field_simps)
  then have "1 < ?r" by (simp add: less_ceiling_iff)
  then have "0 < ?r - 1" by simp
  from blen_bounds [OF this] have lo: "2 powi (blen (?r - 1) - 1) \<le> (of_int (?r - 1) :: rat)"
    and hi: "(of_int (?r - 1) :: rat) < 2 powi blen (?r - 1)" by auto
  obtain k where k: "blen (?r - 1) = int k" by (metis blen_nonneg nonneg_int_cases)
  have e: "expo q = - int k" using False k by (simp add: expo_def)
  have "?r - 1 < 2 ^ k" using hi k
    by (metis of_int_less_iff of_int_numeral of_int_power power_int_of_nat)
  then have "?r \<le> 2 ^ k" by simp
  then have "1 / q \<le> of_int (2 ^ k)" by (simp only: ceiling_le_iff)
  then have "1 / q \<le> 2 ^ k" by simp
  then have A: "inverse (2 ^ k) \<le> q" using assms by (simp add: field_simps)
  have "of_int (?r - 1) < 1 / q" using ceiling_correct [of "1 / q"] by simp
  then have "2 powi (int k - 1) < 1 / q" using lo k by simp
  then have "q < inverse (2 powi (int k - 1))" using assms by (simp add: field_simps)
  then have B: "q < 2 powi (1 - int k)" by (simp add: power_int_minus [symmetric])
  show ?thesis using A B e by (simp add: power_int_minus add.commute)
qed

lemma powi2_le: "a \<le> b \<Longrightarrow> (2::rat) powi a \<le> 2 powi b"
  by (simp add: power_int_increasing)

lemma powi2_le_iff [simp]: "(2::rat) powi a \<le> 2 powi b \<longleftrightarrow> a \<le> b"
  by (meson linorder_not_less power_int_strict_increasing powi2_le one_less_numeral_iff semiring_norm(76))

lemma powi2_less_iff [simp]: "(2::rat) powi a < 2 powi b \<longleftrightarrow> a < b"
  by (simp add: not_le [symmetric])

lemma expo_unique:
  assumes "2 powi e \<le> q" and "q < 2 powi (e + 1)"
  shows "expo q = e"
proof -
  have "0 < q" using assms(1) by (metis less_le_trans zero_less_numeral zero_less_power_int)
  from expo_bounds [OF this] assms have "2 powi e < (2 powi (expo q + 1) :: rat)"
    and "2 powi expo q < (2 powi (e + 1) :: rat)" by linarith+
  then show ?thesis by simp
qed

lemma expo_mono: "0 < x \<Longrightarrow> x \<le> y \<Longrightarrow> expo x \<le> expo y"
proof -
  assume "0 < x" "x \<le> y"
  with expo_bounds [of x] expo_bounds [of y] have "2 powi expo x < (2 powi (expo y + 1) :: rat)"
    by linarith
  then show ?thesis by simp
qed

lemma round_half_even_of_int [simp]: "round_half_even (of_int n) = n"
  by (simp add: round_half_even_def)

lemma round_half_even_bounds: "\<lfloor>x\<rfloor> \<le> round_half_even x \<and> round_half_even x \<le> \<lfloor>x\<rfloor> + 1"
  by (simp add: round_half_even_def Let_def)

lemma round_half_even_mono:
  assumes "x \<le> y" shows "round_half_even x \<le> round_half_even y"
proof (cases "\<lfloor>x\<rfloor> = \<lfloor>y\<rfloor>")
  case True
  then show ?thesis using assms by (auto simp: round_half_even_def Let_def)
next
  case False
  with assms have "\<lfloor>x\<rfloor> + 1 \<le> \<lfloor>y\<rfloor>" by (simp add: floor_mono order.not_eq_order_implies_strict zless_imp_add1_zle)
  with round_half_even_bounds [of x] round_half_even_bounds [of y] show ?thesis by linarith
qed

lemma round_half_even_le: "x \<le> of_int n \<Longrightarrow> round_half_even x \<le> n"
  using round_half_even_mono [of x "of_int n"] by simp

lemma round_half_even_ge: "of_int n \<le> x \<Longrightarrow> n \<le> round_half_even x"
  using round_half_even_mono [of "of_int n" x] by simp

lemma ulp_exp_mono: "0 < x \<Longrightarrow> x \<le> y \<Longrightarrow> ulp_exp x \<le> ulp_exp y"
  by (simp add: ulp_exp_def expo_mono max.coboundedI1 max.coboundedI2)

lemma round_mag_nonneg: "0 \<le> q \<Longrightarrow> 0 \<le> round_mag q"
  using round_half_even_ge [of 0 "q / 2 powi ulp_exp q"] by (simp add: round_mag_def)

lemma round_mag_le_pow:
  assumes "0 < q" and "ulp_exp q < u" shows "round_mag q \<le> 2 powi (u + 52)"
proof -
  have "q < 2 powi (expo q + 1)" using expo_bounds [OF assms(1)] by simp
  also have "\<dots> \<le> 2 powi (ulp_exp q + 53)" by (simp add: ulp_exp_def)
  finally have "q / 2 powi ulp_exp q \<le> 2 powi 53" by (simp add: power_int_add field_simps)
  then have "q / 2 powi ulp_exp q \<le> of_int (2 ^ 53)" by simp
  from round_half_even_le [OF this]
  have "of_int (round_half_even (q / 2 powi ulp_exp q)) \<le> (of_int (2 ^ 53) :: rat)"
    by (simp only: of_int_le_iff)
  then have "round_mag q \<le> 2 powi 53 * 2 powi ulp_exp q"
    unfolding round_mag_def by (intro mult_right_mono) auto
  also have "\<dots> = 2 powi (ulp_exp q + 53)" by (simp add: power_int_add)
  also have "\<dots> \<le> 2 powi (u + 52)" using assms(2) by (simp del: power_int_add_numeral)
  finally show ?thesis .
qed

lemma round_mag_ge_pow:
  assumes "0 < q" and "-1074 < ulp_exp q" shows "2 powi (ulp_exp q + 52) \<le> round_mag q"
proof -
  from assms(2) have e: "expo q = ulp_exp q + 52" by (simp add: ulp_exp_def max_def split: if_splits)
  have "2 powi (ulp_exp q + 52) \<le> q" using expo_bounds [OF assms(1)] e by simp
  then have "2 powi 52 \<le> q / 2 powi ulp_exp q" by (simp add: power_int_add field_simps)
  then have "of_int (2 ^ 52) \<le> q / 2 powi ulp_exp q" by simp
  from round_half_even_ge [OF this]
  have "(of_int (2 ^ 52) :: rat) \<le> of_int (round_half_even (q / 2 powi ulp_exp q))"
    by (simp only: of_int_le_iff)
  then have "2 powi 52 * 2 powi ulp_exp q \<le> round_mag q"
    unfolding round_mag_def by (intro mult_right_mono) auto
  then show ?thesis by (simp add: power_int_add mult.commute)
qed

lemma round_mag_mono:
  assumes "0 < x" and "x \<le> y" shows "round_mag x \<le> round_mag y"
proof (cases "ulp_exp x = ulp_exp y")
  case True
  have "x / 2 powi ulp_exp x \<le> y / 2 powi ulp_exp y"
    using assms(2) True by (simp add: divide_right_mono)
  from round_half_even_mono [OF this] show ?thesis
    unfolding round_mag_def True by (intro mult_right_mono) auto
next
  case False
  with ulp_exp_mono [OF assms] have lt: "ulp_exp x < ulp_exp y" by simp
  have "-1074 \<le> ulp_exp x" by (simp add: ulp_exp_def)
  with lt have "-1074 < ulp_exp y" by simp
  from round_mag_ge_pow [OF _ this] round_mag_le_pow [OF assms(1) lt] assms show ?thesis
    by (meson less_le_trans order_trans)
qed


lemma round_mag_int:
  assumes "0 < n" and "n \<le> 2 ^ 53" shows "round_mag (of_int n) = of_int n"
proof -
  let ?q = "of_int n :: rat"
  have q: "0 < ?q" "1 \<le> ?q" using assms(1) by simp_all
  have "(of_int n :: rat) \<le> of_int (2 ^ 53)" using assms(2) by (simp only: of_int_le_iff)
  then have "?q \<le> 2 powi 53" by simp
  with expo_bounds [OF q(1)] have "2 powi expo ?q \<le> (2 powi 53 :: rat)" by linarith
  then have e53: "expo ?q \<le> 53" by (simp only: powi2_le_iff)
  have "0 < blen n" using assms(1) by (rule blen_pos)
  then have e0: "0 \<le> expo ?q" using q(2) by (simp add: expo_def)
  have u: "ulp_exp ?q = expo ?q - 52" using e0 by (simp add: ulp_exp_def)
  obtain m where m: "?q / 2 powi ulp_exp ?q = of_int m"
  proof (cases "expo ?q = 53")
    case True
    have "2 powi 53 \<le> ?q" using expo_bounds [OF q(1)] True by simp
    with \<open>?q \<le> 2 powi 53\<close> have "?q = 2 powi 53" by simp
    then have "?q / 2 powi ulp_exp ?q = of_int (2 ^ 52)" using u True by simp
    then show ?thesis by (rule that)
  next
    case False
    define k where "k = nat (52 - expo ?q)"
    have k: "ulp_exp ?q = - int k" using u e53 False by (simp add: k_def)
    have "?q / 2 powi ulp_exp ?q = of_int (n * 2 ^ k)" using k by (simp add: power_int_minus field_simps)
    then show ?thesis by (rule that)
  qed
  then have "round_mag ?q = of_int m * 2 powi ulp_exp ?q" by (simp add: round_mag_def)
  also have "\<dots> = ?q" using m by (simp add: field_simps)
  finally show ?thesis .
qed

subsection \<open>Order\<close>

lemma fle_refl [simp]: "x \<noteq> NaN \<Longrightarrow> fle x x"
  by (cases x) auto

lemma fle_trans: "fle x y \<Longrightarrow> fle y z \<Longrightarrow> fle x z"
  by (cases x; cases y; cases z) auto

lemma fle_antisym: "fle x y \<Longrightarrow> fle y x \<Longrightarrow> x = y"
  by (cases x; cases y) auto

lemma flt_iff: "x \<noteq> NaN \<Longrightarrow> y \<noteq> NaN \<Longrightarrow> flt x y \<longleftrightarrow> \<not> fle y x"
  by (cases x; cases y) (auto simp: flt_def)

lemma overflow_mono: "x \<le> y \<Longrightarrow> fle (overflow x) (overflow y)"
  by (simp add: overflow_def)

lemma overflow_not_NaN [simp]: "overflow x \<noteq> NaN"
  by (simp add: overflow_def)

lemma fneg_mono: "fle x y \<Longrightarrow> fle (fneg y) (fneg x)"
  by (cases x; cases y) auto

lemma fneg_NaN_iff [simp]: "fneg x = NaN \<longleftrightarrow> x = NaN"
  by (cases x) auto

lemma rnd64_not_NaN [simp]: "rnd64 q \<noteq> NaN"
  by (simp add: rnd64_def)

lemma rnd64_nonneg: "0 \<le> q \<Longrightarrow> fle (Fin 0) (rnd64 q)"
  by (auto simp: rnd64_def overflow_def round_mag_nonneg)

lemma rnd64_minus: "rnd64 (- q) = fneg (rnd64 q)"
  by (cases "overflow (round_mag q)"; cases "overflow (round_mag (- q))") (auto simp: rnd64_def)

lemma rnd64_mono_pos: "0 \<le> x \<Longrightarrow> x \<le> y \<Longrightarrow> fle (rnd64 x) (rnd64 y)"
  using rnd64_nonneg [of y] by (auto simp: rnd64_def [of x] rnd64_def [of y] intro!: overflow_mono round_mag_mono)

theorem rnd64_mono: "x \<le> y \<Longrightarrow> fle (rnd64 x) (rnd64 y)"
proof (cases "0 \<le> x")
  case True
  then show "x \<le> y \<Longrightarrow> ?thesis" by (rule rnd64_mono_pos)
next
  case neg: False
  assume le: "x \<le> y"
  show ?thesis
  proof (cases "0 \<le> y")
    case True
    have "fle (Fin 0) (rnd64 (- x))" using neg by (simp add: rnd64_nonneg)
    from fneg_mono [OF this] have "fle (rnd64 x) (Fin 0)" by (simp flip: rnd64_minus)
    then show ?thesis using True rnd64_nonneg fle_trans by blast
  next
    case False
    then have "fle (rnd64 (- y)) (rnd64 (- x))" using le by (intro rnd64_mono_pos) auto
    from fneg_mono [OF this] show ?thesis by (simp flip: rnd64_minus)
  qed
qed

lemma f64_of_int_exact: "\<bar>n\<bar> \<le> 2 ^ 53 \<Longrightarrow> f64_of_int n = Fin (of_int n)"
proof -
  assume n: "\<bar>n\<bar> \<le> 2 ^ 53"
  have pos: "f64_of_int k = Fin (of_int k)" if "0 < k" "k \<le> 2 ^ 53" for k
  proof -
    have "(of_int k :: rat) \<le> of_int (2 ^ 53)" using that(2) by (simp only: of_int_le_iff)
    also have "\<dots> < 2 ^ 1024" by simp
    finally show ?thesis using that by (simp add: f64_of_int_def rnd64_def round_mag_int overflow_def)
  qed
  consider "0 < n" | "n = 0" | "n < 0" by linarith
  then show ?thesis
  proof cases
    case 1 then show ?thesis using n pos by simp
  next
    case 2 then show ?thesis by (simp add: f64_of_int_def)
  next
    case 3
    then have "f64_of_int (- n) = Fin (of_int (- n))" using n by (intro pos) auto
    then have "rnd64 (- of_int n) = Fin (- of_int n)" by (simp add: f64_of_int_def)
    then have "rnd64 (of_int n) = Fin (of_int n)" by (cases "rnd64 (of_int n)") (auto simp: rnd64_minus)
    then show ?thesis by (simp add: f64_of_int_def)
  qed
qed

lemma f64_of_int_mono: "m \<le> n \<Longrightarrow> fle (f64_of_int m) (f64_of_int n)"
  by (simp add: f64_of_int_def rnd64_mono)

text \<open>Results below a power of two stay below it, so they are finite.\<close>

lemma rnd64_Fin:
  assumes "0 \<le> q" and "q < 2 powi k" and "-1022 \<le> k" and "k \<le> 1023"
  obtains r where "rnd64 q = Fin r" and "0 \<le> r" and "r \<le> 2 powi k"
proof (cases "q = 0")
  case True
  then show ?thesis by (intro that [of 0]) auto
next
  case False
  with assms(1) have q: "0 < q" by simp
  from expo_bounds [OF this] assms(2) have "2 powi expo q < (2 powi k :: rat)" by linarith
  then have "expo q < k" by (simp only: powi2_less_iff)
  then have "ulp_exp q < k - 52 \<or> k = -1022" using assms(3) by (auto simp: ulp_exp_def)
  then have "round_mag q \<le> 2 powi k"
  proof
    assume "ulp_exp q < k - 52"
    from round_mag_le_pow [OF q this] show ?thesis by simp
  next
    assume k: "k = -1022"
    with \<open>expo q < k\<close> have u: "ulp_exp q = -1074" by (simp add: ulp_exp_def)
    have "q / 2 powi (-1074) \<le> 2 powi k / 2 powi (-1074)"
      using assms(2) by (intro divide_right_mono) auto
    also have "\<dots> = of_int (2 ^ 52)" using k by (simp add: power_int_diff [symmetric])
    finally have "round_half_even (q / 2 powi (-1074)) \<le> 2 ^ 52" by (rule round_half_even_le)
    then have "(of_int (round_half_even (q / 2 powi (-1074))) :: rat) \<le> of_int (2 ^ 52)"
      by (simp only: of_int_le_iff)
    then have "round_mag q \<le> of_int (2 ^ 52) * 2 powi (-1074)"
      unfolding round_mag_def u by (intro mult_right_mono) auto
    also have "\<dots> = 2 powi 52 * 2 powi (-1074)" by simp
    also have "\<dots> = 2 powi k" unfolding k by (subst power_int_add [symmetric]) auto
    finally show ?thesis .
  qed
  moreover have "2 powi k < (2 powi 1024 :: rat)" using assms(4) by (simp only: powi2_less_iff)
  ultimately have "round_mag q < 2 ^ 1024" by (simp add: less_le_trans)
  then have "rnd64 q = Fin (round_mag q)" using q by (simp add: rnd64_def overflow_def)
  then show ?thesis using \<open>round_mag q \<le> 2 powi k\<close> q
    by (intro that [of "round_mag q"]) (auto intro: round_mag_nonneg)
qed

subsection \<open>Monotone arithmetic on non-negative doubles\<close>

abbreviation fnn :: "f64 \<Rightarrow> bool" where
  "fnn x \<equiv> fle (Fin 0) x"

lemma fnn_cases:
  assumes "fnn x" obtains q where "x = Fin q" "0 \<le> q" | "x = PInf"
  using assms by (cases x) auto

lemma fle_PInf [simp]: "fle x PInf \<longleftrightarrow> x \<noteq> NaN"
  by (cases x) auto

lemma PInf_fle [simp]: "fle PInf x \<longleftrightarrow> x = PInf"
  by (cases x) auto

lemma fadd_nonneg: "fnn x \<Longrightarrow> fnn y \<Longrightarrow> fnn (fadd x y)"
  by (auto elim!: fnn_cases intro!: rnd64_nonneg)

lemma fadd_mono:
  "fnn a \<Longrightarrow> fnn c \<Longrightarrow> fle a b \<Longrightarrow> fle c d \<Longrightarrow> fle (fadd a c) (fadd b d)"
  by (cases a; cases b; cases c; cases d) (auto intro!: rnd64_mono)

lemma ffma_nonneg: "0 \<le> a \<Longrightarrow> 0 \<le> p \<Longrightarrow> fnn c \<Longrightarrow> fnn (ffma (Fin a) (Fin p) c)"
  by (auto elim!: fnn_cases intro!: rnd64_nonneg)

lemma fdot_nonneg:
  "0 \<le> x \<Longrightarrow> 0 \<le> p \<Longrightarrow> 0 \<le> y \<Longrightarrow> 0 \<le> q \<Longrightarrow> fnn (fdot A (Fin x) (Fin p) (Fin y) (Fin q))"
  using rnd64_nonneg [of "x * p"] rnd64_nonneg [of "y * q"]
  by (auto simp: fdot_def fadd_nonneg ffma_nonneg split: fma_mode.splits)

lemma ffma_mono:
  assumes "a \<le> b" and "fnn c" and "fle c d" and "0 \<le> p"
  shows "fle (ffma (Fin a) (Fin p) c) (ffma (Fin b) (Fin p) d)"
  using assms by (cases c; cases d) (auto intro!: rnd64_mono add_mono mult_right_mono)

lemma fdot_mono:
  assumes "0 \<le> x" "x \<le> x'" "0 \<le> y" "y \<le> y'" "0 \<le> p" "0 \<le> q"
  shows "fle (fdot A (Fin x) (Fin p) (Fin y) (Fin q)) (fdot A (Fin x') (Fin p) (Fin y') (Fin q))"
proof -
  have "fle (rnd64 (x * p)) (rnd64 (x' * p))" "fle (rnd64 (y * q)) (rnd64 (y' * q))"
    using assms by (auto intro!: rnd64_mono mult_right_mono)
  moreover have "fnn (rnd64 (x * p))" "fnn (rnd64 (y * q))"
    using assms by (auto intro!: rnd64_nonneg)
  ultimately show ?thesis
    using assms unfolding fdot_def
    by (cases "fma A") (auto intro!: fadd_mono ffma_mono)
qed

lemma NInf_fle [simp]: "fle NInf x \<longleftrightarrow> x \<noteq> NaN"
  by (cases x) auto

lemma fmul_const_mono:
  assumes "fle x y" and "0 < c" shows "fle (fmul x (Fin c)) (fmul y (Fin c))"
  using assms by (cases x; cases y) (auto simp: fsign_def finf_def intro!: rnd64_mono mult_right_mono)

lemma round_away_mono:
  assumes "x \<le> y" shows "round_away x \<le> round_away y"
proof -
  consider "0 \<le> x" | "x < 0" "0 \<le> y" | "y < 0" using assms by linarith
  then show ?thesis
  proof cases
    case 1
    then show ?thesis using assms by (simp add: round_away_def floor_mono)
  next
    case 2
    then have "\<lceil>x - 1 / 2\<rceil> \<le> 0" "0 \<le> \<lfloor>y + 1 / 2\<rfloor>" by (simp_all add: ceiling_le_iff le_floor_iff)
    moreover have "round_away x = \<lceil>x - 1 / 2\<rceil>" "round_away y = \<lfloor>y + 1 / 2\<rfloor>"
      using 2 by (simp_all add: round_away_def)
    ultimately show ?thesis by linarith
  next
    case 3
    then show ?thesis using assms by (simp add: round_away_def ceiling_mono)
  qed
qed

lemma floor_of_int_half: "\<lfloor>of_int n + 1 / 2 :: rat\<rfloor> = n"
  by (simp add: floor_eq_iff)

lemma ceiling_of_int_half: "\<lceil>of_int n - 1 / 2 :: rat\<rceil> = n"
  by (simp add: ceiling_eq_iff)

lemma round_away_of_int [simp]: "round_away (of_int n) = n"
  by (simp add: round_away_def floor_of_int_half ceiling_of_int_half)

lemma fround_mono: "fle x y \<Longrightarrow> fle (fround x) (fround y)"
  by (cases x; cases y) (auto simp: round_away_mono)

lemma f64_to_int64_mono:
  assumes "fle x (Fin y)" and "fnn x" and "in_int64 \<lfloor>y\<rfloor>"
  shows "f64_to_int64 A x \<le> f64_to_int64 A (Fin y)" and "0 \<le> f64_to_int64 A x"
proof -
  obtain q where q: "x = Fin q" "0 \<le> q" "q \<le> y" using assms(1,2) by (cases x) auto
  then have "\<lfloor>q\<rfloor> \<le> \<lfloor>y\<rfloor>" "0 \<le> \<lfloor>q\<rfloor>" by (simp_all add: floor_mono)
  with assms(3) have "in_int64 \<lfloor>q\<rfloor>" unfolding int64_defs by linarith
  then show "f64_to_int64 A x \<le> f64_to_int64 A (Fin y)" and "0 \<le> f64_to_int64 A x"
    using q assms(3) \<open>\<lfloor>q\<rfloor> \<le> \<lfloor>y\<rfloor>\<close> by (simp_all add: f64_to_int64_def Let_def)
qed

lemma f64_to_int64_range: "arch_ok A \<Longrightarrow> in_int64 (f64_to_int64 A x)"
  by (auto simp: f64_to_int64_def arch_ok_def Let_def split: f64.splits)

lemma amd64_ok [simp]: "arch_ok amd64"
  by (simp add: arch_ok_def amd64_def int64_defs)

lemma arm64_ok [simp]: "arch_ok arm64"
  by (simp add: arch_ok_def arm64_def int64_defs split: f64.splits)

subsection \<open>Error of one rounding, and of the weighted sum\<close>

lemma round_half_even_error: "\<bar>of_int (round_half_even x) - x\<bar> \<le> (1 / 2 :: rat)"
proof -
  have "of_int \<lfloor>x\<rfloor> \<le> x" "x < of_int \<lfloor>x\<rfloor> + 1" by linarith+
  then show ?thesis by (auto simp: round_half_even_def Let_def abs_le_iff)
qed

lemma round_mag_error:
  assumes "0 < q" shows "\<bar>round_mag q - q\<bar> \<le> q / 2 ^ 53 + 1 / 2 ^ 200"
proof -
  let ?u = "2 powi ulp_exp q :: rat"
  have u: "0 < ?u" by simp
  have "\<bar>of_int (round_half_even (q / ?u)) - q / ?u\<bar> * ?u \<le> 1 / 2 * ?u"
    using u by (intro mult_right_mono round_half_even_error) simp
  then have "\<bar>(of_int (round_half_even (q / ?u)) - q / ?u) * ?u\<bar> \<le> ?u / 2"
    using u by (simp add: abs_mult)
  then have err: "\<bar>round_mag q - q\<bar> \<le> ?u / 2"
    by (simp add: round_mag_def left_diff_distrib)
  have "?u \<le> q / 2 ^ 52 + 2 / 2 ^ 200"
  proof (cases "-1022 \<le> expo q")
    case True
    then have "?u = 2 powi expo q / 2 ^ 52" by (simp add: ulp_exp_def power_int_diff)
    then show ?thesis using expo_bounds [OF assms] by (simp add: field_simps)
  next
    case False
    then have "?u = 2 powi (-1074)" by (simp add: ulp_exp_def)
    also have "\<dots> \<le> 2 powi (-199)" by (simp only: powi2_le_iff)
    also have "\<dots> = 2 / 2 ^ 200" by (simp add: power_int_minus)
    finally show ?thesis using assms by (simp add: add_increasing)
  qed
  with err show ?thesis by simp
qed

lemma rnd64_error:
  assumes "0 \<le> q" and "q < 2 powi k" and "-1022 \<le> k" and "k \<le> 1023"
  obtains r where "rnd64 q = Fin r" and "0 \<le> r" and "\<bar>r - q\<bar> \<le> q / 2 ^ 53 + 1 / 2 ^ 200"
proof (cases "q = 0")
  case True
  then show ?thesis by (intro that [of 0]) auto
next
  case False
  with assms(1) have q: "0 < q" by simp
  from rnd64_Fin [OF assms] obtain r where r: "rnd64 q = Fin r" "0 \<le> r" by blast
  with q have "r = round_mag q" by (simp add: rnd64_def overflow_def split: if_splits)
  with r round_mag_error [OF q] that show ?thesis by blast
qed

lemma rat_le_powi: "x \<le> of_int (2 ^ n) \<Longrightarrow> int n < k \<Longrightarrow> x < (2::rat) powi k"
proof -
  assume "x \<le> of_int (2 ^ n)" "int n < k"
  moreover have "of_int (2 ^ n) = (2::rat) powi int n" by simp
  ultimately show ?thesis using powi2_less_iff [of "int n" k] by (simp del: powi2_less_iff)
qed

lemma mult_error:
  assumes "\<bar>x - w\<bar> \<le> w / 2 ^ 53 + 1 / 2 ^ 200" and "0 \<le> p" and "p \<le> 2 ^ 40"
  shows "\<bar>x * p - w * p\<bar> \<le> w * p / 2 ^ 53 + 1 / (2 ^ 160 :: rat)"
proof -
  have "\<bar>x * p - w * p\<bar> = \<bar>x - w\<bar> * p"
    using assms(2) by (simp add: abs_mult flip: left_diff_distrib)
  also have "\<dots> \<le> (w / 2 ^ 53 + 1 / 2 ^ 200) * p" using assms(1,2) by (rule mult_right_mono)
  also have "\<dots> = w * p / 2 ^ 53 + p / 2 ^ 200" by (simp add: algebra_simps)
  also have "p / 2 ^ 200 \<le> 1 / 2 ^ 160" using assms(3) by simp
  finally show ?thesis by simp
qed

text \<open>The weighted sum with at most one fused product, within a relative error of three roundings.\<close>

lemma fdot_error:
  assumes "0 \<le> v" "v \<le> 2 ^ 50" "0 \<le> w" "w \<le> 2 ^ 50"
    and x: "0 \<le> x * p" "\<bar>x * p - v\<bar> \<le> v / 2 ^ 53 + 1 / 2 ^ 160"
    and y: "0 \<le> y * q" "\<bar>y * q - w\<bar> \<le> w / 2 ^ 53 + 1 / 2 ^ 160"
  obtains s where "fdot A (Fin x) (Fin p) (Fin y) (Fin q) = Fin s" and "0 \<le> s"
    and "\<bar>s - (v + w)\<bar> \<le> (v + w) / 2 ^ 51 + 1 / 2 ^ 150"
proof -
  have small: "x * p < 2 powi 60" "y * q < 2 powi 60" using x(2) y(2) assms(2,4) by (simp_all add: abs_le_iff)
  obtain m where m: "rnd64 (x * p) = Fin m" "0 \<le> m" "\<bar>m - x * p\<bar> \<le> x * p / 2 ^ 53 + 1 / 2 ^ 200"
    using rnd64_error [OF x(1) small(1)] by auto
  obtain n where n: "rnd64 (y * q) = Fin n" "0 \<le> n" "\<bar>n - y * q\<bar> \<le> y * q / 2 ^ 53 + 1 / 2 ^ 200"
    using rnd64_error [OF y(1) small(2)] by auto
  define z where "z = (case fma A of NoFMA \<Rightarrow> m + n | FuseLeft \<Rightarrow> x * p + n | FuseRight \<Rightarrow> y * q + m)"
  have dot: "fdot A (Fin x) (Fin p) (Fin y) (Fin q) = rnd64 z"
    by (simp add: fdot_def z_def m(1) n(1) split: fma_mode.split)
  have step: "\<bar>t - u\<bar> \<le> u * (5 / 2) / 2 ^ 53 + 1 / 2 ^ 156"
    if "0 \<le> u" "\<bar>b - u\<bar> \<le> u / 2 ^ 53 + 1 / 2 ^ 160" "\<bar>t - b\<bar> \<le> b / 2 ^ 53 + 1 / 2 ^ 200" for t u b :: rat
    using that unfolding abs_le_iff by simp
  have step': "\<bar>b - u\<bar> \<le> u * (5 / 2) / 2 ^ 53 + 1 / 2 ^ 156"
    if "0 \<le> u" "\<bar>b - u\<bar> \<le> u / 2 ^ 53 + 1 / 2 ^ 160" for u b :: rat
    using that unfolding abs_le_iff by simp
  have add: "\<bar>a + b - (v + w)\<bar> \<le> (v + w) * (5 / 2) / 2 ^ 53 + 1 / 2 ^ 155"
    if "\<bar>a - v\<bar> \<le> v * (5 / 2) / 2 ^ 53 + 1 / 2 ^ 156" "\<bar>b - w\<bar> \<le> w * (5 / 2) / 2 ^ 53 + 1 / 2 ^ 156" for a b
    using that unfolding abs_le_iff by (simp add: field_simps)
  note M = step [OF assms(1) x(2) m(3)] and N = step [OF assms(3) y(2) n(3)]
  note X = step' [OF assms(1) x(2)] and Y = step' [OF assms(3) y(2)]
  have "0 \<le> z" using m n x y by (simp add: z_def split: fma_mode.split)
  moreover have "\<bar>z - (v + w)\<bar> \<le> (v + w) * (5 / 2) / 2 ^ 53 + 1 / 2 ^ 155"
    using add [OF M N] add [OF X N] add [OF M Y] by (simp add: z_def add.commute split: fma_mode.split)
  ultimately have z: "0 \<le> z" "\<bar>z - (v + w)\<bar> \<le> (v + w) * (5 / 2) / 2 ^ 53 + 1 / 2 ^ 155" by auto
  then have "z < 2 powi 60" using assms(2,4) unfolding abs_le_iff by (auto simp: field_simps)
  from rnd64_error [OF z(1) this] obtain s where
    s: "rnd64 z = Fin s" "0 \<le> s" "\<bar>s - z\<bar> \<le> z / 2 ^ 53 + 1 / 2 ^ 200" by auto
  have "\<bar>s - (v + w)\<bar> \<le> (v + w) / 2 ^ 51 + 1 / 2 ^ 150"
    using s(3) z assms(1,3) unfolding abs_le_iff by (auto simp: field_simps)
  then show ?thesis using that s dot by simp
qed

lemma round_away_error: "\<bar>of_int (round_away x) - x\<bar> \<le> (1 / 2 :: rat)"
proof (cases "0 \<le> x")
  case True
  have "of_int \<lfloor>x + 1 / 2\<rfloor> \<le> x + 1 / 2" "x + 1 / 2 < of_int \<lfloor>x + 1 / 2\<rfloor> + 1" by linarith+
  moreover have "round_away x = \<lfloor>x + 1 / 2\<rfloor>" using True by (simp add: round_away_def)
  ultimately show ?thesis unfolding abs_le_iff by linarith
next
  case False
  have "of_int \<lceil>x - 1 / 2\<rceil> - 1 < x - 1 / 2" "x - 1 / 2 \<le> of_int \<lceil>x - 1 / 2\<rceil>"
    using ceiling_correct [of "x - 1 / 2"] by blast+
  moreover have "round_away x = \<lceil>x - 1 / 2\<rceil>" using False by (simp add: round_away_def)
  ultimately show ?thesis unfolding abs_le_iff by linarith
qed

end
