(* ===== verification/GoTime.thy ===== *)
theory GoTime
  imports Prelude
begin

section \<open>Decimal formatting and the UTC calendar\<close>

text \<open>
  What the budget keys use of \<open>fmt\<close> and \<open>time\<close>: the decimal digits of an integer
  (\<open>%d\<close>) and the layout \<open>2006-01\<close> of a UTC instant. An instant is its number of
  nanoseconds since the Unix epoch; the civil date is found by walking the years and months
  of the proleptic Gregorian calendar from 1970.
\<close>

subsection \<open>Decimal digits\<close>

definition digit :: "nat \<Rightarrow> char" where
  "digit n = char_of (48 + n)"

fun digits :: "nat \<Rightarrow> bytes" where
  "digits n = (if n < 10 then [digit n] else digits (n div 10) @ [digit (n mod 10)])"

declare digits.simps [simp del]

definition itoa :: "int \<Rightarrow> bytes" where
  "itoa n = (if n < 0 then CHR ''-'' # digits (nat (- n)) else digits (nat n))"

text \<open>Go's \<open>appendInt(b, x, width)\<close>: zero-padded to the width, the sign in front.\<close>

definition pad_int :: "nat \<Rightarrow> int \<Rightarrow> bytes" where
  "pad_int w n =
     (let d = digits (nat \<bar>n\<bar>); z = replicate (w - length d) CHR ''0'' @ d
      in if n < 0 then CHR ''-'' # z else z)"

definition undigit :: "char \<Rightarrow> nat" where
  "undigit c = of_char c - 48"

definition undigits :: "bytes \<Rightarrow> nat" where
  "undigits s = foldl (\<lambda>a c. 10 * a + undigit c) 0 s"

subsection \<open>The calendar\<close>

type_synonym instant = int

definition ns_per_day :: int where
  "ns_per_day = 86400000000000"

definition leap :: "int \<Rightarrow> bool" where
  "leap y \<longleftrightarrow> 4 dvd y \<and> (\<not> 100 dvd y \<or> 400 dvd y)"

definition year_len :: "int \<Rightarrow> int" where
  "year_len y = (if leap y then 366 else 365)"

definition month_lens :: "int \<Rightarrow> int list" where
  "month_lens y = [31, if leap y then 29 else 28, 31, 30, 31, 30, 31, 31, 30, 31, 30, 31]"

text \<open>The year that holds a day counted from the start of year \<open>y\<close>, and the day within it.\<close>

function civil_year :: "int \<Rightarrow> int \<Rightarrow> int \<times> int" where
  "civil_year y d =
     (if d < 0 then civil_year (y - 1) (d + year_len (y - 1))
      else if year_len y \<le> d then civil_year (y + 1) (d - year_len y)
      else (y, d))"
  by pat_completeness auto
termination
  by (relation "measure (\<lambda>(y, d). if d < 0 then nat (- d) else if d < year_len y then 0 else nat d)")
     (auto simp: year_len_def)

declare civil_year.simps [simp del]

fun civil_month :: "int list \<Rightarrow> int \<Rightarrow> int \<Rightarrow> int \<times> int" where
  "civil_month [] m d = (m, d)"
| "civil_month (l # ls) m d = (if d < l \<or> ls = [] then (m, d) else civil_month ls (m + 1) (d - l))"

definition year_month :: "instant \<Rightarrow> int \<times> int" where
  "year_month t =
     (let (y, d) = civil_year 1970 (t div ns_per_day)
      in (y, fst (civil_month (month_lens y) 1 d)))"

text \<open>\<open>t.UTC().Format("2006-01")\<close>.\<close>

definition format_month :: "instant \<Rightarrow> bytes" where
  "format_month t = (let (y, m) = year_month t in pad_int 4 y @ ''-'' @ pad_int 2 m)"

subsection \<open>Formatting is injective, months are short\<close>

lemma undigit_digit: "n < 10 \<Longrightarrow> undigit (digit n) = n"
  by (simp add: undigit_def digit_def)

lemma undigits_snoc: "undigits (s @ [c]) = 10 * undigits s + undigit c"
  by (simp add: undigits_def)

lemma undigits_digits [simp]: "undigits (digits n) = n"
proof (induction n rule: digits.induct)
  case (1 n)
  then show ?case
    by (cases "n < 10") (simp_all add: digits.simps [of n] undigits_snoc undigit_digit undigits_def [of "[_]"])
qed

lemma digits_inject [simp]: "digits m = digits n \<longleftrightarrow> m = n"
  by (metis undigits_digits)

definition is_digit :: "char \<Rightarrow> bool" where
  "is_digit c \<longleftrightarrow> 48 \<le> (of_char c :: nat) \<and> (of_char c :: nat) \<le> 57"

lemma is_digit_digit: "n < 10 \<Longrightarrow> is_digit (digit n)"
  by (simp add: is_digit_def digit_def)

lemma set_digits: "c \<in> set (digits n) \<Longrightarrow> is_digit c"
proof (induction n rule: digits.induct)
  case (1 n)
  then show ?case
    by (cases "n < 10") (auto simp: digits.simps [of n] is_digit_digit)
qed

lemma not_digit [simp]: "\<not> is_digit CHR ''-''" "\<not> is_digit CHR '':''"
  by (simp_all add: is_digit_def)

lemma is_digit_zero [simp]: "is_digit CHR ''0''"
  by (simp add: is_digit_def)

lemma digits_not_Nil [simp]: "digits n \<noteq> []"
  by (simp add: digits.simps)

lemma digits_no_minus: "digits k \<noteq> CHR ''-'' # s"
  using set_digits [of "CHR ''-''" k] by auto

lemma itoa_inject [simp]: "itoa m = itoa n \<longleftrightarrow> m = n"
  using digits_no_minus digits_no_minus [symmetric] by (auto simp: itoa_def)

lemma itoa_no_colon: "CHR '':'' \<notin> set (itoa n)"
  using set_digits [of "CHR '':''"] by (auto simp: itoa_def)

lemma undigits_zeros: "undigits (replicate k CHR ''0'' @ s) = undigits s"
  by (induction k) (auto simp: undigits_def undigit_def)

lemma pad_int_inject [simp]: "pad_int w m = pad_int w n \<longleftrightarrow> m = n"
proof -
  let ?z = "\<lambda>n. replicate (w - length (digits (nat \<bar>n\<bar>))) CHR ''0'' @ digits (nat \<bar>n\<bar>)"
  have z: "undigits (?z k) = nat \<bar>k\<bar>" for k by (simp add: undigits_zeros)
  have c: "?z k \<noteq> CHR ''-'' # r" for k r
  proof
    assume "?z k = CHR ''-'' # r"
    then have "CHR ''-'' \<in> set (?z k)" by simp
    then show False using set_digits [of "CHR ''-''"] by auto
  qed
  show ?thesis
  proof
    assume a: "pad_int w m = pad_int w n"
    have "(m < 0) = (n < 0)" using a c [of m] c [of n] c [of m, symmetric] c [of n, symmetric] by (auto simp: pad_int_def Let_def split: if_splits)
    moreover from this have "?z m = ?z n" using a by (auto simp: pad_int_def Let_def)
    then have "nat \<bar>m\<bar> = nat \<bar>n\<bar>" using z by metis
    ultimately show "m = n" by auto
  qed simp
qed

lemma pad_int_no_minus: "0 \<le> n \<Longrightarrow> CHR ''-'' \<notin> set (pad_int w n)"
  using set_digits [of "CHR ''-''"] by (auto simp: pad_int_def Let_def)

text \<open>Days before the start of a year, counted from 1 January of year 1.\<close>

definition year_start :: "int \<Rightarrow> int" where
  "year_start y = 365 * (y - 1) + (y - 1) div 4 - (y - 1) div 100 + (y - 1) div 400"

lemma div_step:
  fixes y k :: int
  assumes "0 < k" shows "y div k = (y - 1) div k + (if k dvd y then 1 else 0)"
proof -
  define q r where "q = (y - 1) div k" and "r = (y - 1) mod k"
  have "y - 1 = k * q + r" by (simp add: q_def r_def)
  then have y: "y = k * q + (r + 1)" by simp
  have r: "0 \<le> r" "r < k" using assms by (simp_all add: r_def)
  show ?thesis
  proof (cases "r + 1 = k")
    case True
    then have "y = k * (q + 1)" using y by (simp add: algebra_simps)
    then have "y div k = q + 1" "k dvd y" using assms by (simp_all del: distrib_left)
    then show ?thesis unfolding q_def [symmetric] by simp
  next
    case False
    then have lt: "r + 1 < k" "0 \<le> r + 1" using r by simp_all
    have "y div k = q" using y lt by (intro int_div_pos_eq) auto
    moreover have "y mod k = r + 1" using y lt by (intro int_mod_pos_eq) auto
    ultimately show ?thesis using r unfolding q_def [symmetric] by (simp add: dvd_eq_mod_eq_0)
  qed
qed

lemmas div_steps = div_step [of 4, simplified] div_step [of 100, simplified] div_step [of 400, simplified]

lemma year_start_Suc: "year_start (y + 1) = year_start y + year_len y"
proof -
  have e: "year_start (y + 1) = 365 * y + y div 4 - y div 100 + y div 400"
    "year_start y = 365 * (y - 1) + (y - 1) div 4 - (y - 1) div 100 + (y - 1) div 400"
    by (simp_all add: year_start_def)
  have count: "(b \<Longrightarrow> a) \<Longrightarrow> (c \<Longrightarrow> b) \<Longrightarrow> (if a \<and> (\<not> b \<or> c) then 366 else 365)
      = 365 + (if a then 1 else 0) - (if b then 1 else 0) + (if c then 1 else (0::int))" for a b c
    by (cases a; cases b; cases c) simp_all
  have "100 dvd y \<Longrightarrow> 4 dvd y" using dvd_trans [of 4 100 y] by simp
  moreover have "400 dvd y \<Longrightarrow> 100 dvd y" using dvd_trans [of 100 400 y] by simp
  ultimately have "year_len y = 365 + (if 4 dvd y then 1 else 0) - (if 100 dvd y then 1 else 0)
      + (if 400 dvd y then 1 else 0)"
    unfolding year_len_def leap_def by (rule count)
  moreover have "A = 365 * y + a - b + c \<Longrightarrow> B = 365 * (y - 1) + a' - b' + c' \<Longrightarrow> a = a' + p \<Longrightarrow> b = b' + q
      \<Longrightarrow> c = c' + r \<Longrightarrow> L = 365 + p - q + r \<Longrightarrow> A = B + L" for A B L a b c a' b' c' p q r :: int
    by simp
  ultimately show ?thesis using e div_steps [of y] by blast
qed

lemma civil_year_correct:
  "civil_year y d = (y', d') \<Longrightarrow> year_start y' + d' = year_start y + d \<and> 0 \<le> d' \<and> d' < year_len y'"
proof (induction y d rule: civil_year.induct)
  case (1 y d)
  consider "d < 0" | "year_len y \<le> d" "0 \<le> d" | "0 \<le> d" "d < year_len y" by linarith
  then show ?case
  proof cases
    case 1
    with "1.prems" have "civil_year (y - 1) (d + year_len (y - 1)) = (y', d')"
      by (simp add: civil_year.simps [of y d])
    from "1.IH"(1) [OF 1 this] year_start_Suc [of "y - 1"] show ?thesis by simp
  next
    case 2
    with "1.prems" have "civil_year (y + 1) (d - year_len y) = (y', d')"
      by (simp add: civil_year.simps [of y d])
    from "1.IH"(2) [OF _ 2(1) this] 2 year_start_Suc [of y] show ?thesis by simp
  next
    case 3
    with "1.prems" show ?thesis by (simp add: civil_year.simps [of y d])
  qed
qed

lemma civil_month_correct:
  assumes "civil_month ls m d = (m', d')" "0 \<le> d" "d < sum_list ls" "\<forall>l\<in>set ls. 28 \<le> l \<and> l \<le> 31"
  shows "m \<le> m' \<and> nat (m' - m) < length ls \<and> d = sum_list (take (nat (m' - m)) ls) + d' \<and> 0 \<le> d' \<and> d' < ls ! nat (m' - m)"
  using assms
proof (induction ls m d rule: civil_month.induct)
  case (2 l ls m d)
  show ?case
  proof (cases "d < l \<or> ls = []")
    case True
    with 2 show ?thesis by auto
  next
    case False
    with 2 have IH: "m + 1 \<le> m'" "nat (m' - (m + 1)) < length ls"
      "d - l = sum_list (take (nat (m' - (m + 1))) ls) + d'" "0 \<le> d'" "d' < ls ! nat (m' - (m + 1))" by auto
    from IH(1) have "nat (m' - m) = Suc (nat (m' - (m + 1)))" by auto
    with IH show ?thesis by auto
  qed
qed simp

lemma month_lens_sum: "sum_list (month_lens y) = year_len y"
  by (simp add: month_lens_def year_len_def)

lemma month_lens_bounds: "\<forall>l\<in>set (month_lens y). 28 \<le> l \<and> l \<le> 31"
  by (simp add: month_lens_def)

lemma year_month_days:
  assumes "year_month t = (y, m)"
  obtains d where "t div ns_per_day = year_start y - year_start 1970 + sum_list (take (nat (m - 1)) (month_lens y)) + d"
    and "0 \<le> d" and "d \<le> 30" and "1 \<le> m" and "m \<le> 12"
proof -
  obtain y' d1 where c: "civil_year 1970 (t div ns_per_day) = (y', d1)" by (cases "civil_year 1970 (t div ns_per_day)")
  obtain m' d where cm: "civil_month (month_lens y') 1 d1 = (m', d)" by (cases "civil_month (month_lens y') 1 d1")
  from assms c cm have [simp]: "y' = y" "m' = m" by (auto simp: year_month_def)
  from civil_year_correct [OF c] have Y: "year_start y + d1 = year_start 1970 + t div ns_per_day"
    "0 \<le> d1" "d1 < sum_list (month_lens y)" by (simp_all add: month_lens_sum)
  from civil_month_correct [OF cm] Y month_lens_bounds [of y]
  have M: "1 \<le> m" "nat (m - 1) < length (month_lens y)" "d1 = sum_list (take (nat (m - 1)) (month_lens y)) + d"
    "0 \<le> d" "d < month_lens y ! nat (m - 1)" by auto
  have "month_lens y ! nat (m - 1) \<le> 31" using month_lens_bounds M(2) nth_mem by blast
  with M Y show ?thesis by (intro that [of d]) (auto simp: month_lens_def)
qed

text \<open>Two instants of the same month are less than 31 days apart.\<close>

lemma same_month_close:
  assumes "year_month t1 = year_month t2" shows "\<bar>t1 - t2\<bar> < 31 * ns_per_day"
proof -
  obtain y m where ym: "year_month t1 = (y, m)" by (cases "year_month t1")
  obtain d1 where d1: "t1 div ns_per_day = year_start y - year_start 1970 + sum_list (take (nat (m - 1)) (month_lens y)) + d1"
    "0 \<le> d1" "d1 \<le> 30" using year_month_days [OF ym] by metis
  obtain d2 where d2: "t2 div ns_per_day = year_start y - year_start 1970 + sum_list (take (nat (m - 1)) (month_lens y)) + d2"
    "0 \<le> d2" "d2 \<le> 30" using year_month_days [of t2 y m] ym assms by metis
  have "\<bar>t1 div ns_per_day - t2 div ns_per_day\<bar> \<le> 30" using d1 d2 by auto
  moreover have sp: "t = t div ns_per_day * ns_per_day + t mod ns_per_day \<and> 0 \<le> t mod ns_per_day \<and> t mod ns_per_day < ns_per_day" for t :: int
    by (simp add: ns_per_day_def)
  ultimately show ?thesis using sp [of t1] sp [of t2] by (auto simp: ns_per_day_def abs_le_iff)
qed

lemma format_month_inject:
  assumes "format_month t1 = format_month t2" shows "year_month t1 = year_month t2"
proof -
  obtain y1 m1 where 1: "year_month t1 = (y1, m1)" by (cases "year_month t1")
  obtain y2 m2 where 2: "year_month t2 = (y2, m2)" by (cases "year_month t2")
  have m: "1 \<le> m1" "m1 \<le> 12" "1 \<le> m2" "m2 \<le> 12" using year_month_days 1 2 by metis+
  have len: "length (pad_int 2 k) = 2" if "1 \<le> k" "k \<le> 12" for k
    using that by (auto simp: pad_int_def Let_def digits.simps)
  from assms 1 2 have "pad_int 4 y1 @ ''-'' @ pad_int 2 m1 = pad_int 4 y2 @ ''-'' @ pad_int 2 m2"
    by (simp add: format_month_def)
  moreover have "length (''-'' @ pad_int 2 m1) = length (''-'' @ pad_int 2 m2)" using len m by simp
  ultimately have "pad_int 4 y1 = pad_int 4 y2 \<and> ''-'' @ pad_int 2 m1 = ''-'' @ pad_int 2 m2"
    by (metis append_eq_append_conv)
  then show ?thesis using 1 2 by simp
qed

end
