(* ===== verification/Budget.thy ===== *)
theory Budget
  imports GoFloat GoTime
begin

section \<open>Budget: the per-tenant monthly counter in Redis\<close>

text \<open>
  \<open>internal/budget/budget.go\<close>. A tenant's spend of a UTC month is a Redis counter in integer
  micro-USD. \<open>Reserve\<close> runs one Lua script, which the server executes atomically: it compares
  the counter plus the estimate with the cap and increments only when it fits. \<open>Reconcile\<close>
  later corrects the counter by the difference between the metered cost and the estimate.

  The Redis server is not part of the repository. It is a record \<open>R\<close> of the commands the
  code sends, over an unspecified server state, and the locale \<open>redis_server\<close> states what
  the Redis documentation promises of them. The script itself is source code and is modelled
  as it is written, with Lua's numbers as the doubles they are.
\<close>

record 'r redis =
  r_get :: "'r \<Rightarrow> bytes \<Rightarrow> int option"
  r_incrby :: "'r \<Rightarrow> bytes \<Rightarrow> int \<Rightarrow> (int \<times> 'r) option"
  r_ttl :: "'r \<Rightarrow> bytes \<Rightarrow> int"
  r_expire :: "'r \<Rightarrow> bytes \<Rightarrow> int \<Rightarrow> 'r"
  r_numarg :: "f64 \<Rightarrow> int option"
  r_arch :: arch

definition counter :: "'r redis \<Rightarrow> 'r \<Rightarrow> bytes \<Rightarrow> int" where
  "counter R s k = (case r_get R s k of None \<Rightarrow> 0 | Some c \<Rightarrow> c)"

text \<open>
  The documented behaviour: \<open>INCRBY\<close> adds to a 64-bit signed counter that starts at 0, keeps
  its expiry, and errors on overflow; \<open>EXPIRE\<close> sets the time to live of a key; \<open>TTL\<close> is
  -2 for no key and -1 for a key with no expiry; a Lua number that is an integer of at most
  2^53 in magnitude is passed to a command as that integer.
\<close>

locale redis_server =
  fixes R :: "'r redis"
  assumes incrby_overflow: "\<not> in_int64 (counter R s k + d) \<Longrightarrow> r_incrby R s k d = None"
    and incrby_ok: "in_int64 (counter R s k + d) \<Longrightarrow> \<exists>s'. r_incrby R s k d = Some (counter R s k + d, s')"
    and incrby_get: "r_incrby R s k d = Some (n, s') \<Longrightarrow>
          r_get R s' j = (if j = k then Some n else r_get R s j)"
    and incrby_ttl: "r_incrby R s k d = Some (n, s') \<Longrightarrow>
          r_ttl R s' j = (if j = k \<and> r_get R s k = None then -1 else r_ttl R s j)"
    and ttl_absent: "r_ttl R s k = -2 \<longleftrightarrow> r_get R s k = None"
    and expire_get: "0 < t \<Longrightarrow> r_get R (r_expire R s k t) j = r_get R s j"
    and expire_ttl: "0 < t \<Longrightarrow> r_get R s k \<noteq> None \<Longrightarrow>
          r_ttl R (r_expire R s k t) j = (if j = k then t else r_ttl R s j)"
    and numarg_exact: "\<bar>n\<bar> \<le> 2 ^ 53 \<Longrightarrow> r_numarg R (Fin (of_int n)) = Some n"

subsection \<open>The client\<close>

text \<open>\<open>New\<close>: the library parses the URL and makes a client, which connects on first use.\<close>

definition budget_New :: "(bytes \<Rightarrow> bytes + 'o) \<Rightarrow> ('o \<Rightarrow> 'r redis) \<Rightarrow> bytes \<Rightarrow> bytes + 'r redis" where
  "budget_New ParseURL NewClient redisURL =
     (case ParseURL redisURL of
        Inl e \<Rightarrow> Inl (''parse REDIS_URL: '' @ e)
      | Inr opt \<Rightarrow> Inr (NewClient opt))"

definition ttlSeconds :: int where
  "ttlSeconds = 62 * 24 * 60 * 60"

definition MonthKey :: "int \<Rightarrow> instant \<Rightarrow> bytes" where
  "MonthKey tenantID t = ''budget:'' @ itoa tenantID @ '':'' @ format_month t"

text \<open>
  The Lua script. \<open>tonumber\<close> turns the arguments into doubles; a failing command raises and
  ends the script (\<open>None\<close>); the numbers of the returned table become integer replies.
\<close>

definition reserve_script :: "'r redis \<Rightarrow> 'r \<Rightarrow> bytes \<Rightarrow> int \<Rightarrow> int \<Rightarrow> int list option \<times> 'r" where
  "reserve_script R s key limitMicro estMicro =
     (let cur = (case r_get R s key of Some c \<Rightarrow> f64_of_int c | None \<Rightarrow> f64_of_int 0);
          limit = f64_of_int limitMicro;
          est = f64_of_int estMicro;
          reply = f64_to_int64 (r_arch R)
      in if flt limit (fadd cur est) then (Some [0, reply cur], s)
         else case r_numarg R est of
             None \<Rightarrow> (None, s)
           | Some d \<Rightarrow> (case r_incrby R s key d of
                 None \<Rightarrow> (None, s)
               | Some (new, s1) \<Rightarrow>
                   let s2 = (if r_ttl R s1 key < 0 then r_expire R s1 key ttlSeconds else s1)
                   in (Some [1, reply (f64_of_int new)], s2)))"

text \<open>
  What the network does to one call: it is delivered and answered, it never reaches the server,
  or it is executed and the answer is lost.
\<close>

datatype link = Delivered | NotSent | ReplyLost

datatype budget_error = RedisError | UnexpectedReply

definition Reserve :: "'r redis \<Rightarrow> link \<Rightarrow> 'r \<Rightarrow> bytes \<Rightarrow> int \<Rightarrow> int \<Rightarrow> 'r \<times> (budget_error + bool \<times> int)" where
  "Reserve R net s key limitMicro estMicro =
     (case net of
        NotSent \<Rightarrow> (s, Inl RedisError)
      | ReplyLost \<Rightarrow> (snd (reserve_script R s key limitMicro estMicro), Inl RedisError)
      | Delivered \<Rightarrow>
          (case reserve_script R s key limitMicro estMicro of
             (None, s') \<Rightarrow> (s', Inl RedisError)
           | (Some vals, s') \<Rightarrow>
               (s', if length vals \<noteq> 2 then Inl UnexpectedReply else Inr (vals ! 0 = 1, vals ! 1))))"

definition Reconcile :: "'r redis \<Rightarrow> link \<Rightarrow> 'r \<Rightarrow> bytes \<Rightarrow> int \<Rightarrow> 'r \<times> (budget_error + unit)" where
  "Reconcile R net s key deltaMicro =
     (if deltaMicro = 0 then (s, Inr ())
      else case net of
          NotSent \<Rightarrow> (s, Inl RedisError)
        | ReplyLost \<Rightarrow> (case r_incrby R s key deltaMicro of
              None \<Rightarrow> (s, Inl RedisError) | Some (n, s') \<Rightarrow> (s', Inl RedisError))
        | Delivered \<Rightarrow> (case r_incrby R s key deltaMicro of
              None \<Rightarrow> (s, Inl RedisError) | Some (n, s') \<Rightarrow> (s', Inr ())))"

subsection \<open>A Redis server\<close>

text \<open>An in-memory server that meets the contract: values with a time to live, -1 for none.\<close>

type_synonym mem = "bytes \<rightharpoonup> int \<times> int"

definition mem_redis :: "mem redis" where
  "mem_redis = \<lparr>
     r_get = (\<lambda>m k. map_option fst (m k)),
     r_incrby = (\<lambda>m k d.
        let (c, t) = (case m k of None \<Rightarrow> (0, -1) | Some e \<Rightarrow> e)
        in if in_int64 (c + d) then Some (c + d, m(k \<mapsto> (c + d, t))) else None),
     r_ttl = (\<lambda>m k. case m k of None \<Rightarrow> -2 | Some (c, t) \<Rightarrow> (if t < 0 then -1 else t)),
     r_expire = (\<lambda>m k t. case m k of None \<Rightarrow> m | Some (c, t') \<Rightarrow> m(k \<mapsto> (c, t))),
     r_numarg = (\<lambda>x. case x of Fin q \<Rightarrow> (if of_int \<lfloor>q\<rfloor> = q \<and> in_int64 \<lfloor>q\<rfloor> then Some \<lfloor>q\<rfloor> else None) | _ \<Rightarrow> None),
     r_arch = amd64\<rparr>"

interpretation mem: redis_server mem_redis
proof
  fix n :: int
  assume "\<bar>n\<bar> \<le> 2 ^ 53"
  then show "r_numarg mem_redis (Fin (of_int n)) = Some n"
    by (auto simp: mem_redis_def int64_defs)
qed (auto simp: mem_redis_def counter_def split: option.splits prod.splits if_splits)

subsection \<open>The reservation against its specification\<close>

text \<open>What a reservation promises: an exact check-and-add on the integers.\<close>

definition reserve_spec :: "int \<Rightarrow> int \<Rightarrow> int \<Rightarrow> bool \<times> int" where
  "reserve_spec limit est cur = (if cur + est \<le> limit then (True, cur + est) else (False, cur))"

lemma reply_int [simp]: "in_int64 n \<Longrightarrow> f64_to_int64 A (Fin (of_int n)) = n"
  by (simp add: f64_to_int64_def)

lemma exceeds_in_doubles:
  assumes "0 \<le> c" "0 \<le> est" "limit < c + est" "limit < 2 ^ 53"
  shows "flt (f64_of_int limit) (fadd (f64_of_int c) (f64_of_int est))"
proof -
  have nn: "fnn (f64_of_int c)" "fnn (f64_of_int est)"
    using f64_of_int_mono [of 0 c] f64_of_int_mono [of 0 est] assms(1,2) by (simp_all add: f64_of_int_def)
  have sum_nn: "fnn (fadd (f64_of_int c) (f64_of_int est))" using nn by (rule fadd_nonneg)
  define L where "L = max 0 (limit + 1)"
  define c0 where "c0 = min c L"
  have b: "\<bar>c0\<bar> \<le> 2 ^ 53" "\<bar>L - c0\<bar> \<le> 2 ^ 53" "\<bar>L\<bar> \<le> 2 ^ 53" "c0 \<le> c" "L - c0 \<le> est" "0 \<le> c0" "0 \<le> L - c0"
    using assms by (auto simp: c0_def L_def)
  have "fle (fadd (f64_of_int c0) (f64_of_int (L - c0))) (fadd (f64_of_int c) (f64_of_int est))"
    using f64_of_int_mono [of 0 c0] f64_of_int_mono [of 0 "L - c0"] b
    by (intro fadd_mono f64_of_int_mono) (simp_all add: f64_of_int_def)
  moreover have "fadd (f64_of_int c0) (f64_of_int (L - c0)) = f64_of_int L"
    using b by (simp add: f64_of_int_exact [of c0] f64_of_int_exact [of "L - c0"]) (simp add: f64_of_int_def)
  ultimately have ge: "fle (Fin (of_int L)) (fadd (f64_of_int c) (f64_of_int est))"
    using b by (simp add: f64_of_int_exact)
  have "limit < L" by (simp add: L_def)
  have le: "fle (f64_of_int limit) (Fin (of_int (L - 1)))"
    using f64_of_int_mono [of limit "L - 1"] f64_of_int_exact [of "L - 1"] \<open>limit < L\<close> b(3)
    by (simp add: L_def)
  with ge show ?thesis
    by (cases "f64_of_int limit"; cases "fadd (f64_of_int c) (f64_of_int est)") (auto simp: flt_def)
qed

lemma within_in_doubles:
  assumes "0 \<le> c" "0 \<le> est" "c + est \<le> limit" "limit < 2 ^ 53"
  shows "\<not> flt (f64_of_int limit) (fadd (f64_of_int c) (f64_of_int est))"
  using assms
  by (simp add: f64_of_int_exact flt_def) (simp add: f64_of_int_exact [unfolded f64_of_int_def] flip: of_int_add)

context redis_server
begin

lemma incrby_cases:
  "r_incrby R s k d = None \<and> \<not> in_int64 (counter R s k + d)
   \<or> (\<exists>s'. r_incrby R s k d = Some (counter R s k + d, s') \<and> in_int64 (counter R s k + d))"
  using incrby_overflow incrby_ok by blast

lemma counter_incrby:
  "r_incrby R s k d = Some (n, s') \<Longrightarrow> counter R s' j = (if j = k then counter R s k + d else counter R s j)"
  using incrby_get incrby_cases [of s k d] by (auto simp: counter_def)

lemma counter_expire: "0 < t \<Longrightarrow> counter R (r_expire R s k t) j = counter R s j"
  by (simp add: counter_def expire_get)

lemma get_counter: "(case r_get R s k of Some c \<Rightarrow> f64_of_int c | None \<Rightarrow> f64_of_int 0) = f64_of_int (counter R s k)"
  by (simp add: counter_def split: option.split)

lemma script_deny:
  assumes "0 \<le> counter R s k" "0 \<le> est" "limit < counter R s k + est" "limit < 2 ^ 53"
  shows "reserve_script R s k limit est = (Some [0, f64_to_int64 (r_arch R) (f64_of_int (counter R s k))], s)"
  using exceeds_in_doubles [OF assms] by (simp add: reserve_script_def get_counter)

lemma script_allow:
  assumes "0 \<le> counter R s k" "0 \<le> est" "counter R s k + est \<le> limit" "limit < 2 ^ 53"
  obtains s' where "reserve_script R s k limit est = (Some [1, counter R s k + est], s')"
    and "\<And>j. counter R s' j = (if j = k then counter R s k + est else counter R s j)"
    and "0 \<le> r_ttl R s' k" and "\<And>j. j \<noteq> k \<Longrightarrow> r_ttl R s' j = r_ttl R s j"
    and "r_ttl R s k < 0 \<Longrightarrow> r_ttl R s' k = ttlSeconds"
proof -
  let ?c = "counter R s k"
  have int: "in_int64 (?c + est)" using assms by (simp add: int64_defs)
  then obtain s1 where s1: "r_incrby R s k est = Some (?c + est, s1)" using incrby_ok by blast
  have num: "r_numarg R (f64_of_int est) = Some est"
    using assms numarg_exact [of est] f64_of_int_exact [of est] by simp
  define s2 where "s2 = (if r_ttl R s1 k < 0 then r_expire R s1 k ttlSeconds else s1)"
  have "f64_of_int (?c + est) = Fin (of_int (?c + est))" using assms by (intro f64_of_int_exact) simp
  then have rep: "f64_to_int64 (r_arch R) (f64_of_int (?c + est)) = ?c + est"
    using int by (simp only: reply_int)
  have run: "reserve_script R s k limit est = (Some [1, ?c + est], s2)"
    using within_in_doubles [OF assms] rep num s1
    by (simp add: reserve_script_def get_counter Let_def s2_def)
  have pos: "0 < ttlSeconds" by (simp add: ttlSeconds_def)
  have ex: "r_get R s1 k \<noteq> None" using incrby_get [OF s1] by simp
  show ?thesis
  proof (rule that [OF run])
    show "counter R s2 j = (if j = k then ?c + est else counter R s j)" for j
      using counter_incrby [OF s1] counter_expire [OF pos] by (simp add: s2_def)
    show "0 \<le> r_ttl R s2 k" using expire_ttl [OF pos ex] pos by (simp add: s2_def)
    show "r_ttl R s2 j = r_ttl R s j" if "j \<noteq> k" for j
      using expire_ttl [OF pos ex] incrby_ttl [OF s1] that by (simp add: s2_def)
    show "r_ttl R s2 k = ttlSeconds" if "r_ttl R s k < 0"
      using expire_ttl [OF pos ex] incrby_ttl [OF s1] that by (simp add: s2_def)
  qed
qed

end

text \<open>C13: over any server that keeps the Redis contract, for a non-negative counter and estimate and
  a cap below 2^53, the reservation script computed in doubles decides and updates exactly as the integer
  check-and-add: it is admitted iff the sum does not exceed the cap, only then and only on its key is the
  counter changed, and the spend it reports is the counter afterwards.\<close>

theorem Reserve_refines_spec:
  assumes "redis_server R" and "0 \<le> counter R s key" and "0 \<le> est" and "limit < 2 ^ 53"
    and "Reserve R Delivered s key limit est = (s', r)"
  shows "\<exists>spend. r = Inr (fst (reserve_spec limit est (counter R s key)), spend)
     \<and> (\<forall>j. counter R s' j = (if j = key then snd (reserve_spec limit est (counter R s key)) else counter R s j))
     \<and> (counter R s key \<le> 2 ^ 53 \<longrightarrow> spend = snd (reserve_spec limit est (counter R s key)))"
proof (cases "counter R s key + est \<le> limit")
  case True
  from redis_server.script_allow [OF assms(1-3) True assms(4)] obtain t where
    "reserve_script R s key limit est = (Some [1, counter R s key + est], t)"
    "\<And>j. counter R t j = (if j = key then counter R s key + est else counter R s j)" by metis
  with assms(5) True show ?thesis by (auto simp: Reserve_def reserve_spec_def)
next
  case False
  then have "limit < counter R s key + est" by simp
  note deny = redis_server.script_deny [OF assms(1-3) this assms(4)]
  have "f64_to_int64 (r_arch R) (f64_of_int (counter R s key)) = counter R s key" if "counter R s key \<le> 2 ^ 53"
  proof -
    have "f64_of_int (counter R s key) = Fin (of_int (counter R s key))"
      using that assms(2) by (intro f64_of_int_exact) simp
    then show ?thesis using that assms(2) by (simp add: int64_defs)
  qed
  with assms(5) False deny show ?thesis by (auto simp: Reserve_def reserve_spec_def)
qed

lemma counter_mem [simp]: "counter mem_redis m k = (case m k of None \<Rightarrow> 0 | Some e \<Rightarrow> fst e)"
  by (simp add: counter_def mem_redis_def split: option.split)

theorem Reserve_refines_spec_witness:
  "snd (Reserve mem_redis Delivered [''k'' \<mapsto> (400, -1)] ''k'' 1000 600) = Inr (True, 1000)
   \<and> snd (Reserve mem_redis Delivered [''k'' \<mapsto> (401, -1)] ''k'' 1000 600) = Inr (False, 401)"
proof -
  have "snd (Reserve mem_redis Delivered [''k'' \<mapsto> (c, -1)] ''k'' 1000 600)
      = Inr (reserve_spec 1000 600 c)" if "c \<in> {400, 401}" for c
    using Reserve_refines_spec [of mem_redis "[''k'' \<mapsto> (c, -1)]" "''k''" 600 1000,
        OF mem.redis_server_axioms _ _ _ prod.collapse [symmetric]] that
    by auto
  from this [of 400] this [of 401] show ?thesis by (simp add: reserve_spec_def)
qed

subsection \<open>Keys and expiry\<close>

lemma MonthKey_inject: "MonthKey a t1 = MonthKey b t2 \<Longrightarrow> a = b \<and> year_month t1 = year_month t2"
proof -
  assume "MonthKey a t1 = MonthKey b t2"
  then have e: "itoa a @ '':'' @ format_month t1 = itoa b @ '':'' @ format_month t2"
    by (simp add: MonthKey_def)
  have "takeWhile (\<lambda>c. c \<noteq> CHR '':'') (itoa n @ '':'' @ r) = itoa n" for n r
    using itoa_no_colon [of n] by (simp add: takeWhile_append takeWhile_eq_all_conv)
  with e have "itoa a = itoa b" by metis
  with e show ?thesis by (auto dest: format_month_inject)
qed

text \<open>Two reservations share a counter only if they are of the same tenant and the same UTC month,
  and two instants of one month are closer than the time to live of the counter.\<close>

theorem MonthKey_separates:
  assumes "MonthKey a t1 = MonthKey b t2"
  shows "a = b \<and> year_month t1 = year_month t2 \<and> \<bar>t1 - t2\<bar> < ttlSeconds * 1000000000"
  using MonthKey_inject [OF assms] same_month_close [of t1 t2]
  by (simp add: ns_per_day_def ttlSeconds_def)

theorem MonthKey_separates_witness:
  "\<bar>1783000000000000000 - 1784000000000000000 :: int\<bar> < ttlSeconds * 1000000000"
proof -
  have "MonthKey 7 1783000000000000000 = MonthKey 7 1784000000000000000"
    by (simp add: MonthKey_def format_month_def year_month_def ns_per_day_def civil_year.simps
        year_len_def leap_def month_lens_def Let_def)
  from MonthKey_separates [OF this] show ?thesis by simp
qed

text \<open>After an admitted reservation the counter has an expiry: the 62 days if it had none, and the
  expiry of every other key is unchanged.\<close>

theorem Reserve_sets_expiry:
  assumes "redis_server R" and "0 \<le> counter R s key" and "0 \<le> est" and "limit < 2 ^ 53"
    and "Reserve R Delivered s key limit est = (s', Inr (True, spend))"
  shows "0 \<le> r_ttl R s' key \<and> (r_ttl R s key < 0 \<longrightarrow> r_ttl R s' key = ttlSeconds)
       \<and> (\<forall>j. j \<noteq> key \<longrightarrow> r_ttl R s' j = r_ttl R s j)"
proof -
  have "counter R s key + est \<le> limit"
  proof (rule ccontr)
    assume "\<not> ?thesis"
    then show False using assms(5) redis_server.script_deny [OF assms(1-3) _ assms(4)]
      by (auto simp: Reserve_def)
  qed
  from redis_server.script_allow [OF assms(1-3) this assms(4)] obtain t where
    "reserve_script R s key limit est = (Some [1, counter R s key + est], t)"
    "0 \<le> r_ttl R t key" "\<And>j. j \<noteq> key \<Longrightarrow> r_ttl R t j = r_ttl R s j"
    "r_ttl R s key < 0 \<Longrightarrow> r_ttl R t key = ttlSeconds" by metis
  with assms(5) show ?thesis by (auto simp: Reserve_def)
qed

lemma Reserve_mem_fresh:
  "Reserve mem_redis Delivered Map.empty ''k'' 1000 600 = ([''k'' \<mapsto> (600, ttlSeconds)], Inr (True, 600))"
  by (simp add: Reserve_def reserve_script_def mem_redis_def Let_def f64_of_int_exact flt_def int64_defs
      amd64_def rnd64_def)
     (simp add: go_eval int64_defs ttlSeconds_def)

theorem Reserve_sets_expiry_witness:
  "r_ttl mem_redis [''k'' \<mapsto> (600, ttlSeconds)] ''k'' = ttlSeconds"
proof -
  have "r_ttl mem_redis Map.empty ''k'' < 0" by (simp add: mem_redis_def)
  with Reserve_sets_expiry [OF mem.redis_server_axioms _ _ _ Reserve_mem_fresh] show ?thesis by simp
qed

end
