(* ===== verification/Prices.thy ===== *)
theory Prices
  imports GoFloat
begin

section \<open>Prices: the in-memory price table and the cost of a request\<close>

text \<open>
  \<open>internal/prices\<close>: a price list (parsed from \<open>prices.yaml\<close> by a YAML library, a
  parameter here) is upserted into Postgres by \<open>Seed\<close> and indexed into an in-memory map by
  \<open>BuildTable\<close>; \<open>Cost\<close> is the only reader. \<open>toMicro\<close> of
  \<open>internal/proxy/proxy.go\<close>, which turns the \<open>float64\<close> cost into the integer
  micro-USD of the budget counters, is modelled here beside the cost it converts.
\<close>

record Price =
  pr_Provider :: bytes
  pr_Model :: bytes
  InputUSDPerMTok :: f64
  OutputUSDPerMTok :: f64

type_synonym Key = "bytes \<times> bytes"

type_synonym Table = "Key \<rightharpoonup> Price"

definition price_key :: "Price \<Rightarrow> Key" where
  "price_key p = (pr_Provider p, pr_Model p)"

definition BuildTable :: "Price list \<Rightarrow> Table" where
  "BuildTable list = foldl (\<lambda>t p. t(price_key p \<mapsto> p)) Map.empty list"

definition tokens_per_mtok :: "int \<Rightarrow> f64" where
  "tokens_per_mtok n = fdiv_const (f64_of_int n) 1000000"

definition Cost :: "arch \<Rightarrow> Table \<Rightarrow> bytes \<Rightarrow> bytes \<Rightarrow> int \<Rightarrow> int \<Rightarrow> f64 \<times> bool" where
  "Cost A t provider model inTokens outTokens =
     (case t (provider, model) of
        None \<Rightarrow> (Fin 0, False)
      | Some p \<Rightarrow>
          (fdot A (tokens_per_mtok inTokens) (InputUSDPerMTok p)
                  (tokens_per_mtok outTokens) (OutputUSDPerMTok p), True))"

definition toMicro :: "arch \<Rightarrow> f64 \<Rightarrow> int" where
  "toMicro A usd = f64_to_int64 A (fround (fmul usd (Fin 1000000)))"

text \<open>
  \<open>Seed\<close> queues one upsert per price and reads the results in order; the first error ends it.
  \<open>exec\<close> is one upsert run by Postgres (\<open>None\<close> when it errors); the batch is one
  implicit transaction, so an error leaves the table as it was.
\<close>

fun seed_loop :: "('db \<Rightarrow> Price \<Rightarrow> 'db option) \<Rightarrow> 'db \<Rightarrow> Price list \<Rightarrow> 'db option" where
  "seed_loop exec db [] = Some db"
| "seed_loop exec db (p # ps) =
     (case exec db p of None \<Rightarrow> None | Some db' \<Rightarrow> seed_loop exec db' ps)"

datatype seed_error = SeedError

definition Seed :: "('db \<Rightarrow> Price \<Rightarrow> 'db option) \<Rightarrow> 'db \<Rightarrow> Price list \<Rightarrow> 'db \<times> (seed_error + unit)" where
  "Seed exec db prices =
     (case seed_loop exec db prices of
        None \<Rightarrow> (db, Inl SeedError)
      | Some db' \<Rightarrow> (db', Inr ()))"

text \<open>
  Reading the list: \<open>rd\<close> is the file system and \<open>yaml\<close> the YAML library, each with the text of its
  error.
\<close>

definition prices_Load :: "(bytes \<Rightarrow> bytes + bytes) \<Rightarrow> (bytes \<Rightarrow> bytes + Price list) \<Rightarrow> bytes \<Rightarrow> bytes + Price list" where
  "prices_Load rd yaml path =
     (case rd path of
        Inl e \<Rightarrow> Inl e
      | Inr content \<Rightarrow>
          (case yaml content of
             Inl e \<Rightarrow> Inl (''parse '' @ path @ '': '' @ e)
           | Inr prices \<Rightarrow> Inr prices))"

text \<open>The checked-in price list. YAML's decimals are read as \<open>float64\<close>.\<close>

definition prices_yaml :: "Price list" where
  "prices_yaml =
     [\<lparr>pr_Provider = ''openai'', pr_Model = ''gpt-4o'',
        InputUSDPerMTok = Fin (5 / 2), OutputUSDPerMTok = Fin 10\<rparr>,
      \<lparr>pr_Provider = ''openai'', pr_Model = ''gpt-4o-mini'',
        InputUSDPerMTok = rnd64 (15 / 100), OutputUSDPerMTok = rnd64 (60 / 100)\<rparr>,
      \<lparr>pr_Provider = ''openai'', pr_Model = ''gpt-4o-mini-2024-07-18'',
        InputUSDPerMTok = rnd64 (15 / 100), OutputUSDPerMTok = rnd64 (60 / 100)\<rparr>,
      \<lparr>pr_Provider = ''anthropic'', pr_Model = ''claude-haiku-4-5-20251001'',
        InputUSDPerMTok = Fin 1, OutputUSDPerMTok = Fin 5\<rparr>,
      \<lparr>pr_Provider = ''anthropic'', pr_Model = ''claude-3-5-sonnet-20241022'',
        InputUSDPerMTok = Fin 3, OutputUSDPerMTok = Fin 15\<rparr>,
      \<lparr>pr_Provider = ''anthropic'', pr_Model = ''claude-3-5-haiku-20241022'',
        InputUSDPerMTok = rnd64 (80 / 100), OutputUSDPerMTok = Fin 4\<rparr>]"

subsection \<open>The table\<close>

lemma foldl_upd:
  "foldl (\<lambda>t p. t(k p \<mapsto> v p)) m ps x =
     (case find (\<lambda>p. k p = x) (rev ps) of Some p \<Rightarrow> Some (v p) | None \<Rightarrow> m x)"
  by (induction ps rule: rev_induct) (auto split: option.splits)

text \<open>The table holds, for each (provider, model), the last price listed for it.\<close>

theorem BuildTable_last_wins:
  "BuildTable list k = find (\<lambda>p. price_key p = k) (rev list)"
  by (simp add: BuildTable_def foldl_upd [where v = "\<lambda>p. p"] split: option.splits)

text \<open>Seeding Postgres and building the in-memory table agree on every price.\<close>

theorem Seed_matches_BuildTable:
  fixes exec :: "(Key \<rightharpoonup> 'row) \<Rightarrow> Price \<Rightarrow> (Key \<rightharpoonup> 'row) option"
  assumes upsert: "\<And>db p. exec db p = Some (db(price_key p \<mapsto> row p))"
  shows "\<exists>db'. Seed exec db prices = (db', Inr ())
     \<and> (\<forall>k. db' k = (case BuildTable prices k of Some p \<Rightarrow> Some (row p) | None \<Rightarrow> db k))"
proof -
  have "seed_loop exec db prices = Some (foldl (\<lambda>t p. t(price_key p \<mapsto> row p)) db prices)"
    by (induction prices arbitrary: db) (simp_all add: upsert)
  then show ?thesis
    by (auto simp: Seed_def foldl_upd BuildTable_def foldl_upd [where v = "\<lambda>p. p"] split: option.splits)
qed

theorem Seed_matches_BuildTable_witness:
  "\<exists>db'. Seed (\<lambda>db p. Some (db(price_key p \<mapsto> p))) Map.empty prices_yaml = (db', Inr ())
     \<and> (\<forall>k. db' k = (case BuildTable prices_yaml k of Some p \<Rightarrow> Some p | None \<Rightarrow> None))"
  using Seed_matches_BuildTable [of "\<lambda>db p. Some (db(price_key p \<mapsto> p))" "\<lambda>p. p" Map.empty prices_yaml]
  by simp

subsection \<open>Prices that are amounts, and costs that fit the counter\<close>

text \<open>
  \<open>price_ok\<close>: both prices are finite and not negative. \<open>micro_ok\<close>: the cost in
  micro-USD fits an \<open>int64\<close>. A price
  of one USD per million tokens is one micro-USD per token.
\<close>

definition price_ok :: "Price \<Rightarrow> bool" where
  "price_ok p = (case (InputUSDPerMTok p, OutputUSDPerMTok p) of
     (Fin a, Fin b) \<Rightarrow> 0 \<le> a \<and> 0 \<le> b | _ \<Rightarrow> False)"

definition micro_ok :: "f64 \<Rightarrow> bool" where
  "micro_ok usd = (case fmul usd (Fin 1000000) of Fin q \<Rightarrow> in_int64 (round_away q) | _ \<Rightarrow> False)"

lemma price_okE:
  assumes "price_ok p"
  obtains a b where "InputUSDPerMTok p = Fin a" "OutputUSDPerMTok p = Fin b" "0 \<le> a" "0 \<le> b"
  using assms by (auto simp: price_ok_def split: f64.splits)

lemma tokens_per_mtok_error:
  assumes "0 \<le> n" and "n \<le> 2 ^ 53"
  obtains x where "tokens_per_mtok n = Fin x" and "0 \<le> x" and "x \<le> 2 ^ 53"
    and "\<bar>x - of_int n / 1000000\<bar> \<le> of_int n / 1000000 / 2 ^ 53 + 1 / 2 ^ 200"
proof -
  have f: "f64_of_int n = Fin (of_int n)" using assms by (intro f64_of_int_exact) simp
  have n: "(of_int n :: rat) \<le> of_int (2 ^ 53)" using assms(2) by (simp only: of_int_le_iff)
  then have lt: "of_int n / 1000000 < (2::rat) powi 54" by (simp add: field_simps)
  have "0 \<le> (of_int n :: rat)" using assms(1) by simp
  from rnd64_error [OF _ lt] assms(1) obtain x where x: "rnd64 (of_int n / 1000000) = Fin x" "0 \<le> x"
    "\<bar>x - of_int n / 1000000\<bar> \<le> of_int n / 1000000 / 2 ^ 53 + 1 / 2 ^ 200" by auto
  have "x \<le> 2 ^ 53" using x(3) n by (simp add: abs_le_iff)
  then show ?thesis using that x by (simp add: tokens_per_mtok_def f)
qed

lemma token_part:
  assumes "0 \<le> n" "n \<le> 2 ^ 53" "0 \<le> a" "a \<le> 2 ^ 40" "of_int n * a \<le> 2 ^ 48"
  obtains x where "tokens_per_mtok n = Fin x" "0 \<le> x * a"
    "\<bar>x * a - of_int n * a / 1000000\<bar> \<le> of_int n * a / 1000000 / 2 ^ 53 + 1 / 2 ^ 160"
proof -
  from tokens_per_mtok_error [OF assms(1,2)] obtain x where
    x: "tokens_per_mtok n = Fin x" "0 \<le> x" and
    e: "\<bar>x - of_int n / 1000000\<bar> \<le> of_int n / 1000000 / 2 ^ 53 + 1 / 2 ^ 200" by blast
  from mult_error [OF e assms(3,4)] x assms(3) show ?thesis by (intro that [of x]) auto
qed

lemma toMicro_error:
  assumes "0 \<le> s" and "s \<le> 2 ^ 31"
  shows "\<bar>of_int (toMicro A (Fin s)) - s * 1000000\<bar> \<le> 1 / 2 + s * 1000000 / 2 ^ 53 + 1 / 2 ^ 200"
proof -
  have t0: "0 \<le> s * 1000000" "s * 1000000 < 2 powi 60" using assms by simp_all
  from rnd64_error [OF this] obtain t where t: "rnd64 (s * 1000000) = Fin t" "0 \<le> t"
    "\<bar>t - s * 1000000\<bar> \<le> s * 1000000 / 2 ^ 53 + 1 / 2 ^ 200" by auto
  let ?n = "round_away t"
  have n: "\<bar>of_int ?n - t\<bar> \<le> (1 / 2 :: rat)" by (rule round_away_error)
  have "0 \<le> ?n" using round_away_mono [OF t(2)] round_away_of_int [of 0] by simp
  have "t \<le> 2 ^ 60" using t(3) assms by (auto simp: abs_le_iff)
  moreover have "(of_int ?n :: rat) \<le> t + 1 / 2" using n unfolding abs_le_iff by linarith
  ultimately have "(of_int ?n :: rat) \<le> of_int (2 ^ 61)" by simp
  then have "?n \<le> 2 ^ 61" by (simp only: of_int_le_iff)
  with \<open>0 \<le> ?n\<close> have eq: "toMicro A (Fin s) = ?n"
    by (simp add: toMicro_def t(1) f64_to_int64_def Let_def int64_defs)
  show ?thesis unfolding eq using n t(3) by linarith
qed

lemma tokens_per_mtok_Fin:
  assumes "0 \<le> n" and "in_int64 n"
  obtains x where "tokens_per_mtok n = Fin x" and "0 \<le> x"
proof -
  have "n \<le> 2 ^ 63" using assms(2) by (simp add: int64_defs)
  then have "(of_int n :: rat) \<le> of_int (2 ^ 63)" by (simp only: of_int_le_iff)
  then have lt: "(of_int n :: rat) < 2 powi 64" by (rule rat_le_powi) simp
  from rnd64_Fin [OF _ lt] assms(1) obtain q where q: "f64_of_int n = Fin q" "0 \<le> q" "q \<le> 2 powi 64"
    by (auto simp: f64_of_int_def)
  then have "q / 1000000 < 2 powi 64" by simp
  from rnd64_Fin [OF _ this] q(2) obtain x where "rnd64 (q / 1000000) = Fin x" "0 \<le> x" by auto
  with q(1) show ?thesis by (intro that [of x]) (auto simp: tokens_per_mtok_def)
qed

lemma tokens_per_mtok_mono: "m \<le> n \<Longrightarrow> fle (tokens_per_mtok m) (tokens_per_mtok n)"
  using f64_of_int_mono [of m n]
  by (cases "f64_of_int m"; cases "f64_of_int n")
     (auto simp: tokens_per_mtok_def fsign_def finf_def intro: rnd64_mono divide_right_mono)

lemma Cost_mono:
  assumes p: "t (provider, model) = Some p" "price_ok p"
    and "0 \<le> i" "i \<le> i'" "in_int64 i'" "0 \<le> n" "n \<le> n'" "in_int64 n'"
  shows "fnn (fst (Cost A t provider model i n))"
    and "fle (fst (Cost A t provider model i n)) (fst (Cost A t provider model i' n'))"
proof -
  obtain a b where ab: "InputUSDPerMTok p = Fin a" "OutputUSDPerMTok p = Fin b" "0 \<le> a" "0 \<le> b"
    using p(2) by (rule price_okE)
  have "0 \<le> i'" "0 \<le> n'" using assms by simp_all
  have "in_int64 i" "in_int64 n" using assms unfolding int64_defs by linarith+
  obtain x where x: "tokens_per_mtok i = Fin x" "0 \<le> x"
    using assms(3) \<open>in_int64 i\<close> by (rule tokens_per_mtok_Fin)
  obtain x' where x': "tokens_per_mtok i' = Fin x'" using \<open>0 \<le> i'\<close> assms(5) by (rule tokens_per_mtok_Fin)
  obtain y where y: "tokens_per_mtok n = Fin y" "0 \<le> y"
    using assms(6) \<open>in_int64 n\<close> by (rule tokens_per_mtok_Fin)
  obtain y' where y': "tokens_per_mtok n' = Fin y'" using \<open>0 \<le> n'\<close> assms(8) by (rule tokens_per_mtok_Fin)
  have "x \<le> x'" "y \<le> y'"
    using tokens_per_mtok_mono [OF assms(4)] tokens_per_mtok_mono [OF assms(7)] x y x' y' by auto
  with x x' y y' ab show "fnn (fst (Cost A t provider model i n))"
    and "fle (fst (Cost A t provider model i n)) (fst (Cost A t provider model i' n'))"
    by (auto simp: Cost_def p(1) intro!: fdot_nonneg fdot_mono)
qed

lemma toMicro_mono:
  assumes "fnn u" "fle u v" "micro_ok v"
  shows "toMicro A u \<le> toMicro A v" and "0 \<le> toMicro A u"
proof -
  obtain q where q: "fmul v (Fin 1000000) = Fin q" "in_int64 (round_away q)"
    using assms(3) by (auto simp: micro_ok_def split: f64.splits)
  have r: "fround (fmul v (Fin 1000000)) = Fin (of_int (round_away q))" by (simp add: q(1))
  have "fle (fmul (Fin 0) (Fin 1000000)) (fmul u (Fin 1000000))"
    using assms(1) by (rule fmul_const_mono) simp
  from fround_mono [OF this] have 1: "fnn (fround (fmul u (Fin 1000000)))"
    using round_away_of_int [of 0] by simp
  from fround_mono [OF fmul_const_mono [OF assms(2), of 1000000]]
  have 2: "fle (fround (fmul u (Fin 1000000))) (Fin (of_int (round_away q)))" by (simp add: r)
  have 3: "in_int64 \<lfloor>of_int (round_away q) :: rat\<rfloor>" using q(2) by simp
  show "toMicro A u \<le> toMicro A v" and "0 \<le> toMicro A u"
    using f64_to_int64_mono [OF 2 1 3, of A] unfolding toMicro_def r by auto
qed

lemma tokens_per_mtok_0 [simp]: "tokens_per_mtok 0 = Fin 0"
  by (simp add: tokens_per_mtok_def f64_of_int_def)

lemma toMicro_0 [simp]: "toMicro A (Fin 0) = 0"
  using round_away_of_int [of 0] by (simp add: toMicro_def f64_to_int64_def int64_defs)

lemma Cost_zero_tokens:
  "t (provider, model) = Some p \<Longrightarrow> price_ok p \<Longrightarrow> fst (Cost A t provider model 0 0) = Fin 0"
  by (auto simp: Cost_def fdot_def elim!: price_okE split: fma_mode.split)

subsection \<open>The cost in micro-USD\<close>

text \<open>C15: the metered cost in integer micro-USD is within one micro-USD of the exact product of
  tokens and prices, on every architecture, as long as the amount stays below 2^48 micro-USD
  (281 million USD) for one request.
\<close>

theorem toMicro_Cost_accurate:
  assumes "t (provider, model) = Some p" and "price_ok p"
    and "InputUSDPerMTok p = Fin a" "OutputUSDPerMTok p = Fin b" "a \<le> 2 ^ 40" "b \<le> 2 ^ 40"
    and "0 \<le> i" "i \<le> 2 ^ 53" "0 \<le> n" "n \<le> 2 ^ 53"
    and "of_int i * a + of_int n * b \<le> 2 ^ 48"
  shows "\<bar>of_int (toMicro A (fst (Cost A t provider model i n))) - (of_int i * a + of_int n * b)\<bar> < 1"
proof -
  have ab: "0 \<le> a" "0 \<le> b" using assms(2-4) by (simp_all add: price_ok_def)
  then have w: "0 \<le> of_int i * a" "0 \<le> of_int n * b" using assms(7,9) by simp_all
  then have b48: "of_int i * a \<le> 2 ^ 48" "of_int n * b \<le> 2 ^ 48" using assms(11) by simp_all
  obtain x where x: "tokens_per_mtok i = Fin x" "0 \<le> x * a"
    "\<bar>x * a - of_int i * a / 1000000\<bar> \<le> of_int i * a / 1000000 / 2 ^ 53 + 1 / 2 ^ 160"
    using token_part [OF assms(7,8) ab(1) assms(5) b48(1)] by blast
  obtain y where y: "tokens_per_mtok n = Fin y" "0 \<le> y * b"
    "\<bar>y * b - of_int n * b / 1000000\<bar> \<le> of_int n * b / 1000000 / 2 ^ 53 + 1 / 2 ^ 160"
    using token_part [OF assms(9,10) ab(2) assms(6) b48(2)] by blast
  have "0 \<le> of_int i * a / 1000000" "of_int i * a / 1000000 \<le> 2 ^ 50"
    "0 \<le> of_int n * b / 1000000" "of_int n * b / 1000000 \<le> 2 ^ 50" using w b48 by simp_all
  from fdot_error [OF this x(2,3) y(2,3), of A] obtain s where
    s: "fst (Cost A t provider model i n) = Fin s" "0 \<le> s" and
    e: "\<bar>s - (of_int i * a / 1000000 + of_int n * b / 1000000)\<bar>
        \<le> (of_int i * a / 1000000 + of_int n * b / 1000000) / 2 ^ 51 + 1 / 2 ^ 150"
    using assms(1,3,4) x(1) y(1) by (auto simp: Cost_def)
  have "s \<le> 2 ^ 31" using e assms(11) unfolding abs_le_iff by (auto simp: field_simps)
  from toMicro_error [OF s(2) this, of A] e assms(11) w
  show ?thesis unfolding s(1) abs_le_iff abs_less_iff by (auto simp: field_simps)
qed

theorem toMicro_Cost_accurate_witness:
  "toMicro arm64 (fst (Cost arm64 (BuildTable prices_yaml) ''anthropic'' ''claude-haiku-4-5-20251001'' 9 16)) = 89"
  using toMicro_Cost_accurate [of "BuildTable prices_yaml" "''anthropic''" "''claude-haiku-4-5-20251001''"
      "\<lparr>pr_Provider = ''anthropic'', pr_Model = ''claude-haiku-4-5-20251001'',
        InputUSDPerMTok = Fin 1, OutputUSDPerMTok = Fin 5\<rparr>" 1 5 9 16 arm64]
  by (simp add: BuildTable_def prices_yaml_def price_key_def price_ok_def abs_less_iff)

text \<open>The cost in micro-USD is never negative and grows with both token counts: a reservation
  made for at least the tokens that are used later is at least the cost that is settled.
\<close>

theorem toMicro_Cost_mono:
  assumes "t (provider, model) = Some p" "price_ok p"
    and "0 \<le> i" "i \<le> i'" "in_int64 i'" "0 \<le> n" "n \<le> n'" "in_int64 n'"
    and "micro_ok (fst (Cost A t provider model i' n'))"
  shows "0 \<le> toMicro A (fst (Cost A t provider model i n))
       \<and> toMicro A (fst (Cost A t provider model i n)) \<le> toMicro A (fst (Cost A t provider model i' n'))"
  using toMicro_mono [OF Cost_mono [of t, OF assms(1-8), of A] assms(9), of A] by blast

theorem toMicro_Cost_mono_witness:
  "0 \<le> toMicro amd64 (fst (Cost amd64 (BuildTable prices_yaml) ''anthropic'' ''claude-haiku-4-5-20251001'' 9 16))
   \<and> toMicro amd64 (fst (Cost amd64 (BuildTable prices_yaml) ''anthropic'' ''claude-haiku-4-5-20251001'' 9 16))
     \<le> toMicro amd64 (fst (Cost amd64 (BuildTable prices_yaml) ''anthropic'' ''claude-haiku-4-5-20251001'' 1000000 2000000))"
  by (rule toMicro_Cost_mono [where p = "\<lparr>pr_Provider = ''anthropic'', pr_Model = ''claude-haiku-4-5-20251001'',
        InputUSDPerMTok = Fin 1, OutputUSDPerMTok = Fin 5\<rparr>"])
     (simp_all add: BuildTable_def prices_yaml_def price_key_def price_ok_def int64_defs micro_ok_def
        Cost_def tokens_per_mtok_def fdot_def amd64_def go_eval)

end
