(* ===== verification/Meter.thy ===== *)
theory Meter
  imports GoFloat GoTime "HOL-Library.Sublist"
begin

section \<open>Meter: the asynchronous metering path\<close>

text \<open>
  \<open>internal/meter\<close>. Handlers hand an \<open>Event\<close> to \<open>Enqueue\<close>, which never blocks; one
  goroutine, \<open>Run\<close>, takes the events off the channel into a batch and writes the batch to the
  sink when it is full, at every tick, and at shutdown after draining the channel.

  The sink is an interface of the program: a function \<open>W\<close> from a sink state and a batch to the
  new state and the result. The locale \<open>event_sink\<close> is its contract, \<open>postgres_copy\<close> the
  documented behaviour of the COPY that \<open>PGSink\<close> uses (one statement, so all rows or none).
  The goroutines are a step relation \<open>mstep\<close>: each step is one communication of the source.
\<close>

record Event =
  TenantID :: int
  Feature :: bytes
  ev_Provider :: bytes
  ev_Model :: bytes
  InputTokens :: int
  OutputTokens :: int
  CostUSD :: f64
  Estimated :: bool
  ev_Status :: int
  LatencyMS :: int
  CreatedAt :: instant

datatype sink_error = SinkError

record 's Writer =
  ch :: "Event list"
  sink :: 's
  batchSize :: int
  interval :: int
  done_closed :: bool

definition DefaultBatchSize :: int where
  "DefaultBatchSize = 100"

definition DefaultInterval :: int where
  "DefaultInterval = 500 * 1000000"

definition bufferSize :: nat where
  "bufferSize = 4096"

definition New :: "'s \<Rightarrow> int \<Rightarrow> int \<Rightarrow> 's Writer" where
  "New snk n i = \<lparr>ch = [], sink = snk,
     batchSize = (if n \<le> 0 then DefaultBatchSize else n),
     interval = (if i \<le> 0 then DefaultInterval else i), done_closed = False\<rparr>"

definition Enqueue :: "('s, 'x) Writer_scheme \<Rightarrow> Event \<Rightarrow> ('s, 'x) Writer_scheme \<times> bool" where
  "Enqueue w e = (if length (ch w) < bufferSize then (w\<lparr>ch := ch w @ [e]\<rparr>, True) else (w, False))"

subsection \<open>The goroutine\<close>

text \<open>
  \<open>Running\<close> is the outer loop, \<open>Draining\<close> the inner one after \<open>ctx.Done()\<close> was received,
  \<open>Final\<close> the point before the last flush, \<open>Stopped\<close> after the return. The last three fields
  record what happened: the events \<open>Enqueue\<close> took and refused, and the calls of \<open>Write\<close>.
\<close>

datatype phase = Running | Draining | Final | Stopped

record 's metering = "'s Writer" +
  batch :: "Event list"
  phase :: phase
  ctx_done :: bool
  accepted :: "Event list"
  refused :: "Event list"
  writes :: "(Event list \<times> (sink_error + unit)) list"

type_synonym 's write_op = "'s \<Rightarrow> Event list \<Rightarrow> 's \<times> (sink_error + unit)"

definition flush :: "'s write_op \<Rightarrow> 's metering \<Rightarrow> 's metering" where
  "flush W s =
     (if batch s = [] then s
      else case W (sink s) (batch s) of (k, r) \<Rightarrow>
        s\<lparr>sink := k, batch := [], writes := writes s @ [(batch s, r)]\<rparr>)"

definition recv_event :: "'s write_op \<Rightarrow> 's metering \<Rightarrow> Event \<Rightarrow> 's metering" where
  "recv_event W s e =
     (let s1 = s\<lparr>batch := batch s @ [e]\<rparr>
      in if batchSize s1 \<le> int (length (batch s1)) then flush W s1 else s1)"

lemma flush_ch [simp]: "ch (flush W s) = ch s"
  by (simp add: flush_def split: prod.split)

lemma recv_event_ch [simp]: "ch (recv_event W s e) = ch s"
  by (simp add: recv_event_def Let_def)

function drain :: "'s write_op \<Rightarrow> 's metering \<Rightarrow> 's metering" where
  "drain W s =
     (case ch s of
        [] \<Rightarrow> flush W s
      | e # r \<Rightarrow> drain W (recv_event W (s\<lparr>ch := r\<rparr>) e))"
  by pat_completeness auto

termination
  by (relation "measure (\<lambda>(W, s). length (ch s))") auto

declare drain.simps [simp del]

inductive mstep :: "'s write_op \<Rightarrow> 's metering \<Rightarrow> 's metering \<Rightarrow> bool" for W where
  enqueue_ok: "Enqueue s e = (s', True) \<Longrightarrow> mstep W s (s'\<lparr>accepted := accepted s @ [e]\<rparr>)"
| enqueue_full: "Enqueue s e = (s', False) \<Longrightarrow> mstep W s (s'\<lparr>refused := refused s @ [e]\<rparr>)"
| recv: "phase s = Running \<Longrightarrow> ch s = e # r \<Longrightarrow> mstep W s (recv_event W (s\<lparr>ch := r\<rparr>) e)"
| tick: "phase s = Running \<Longrightarrow> mstep W s (flush W s)"
| cancel: "mstep W s (s\<lparr>ctx_done := True\<rparr>)"
| ctx_done: "phase s = Running \<Longrightarrow> ctx_done s \<Longrightarrow> mstep W s (s\<lparr>phase := Draining\<rparr>)"
| drain_recv: "phase s = Draining \<Longrightarrow> ch s = e # r \<Longrightarrow> mstep W s (recv_event W (s\<lparr>ch := r\<rparr>) e)"
| drain_end: "phase s = Draining \<Longrightarrow> ch s = [] \<Longrightarrow> mstep W s (s\<lparr>phase := Final\<rparr>)"
| final_flush: "phase s = Final \<Longrightarrow> mstep W s ((flush W s)\<lparr>phase := Stopped, done_closed := True\<rparr>)"

text \<open>A run starts from a new writer whose \<open>Run\<close> has just been started.\<close>

definition start_run :: "'s Writer \<Rightarrow> 's metering" where
  "start_run w = Writer.extend w \<lparr>batch = [], phase = Running, ctx_done = False,
     accepted = [], refused = [], writes = []\<rparr>"

inductive mreach :: "'s write_op \<Rightarrow> 's Writer \<Rightarrow> 's metering \<Rightarrow> bool" for W w where
  start: "mreach W w (start_run w)"
| step: "mreach W w s \<Longrightarrow> mstep W s t \<Longrightarrow> mreach W w t"

definition Wait :: "('s, 'x) Writer_scheme \<Rightarrow> bool" where
  "Wait w = done_closed w"

text \<open>The phases in the order the goroutine goes through them; it never goes back.\<close>

fun phase_rank :: "phase \<Rightarrow> nat" where
  "phase_rank Running = 0"
| "phase_rank Draining = 1"
| "phase_rank Final = 2"
| "phase_rank Stopped = 3"

instantiation phase :: linorder
begin

definition less_eq_phase :: "phase \<Rightarrow> phase \<Rightarrow> bool" where
  "less_eq_phase p q \<longleftrightarrow> phase_rank p \<le> phase_rank q"

definition less_phase :: "phase \<Rightarrow> phase \<Rightarrow> bool" where
  "less_phase p q \<longleftrightarrow> phase_rank p < phase_rank q"

instance
proof
  fix p q :: phase
  show "p \<le> q \<Longrightarrow> q \<le> p \<Longrightarrow> p = q"
    by (cases p; cases q) (simp_all add: less_eq_phase_def)
qed (auto simp: less_eq_phase_def less_phase_def)

end

lemma phase_bounds [simp]: "Running \<le> p" "p \<le> Stopped" "Stopped \<le> p \<longleftrightarrow> p = Stopped" "p \<le> Running \<longleftrightarrow> p = Running"
  by (cases p; simp add: less_eq_phase_def)+

definition attempted :: "'s metering \<Rightarrow> Event list" where
  "attempted s = concat (map fst (writes s))"

definition stored :: "'s metering \<Rightarrow> Event list" where
  "stored s = concat (map fst (filter (\<lambda>(b, r). r = Inr ()) (writes s)))"

subsection \<open>Invariant\<close>

text \<open>
  Nothing is lost or reordered inside the process; the batch is short of the batch size between
  the steps; no write is empty or larger than the batch size; \<open>done\<close> is closed exactly when
  the goroutine has returned, and then the batch is empty.
\<close>

definition minv :: "'s Writer \<Rightarrow> 's metering \<Rightarrow> bool" where
  "minv w s \<longleftrightarrow>
     accepted s = attempted s @ batch s @ ch s
   \<and> batchSize s = batchSize w \<and> interval s = interval w
   \<and> int (length (batch s)) < batchSize w
   \<and> length (ch s) \<le> bufferSize
   \<and> (\<forall>(b, r)\<in>set (writes s). b \<noteq> [] \<and> int (length b) \<le> batchSize w)
   \<and> (done_closed s \<longleftrightarrow> phase s = Stopped)
   \<and> (phase s = Stopped \<longrightarrow> batch s = [])
   \<and> (phase s \<noteq> Running \<longrightarrow> ctx_done s)"

lemma flush_simps [simp]:
  "batch (flush W s) = []" "batchSize (flush W s) = batchSize s" "interval (flush W s) = interval s"
  "phase (flush W s) = phase s" "ctx_done (flush W s) = ctx_done s"
  "accepted (flush W s) = accepted s" "refused (flush W s) = refused s"
  "done_closed (flush W s) = done_closed s"
  "attempted (flush W s) = attempted s @ batch s"
  by (simp_all add: flush_def attempted_def split: prod.split)

lemma flush_writes:
  "writes (flush W s) = writes s \<or>
   batch s \<noteq> [] \<and> (\<exists>r. writes (flush W s) = writes s @ [(batch s, r)])"
  by (simp add: flush_def split: prod.split)

lemma attempted_upd [simp]:
  "attempted (s\<lparr>ch := c\<rparr>) = attempted s" "attempted (s\<lparr>batch := b\<rparr>) = attempted s"
  "attempted (s\<lparr>phase := p\<rparr>) = attempted s" "attempted (s\<lparr>done_closed := d\<rparr>) = attempted s"
  "attempted (s\<lparr>ctx_done := d\<rparr>) = attempted s" "attempted (s\<lparr>accepted := a\<rparr>) = attempted s"
  "attempted (s\<lparr>refused := a\<rparr>) = attempted s"
  by (simp_all add: attempted_def)

lemma minv_flush: "minv w s \<Longrightarrow> minv w (flush W s)"
  using flush_writes [of W s] by (auto simp: minv_def)

lemma minv_recv:
  assumes "minv w s" "ch s = e # r" "phase s \<noteq> Stopped"
  shows "minv w (recv_event W (s\<lparr>ch := r\<rparr>) e)"
  using assms flush_writes [of W "s\<lparr>ch := r, batch := batch s @ [e]\<rparr>"]
  by (auto simp: minv_def recv_event_def Let_def)

lemma minv_step:
  assumes "mstep W s t" "minv w s"
  shows "minv w t"
  using assms(1)
proof cases
  case final_flush
  with minv_flush [OF assms(2), of W] show ?thesis by (auto simp: minv_def)
next
  case tick
  with minv_flush [OF assms(2), of W] show ?thesis by simp
next
  case (recv e r)
  with minv_recv [OF assms(2), of e r W] show ?thesis by simp
next
  case (drain_recv e r)
  with minv_recv [OF assms(2), of e r W] show ?thesis by simp
qed (use assms(2) in \<open>auto simp: minv_def Enqueue_def split: if_splits\<close>)

lemma minv_start: "0 < batchSize w \<Longrightarrow> ch w = [] \<Longrightarrow> \<not> done_closed w \<Longrightarrow> minv w (start_run w)"
  by (simp add: minv_def start_run_def Writer.extend_def attempted_def)

lemma mreach_minv:
  assumes "mreach W (New snk n i) s" shows "minv (New snk n i) s"
  using assms
proof (induction rule: mreach.induct)
  case start show ?case by (rule minv_start) (simp_all add: New_def DefaultBatchSize_def)
next
  case (step s t) then show ?case by (blast intro: minv_step)
qed

subsection \<open>What the writer promises\<close>

text \<open>C17: at every moment the events \<open>Enqueue\<close> took are, in order, those handed to the sink, those in
  the batch and those in the channel; no write is empty or exceeds the batch size, and a crash loses at
  most a full channel and a batch that is not full.\<close>

theorem metering_fifo:
  assumes "mreach W (New snk n i) s"
  shows "accepted s = attempted s @ batch s @ ch s
       \<and> (\<forall>(b, r)\<in>set (writes s). b \<noteq> [] \<and> int (length b) \<le> batchSize (New snk n i))
       \<and> int (length (accepted s)) < int (length (attempted s)) + int bufferSize + batchSize (New snk n i)"
  using mreach_minv [OF assms] by (auto simp: minv_def)

text \<open>The steps the goroutine takes by itself: nothing is enqueued and the context is not touched.\<close>

definition writer_step :: "'s write_op \<Rightarrow> 's metering \<Rightarrow> 's metering \<Rightarrow> bool" where
  "writer_step W s t \<longleftrightarrow> mstep W s t \<and> accepted t = accepted s \<and> refused t = refused s \<and> ctx_done t = ctx_done s"

lemma recv_event_keeps [simp]:
  "accepted (recv_event W s e) = accepted s" "refused (recv_event W s e) = refused s"
  "ctx_done (recv_event W s e) = ctx_done s" "phase (recv_event W s e) = phase s"
  by (simp_all add: recv_event_def Let_def)

inductive_cases mstepE: "mstep W s t"

lemma mstep_phase_mono: "mstep W s t \<Longrightarrow> phase s \<le> phase t"
  by (erule mstepE) (auto simp: Enqueue_def less_eq_phase_def split: if_splits)

text \<open>A goroutine that has returned writes nothing more.\<close>

lemma stopped_quiet: "mstep W s t \<Longrightarrow> phase s = Stopped \<Longrightarrow> phase t = Stopped \<and> writes t = writes s \<and> done_closed t = done_closed s"
  by (erule mstepE) (auto simp: Enqueue_def split: if_splits)

lemma stopped_stays:
  assumes "(mstep W)\<^sup>*\<^sup>* s t" "phase s = Stopped" shows "phase t = Stopped \<and> writes t = writes s \<and> done_closed t = done_closed s"
  using assms(1) by induction (auto simp: assms(2) dest: stopped_quiet)

lemma drain_steps:
  assumes "phase s = Draining"
  shows "\<exists>t. (writer_step W)\<^sup>*\<^sup>* s t \<and> phase t = Draining \<and> ch t = [] \<and> drain W s = flush W t"
  using assms
proof (induction W s rule: drain.induct)
  case (1 W s)
  show ?case
  proof (cases "ch s")
    case Nil then show ?thesis using 1(2) by (auto simp: drain.simps [of W s])
  next
    case (Cons e r)
    let ?s = "recv_event W (s\<lparr>ch := r\<rparr>) e"
    have "phase ?s = Draining" using 1(2) by simp
    from 1(1) [OF Cons this] obtain t where
      "(writer_step W)\<^sup>*\<^sup>* ?s t" "phase t = Draining" "ch t = []" "drain W ?s = flush W t" by blast
    moreover have "writer_step W s ?s" using mstep.drain_recv [OF 1(2) Cons] by (simp add: writer_step_def)
    ultimately show ?thesis using Cons by (auto simp: drain.simps [of W s] intro: converse_rtranclp_into_rtranclp)
  qed
qed

lemma drain_keeps: "accepted (drain W s) = accepted s \<and> batch (drain W s) = [] \<and> ch (drain W s) = []
    \<and> phase (drain W s) = phase s"
proof (induction W s rule: drain.induct)
  case (1 W s)
  show ?case
  proof (cases "ch s")
    case Nil then show ?thesis by (simp add: drain.simps [of W s])
  next
    case (Cons e r)
    with 1 [OF Cons] show ?thesis
      by (simp add: drain.simps [of W s])
  qed
qed

lemma mreach_steps: "(mstep W)\<^sup>*\<^sup>* s t \<Longrightarrow> mreach W w s \<Longrightarrow> mreach W w t"
  by (induction rule: rtranclp_induct) (auto intro: mreach.step)

lemma writer_shutdown_run:
  assumes "phase s = Draining"
  shows "(writer_step W)\<^sup>*\<^sup>* s ((drain W s)\<lparr>phase := Stopped, done_closed := True\<rparr>)"
proof -
  obtain u where u: "(writer_step W)\<^sup>*\<^sup>* s u" "phase u = Draining" "ch u = []" "drain W s = flush W u"
    using drain_steps [OF assms] by blast
  have "flush W (u\<lparr>phase := Final\<rparr>) = (flush W u)\<lparr>phase := Final\<rparr>"
    by (simp add: flush_def split: prod.split)
  then have "writer_step W (u\<lparr>phase := Final\<rparr>) ((drain W s)\<lparr>phase := Stopped, done_closed := True\<rparr>)"
    using mstep.final_flush [of "u\<lparr>phase := Final\<rparr>" W] by (simp add: u(4) writer_step_def)
  moreover have "writer_step W u (u\<lparr>phase := Final\<rparr>)" using mstep.drain_end [OF u(2,3), of W] by (simp add: writer_step_def)
  ultimately show ?thesis using u(1) by (meson rtranclp.rtrancl_into_rtrancl)
qed

lemma shutdown_run:
  assumes "phase s = Draining"
  shows "(mstep W)\<^sup>*\<^sup>* s ((drain W s)\<lparr>phase := Stopped, done_closed := True\<rparr>)"
  using rtranclp_mono [of "writer_step W" "mstep W"] writer_shutdown_run [OF assms, of W]
  by (auto simp: writer_step_def le_fun_def)

text \<open>A shutdown flushes everything. Once the goroutine drains and nothing more is enqueued, the loop
  ends, the goroutine returns and unblocks \<open>Wait\<close>, and then every event ever accepted has been handed
  to the sink, whatever the sink answered; nothing is written after that.\<close>

theorem shutdown_flushes:
  assumes "mreach W (New snk n i) s" and "phase s = Draining"
    and "t = (drain W s)\<lparr>phase := Stopped, done_closed := True\<rparr>"
  shows "(mstep W)\<^sup>*\<^sup>* s t \<and> Wait t \<and> attempted t = accepted s
    \<and> (\<forall>u. (mstep W)\<^sup>*\<^sup>* t u \<longrightarrow> Wait u \<and> attempted u = accepted s)"
proof -
  have run: "(mstep W)\<^sup>*\<^sup>* s t" using shutdown_run [OF assms(2)] assms(3) by simp
  from mreach_minv [OF mreach_steps [OF run assms(1)]] have "accepted t = attempted t"
    using drain_keeps [of W s] assms(3) by (simp add: minv_def)
  with run drain_keeps [of W s] assms(3) have now: "(mstep W)\<^sup>*\<^sup>* s t \<and> Wait t \<and> attempted t = accepted s" by (simp add: Wait_def)
  have "phase t = Stopped" using assms(3) by simp
  then have "Wait u \<and> attempted u = accepted s" if "(mstep W)\<^sup>*\<^sup>* t u" for u
    using stopped_stays [OF that] now unfolding Wait_def attempted_def by metis
  with now show ?thesis by blast
qed

lemma fill:
  assumes "phase s = Running" "length (ch s) + n \<le> bufferSize"
  shows "\<exists>t. (mstep W)\<^sup>*\<^sup>* s t \<and> ch t = ch s @ replicate n e \<and> batch t = batch s \<and> writes t = writes s
     \<and> accepted t = accepted s @ replicate n e \<and> phase t = Running \<and> batchSize t = batchSize s"
  using assms(2)
proof (induction n)
  case 0 then show ?case using assms(1) by auto
next
  case (Suc n)
  then obtain t where t: "(mstep W)\<^sup>*\<^sup>* s t" "ch t = ch s @ replicate n e" "batch t = batch s"
    "writes t = writes s" "accepted t = accepted s @ replicate n e" "phase t = Running"
    "batchSize t = batchSize s" by auto
  have "Enqueue t e = (t\<lparr>ch := ch t @ [e]\<rparr>, True)" using Suc.prems t(2) by (simp add: Enqueue_def)
  from mstep.enqueue_ok [OF this, of W] t show ?case
    by (intro exI [of _ "t\<lparr>ch := ch t @ [e], accepted := accepted t @ [e]\<rparr>"])
      (auto simp: replicate_append_same [symmetric] simp del: replicate_append_same)
qed

lemma take_events:
  assumes "phase s = Running" "int (length (batch s) + n) < batchSize s" "n \<le> length (ch s)"
  shows "\<exists>t. (mstep W)\<^sup>*\<^sup>* s t \<and> ch t = drop n (ch s) \<and> length (batch t) = length (batch s) + n
     \<and> writes t = writes s \<and> accepted t = accepted s \<and> phase t = Running \<and> batchSize t = batchSize s"
  using assms(2,3)
proof (induction n)
  case 0 then show ?case using assms(1) by auto
next
  case (Suc n)
  then obtain t where t: "(mstep W)\<^sup>*\<^sup>* s t" "ch t = drop n (ch s)" "length (batch t) = length (batch s) + n"
    "writes t = writes s" "accepted t = accepted s" "phase t = Running" "batchSize t = batchSize s" by auto
  have c: "ch t = ch s ! n # drop (Suc n) (ch s)" using t(2) Suc.prems(2) by (simp add: Cons_nth_drop_Suc)
  from mstep.recv [OF t(6) c, of W] t Suc.prems show ?case
    by (intro exI [of _ "recv_event W (t\<lparr>ch := drop (Suc n) (ch s)\<rparr>) (ch s ! n)"])
      (auto simp: recv_event_def Let_def)
qed

text \<open>What a crash can lose is not one batch. With the default batch size, 4195 accepted events can
  be waiting in the process before the first write.\<close>

theorem crash_can_lose_channel:
  "\<exists>s. mreach W (New snk 0 0) s \<and> writes s = [] \<and> length (accepted s) = 4195
     \<and> int (length (accepted s)) > 40 * batchSize s"
proof -
  let ?s = "start_run (New snk 0 0)"
  have init: "phase ?s = Running" "ch ?s = []" "batch ?s = []" "writes ?s = []" "accepted ?s = []" "batchSize ?s = 100"
    by (simp_all add: start_run_def New_def Writer.extend_def DefaultBatchSize_def)
  fix e :: Event
  obtain t where t: "(mstep W)\<^sup>*\<^sup>* ?s t" "ch t = replicate 99 e" "batch t = []" "writes t = []"
      "accepted t = replicate 99 e" "phase t = Running" "batchSize t = 100"
    using fill [of ?s 99 W e] init by (auto simp: bufferSize_def)
  obtain u where u: "(mstep W)\<^sup>*\<^sup>* t u" "ch u = []" "length (batch u) = 99" "writes u = []"
      "accepted u = replicate 99 e" "phase u = Running" "batchSize u = 100"
    using take_events [of t 99 W] t by auto
  obtain v where v: "(mstep W)\<^sup>*\<^sup>* u v" "writes v = []" "accepted v = replicate 99 e @ replicate 4096 e" "batchSize v = 100"
    using fill [of u 4096 W e] u by (auto simp: bufferSize_def)
  have "mreach W (New snk 0 0) v"
    using mreach_steps [OF v(1)] mreach_steps [OF u(1)] mreach_steps [OF t(1)] mreach.start by blast
  with v show ?thesis by (intro exI [of _ v]) simp
qed

lemma subseq_concat_filter: "subseq (concat (map f (filter P xs))) (concat (map f xs))"
  by (induction xs) (auto intro: list_emb_append_mono list_emb_append2)

lemma stored_subseq: "subseq (stored s) (attempted s @ r)"
  unfolding stored_def attempted_def
  by (rule subseq_order.trans [OF subseq_concat_filter]) (simp add: prefix_imp_subseq)

subsection \<open>The Postgres sink\<close>

datatype sqlval = VInt int | VFloat f64 | VText bytes | VBool bool | VTime instant

definition requests_columns :: "bytes list" where
  "requests_columns = [''tenant_id'', ''feature'', ''provider'', ''model'', ''input_tokens'',
     ''output_tokens'', ''cost_usd'', ''estimated'', ''status'', ''latency_ms'', ''created_at'']"

definition event_values :: "Event \<Rightarrow> sqlval list" where
  "event_values e = [VInt (TenantID e), VText (Feature e), VText (ev_Provider e), VText (ev_Model e),
     VInt (InputTokens e), VInt (OutputTokens e), VFloat (CostUSD e), VBool (Estimated e),
     VInt (ev_Status e), VInt (LatencyMS e), VTime (CreatedAt e)]"

type_synonym 'db copy_op = "'db \<Rightarrow> bytes \<Rightarrow> bytes list \<Rightarrow> sqlval list list \<Rightarrow> 'db \<times> (sink_error + unit)"

definition PGSink_Write :: "'db copy_op \<Rightarrow> 'db write_op" where
  "PGSink_Write copy db events = copy db ''requests'' requests_columns (map event_values events)"

type_synonym row = "bytes \<rightharpoonup> sqlval"

definition requests_row :: "Event \<Rightarrow> row" where
  "requests_row e = map_of (zip requests_columns (event_values e))"

text \<open>The contract of a sink: an error leaves the stored rows alone, success adds a row per event.\<close>

locale event_sink =
  fixes W :: "'s write_op" and rows :: "'s \<Rightarrow> row list" and row :: "Event \<Rightarrow> row"
  assumes write_ok: "W k b = (k', Inr ()) \<Longrightarrow> rows k' = rows k @ map row b"
    and write_err: "W k b = (k', Inl x) \<Longrightarrow> rows k' = rows k"
begin

definition winv :: "row list \<Rightarrow> 's metering \<Rightarrow> bool" where
  "winv r0 s \<longleftrightarrow> rows (sink s) = r0 @ map row (stored s)"

lemma winv_flush: "winv r0 s \<Longrightarrow> winv r0 (flush W s)"
  using write_ok [of "sink s" "batch s"] write_err [of "sink s" "batch s"]
  by (cases "W (sink s) (batch s)"; cases "snd (W (sink s) (batch s))")
     (auto simp: winv_def flush_def stored_def)

lemma winv_upd [simp]:
  "winv r0 (s\<lparr>ch := c\<rparr>) = winv r0 s" "winv r0 (s\<lparr>batch := b\<rparr>) = winv r0 s"
  "winv r0 (s\<lparr>phase := p\<rparr>) = winv r0 s" "winv r0 (s\<lparr>done_closed := d\<rparr>) = winv r0 s"
  "winv r0 (s\<lparr>ctx_done := d\<rparr>) = winv r0 s" "winv r0 (s\<lparr>accepted := a\<rparr>) = winv r0 s"
  "winv r0 (s\<lparr>refused := a\<rparr>) = winv r0 s"
  by (simp_all add: winv_def stored_def)

lemma winv_step: "mstep W s t \<Longrightarrow> winv r0 s \<Longrightarrow> winv r0 t"
  by (induction rule: mstep.induct)
     (auto simp: recv_event_def Let_def Enqueue_def intro!: winv_flush split: if_splits)

lemma winv_start: "winv (rows snk) (start_run (New snk n i))"
  by (simp add: winv_def start_run_def New_def Writer.extend_def stored_def)

lemma rows_reach: "mreach W (New snk n i) s \<Longrightarrow> rows (sink s) = rows snk @ map row (stored s)"
proof -
  assume "mreach W (New snk n i) s"
  then have "winv (rows snk) s"
    by (induction rule: mreach.induct) (auto intro: winv_step winv_start)
  then show ?thesis by (simp add: winv_def)
qed

end

locale postgres_copy =
  fixes copy :: "'db copy_op" and table :: "'db \<Rightarrow> bytes \<Rightarrow> row list"
  assumes copy_ok: "copy db t cols vals = (db', Inr ()) \<Longrightarrow>
      table db' = (table db)(t := table db t @ map (\<lambda>v. map_of (zip cols v)) vals)"
    and copy_err: "copy db t cols vals = (db', Inl x) \<Longrightarrow> table db' = table db"

lemma PGSink_event_sink:
  assumes "postgres_copy copy table"
  shows "event_sink (PGSink_Write copy) (\<lambda>db. table db ''requests'') requests_row"
  by unfold_locales
    (auto simp: PGSink_Write_def requests_row_def comp_def
      dest: postgres_copy.copy_ok [OF assms] postgres_copy.copy_err [OF assms])

sublocale postgres_copy \<subseteq> pg: event_sink "PGSink_Write copy" "\<lambda>db. table db ''requests''" requests_row
  by (rule PGSink_event_sink) (rule postgres_copy_axioms)

text \<open>
  An in-memory database that meets the contract: tables, and a plan of which statements fail.
\<close>

type_synonym mem_db = "bool list \<times> (bytes \<Rightarrow> row list)"

definition mem_copy :: "mem_db copy_op" where
  "mem_copy = (\<lambda>(plan, tab) t cols vals.
     if plan \<noteq> [] \<and> \<not> hd plan then ((tl plan, tab), Inl SinkError)
     else ((tl plan, tab(t := tab t @ map (\<lambda>v. map_of (zip cols v)) vals)), Inr ()))"

interpretation mem_pg: postgres_copy mem_copy snd
  by unfold_locales (auto simp: mem_copy_def split: if_splits)


subsection \<open>A run\<close>

text \<open>Three events, a batch size of two, a database whose second statement fails, and a shutdown.\<close>

definition sample_event :: "int \<Rightarrow> Event" where
  "sample_event n = \<lparr>TenantID = n, Feature = ''f'', ev_Provider = ''openai'', ev_Model = ''gpt-4o'',
     InputTokens = 9, OutputTokens = 16, CostUSD = Fin 0, Estimated = False, ev_Status = 200,
     LatencyMS = 3, CreatedAt = 0\<rparr>"

definition sample_db :: mem_db where
  "sample_db = ([True, False], \<lambda>_. [])"

definition sample_state :: "phase \<Rightarrow> bool \<Rightarrow> mem_db metering" where
  "sample_state p c = \<lparr>ch = map sample_event [1, 2, 3], sink = sample_db, batchSize = 2,
     interval = DefaultInterval, done_closed = False, batch = [], phase = p, ctx_done = c,
     accepted = map sample_event [1, 2, 3], refused = [], writes = []\<rparr>"

lemma sample_run: "mreach (PGSink_Write mem_copy) (New sample_db 2 0) (sample_state Draining True)"
proof -
  let ?W = "PGSink_Write mem_copy"
  let ?s = "\<lambda>l. (sample_state Running False)\<lparr>ch := map sample_event l, accepted := map sample_event l\<rparr>"
  have e: "mreach ?W (New sample_db 2 0) (?s (l @ [n]))"
    if "mreach ?W (New sample_db 2 0) (?s l)" "length l < 4096" for l n
    using mreach.step [OF that(1) mstep.enqueue_ok [of _ "sample_event n"]] that(2)
    by (simp add: Enqueue_def bufferSize_def sample_state_def)
  have "start_run (New sample_db 2 0) = ?s []"
    by (simp add: start_run_def New_def Writer.extend_def sample_state_def)
  then have "mreach ?W (New sample_db 2 0) (?s [])"
    using mreach.start [of ?W "New sample_db 2 0"] by simp
  from e [OF e [OF e [OF this]], of 1 2 3] have "mreach ?W (New sample_db 2 0) (sample_state Running False)"
    by (simp add: sample_state_def)
  from mreach.step [OF mreach.step [OF this mstep.cancel] mstep.ctx_done] show ?thesis
    by (simp add: sample_state_def)
qed

lemma sample_drain:
  "drain (PGSink_Write mem_copy) (sample_state Draining True) = (sample_state Draining True)
     \<lparr>ch := [], sink := ([], (\<lambda>_. [])(''requests'' := map requests_row (map sample_event [1, 2]))),
      writes := [(map sample_event [1, 2], Inr ()), ([sample_event 3], Inl SinkError)]\<rparr>"
  by (simp add: sample_state_def sample_db_def drain.simps recv_event_def flush_def PGSink_Write_def
      mem_copy_def requests_row_def comp_def)

theorem metering_fifo_witness:
  "length (accepted (sample_state Draining True)) < 4098"
  using metering_fifo [OF sample_run] by (simp add: sample_state_def attempted_def New_def bufferSize_def)

theorem shutdown_flushes_witness:
  "attempted (drain (PGSink_Write mem_copy) (sample_state Draining True)) = map sample_event [1, 2, 3]"
  using shutdown_flushes [OF sample_run _ refl] by (simp add: sample_state_def)


end
