(* ===== verification/GoStrings.thy ===== *)
theory GoStrings
  imports Prelude
begin

section \<open>Go's byte strings: spaces, trimming, hexadecimal\<close>

text \<open>
  The functions of \<open>strings\<close>, \<open>bytes\<close>, \<open>encoding/hex\<close> that the gateway calls.
  \<open>TrimSpace\<close> removes what \<open>unicode.IsSpace\<close> accepts: the six ASCII spaces and the
  UTF-8 encodings of U+0085, U+00A0, U+1680, U+2000..U+200A, U+2028, U+2029, U+202F, U+205F, U+3000.
\<close>

definition ascii_spaces :: bytes where
  "ascii_spaces = [CHR 0x09, CHR 0x0A, CHR 0x0B, CHR 0x0C, CHR 0x0D, CHR 0x20]"

definition space_seqs :: "bytes list" where
  "space_seqs = map (\<lambda>c. [c]) ascii_spaces @
     [[CHR 0xC2, CHR 0x85], [CHR 0xC2, CHR 0xA0], [CHR 0xE1, CHR 0x9A, CHR 0x80]] @
     map (\<lambda>c. [CHR 0xE2, CHR 0x80, c])
       [CHR 0x80, CHR 0x81, CHR 0x82, CHR 0x83, CHR 0x84, CHR 0x85, CHR 0x86, CHR 0x87, CHR 0x88,
        CHR 0x89, CHR 0x8A, CHR 0xA8, CHR 0xA9, CHR 0xAF] @
     [[CHR 0xE2, CHR 0x81, CHR 0x9F], [CHR 0xE3, CHR 0x80, CHR 0x80]]"

fun cut_any :: "bytes list \<Rightarrow> bytes \<Rightarrow> bytes option" where
  "cut_any [] s = None"
| "cut_any (p # ps) s =
     (case cut_prefix s p of Some r \<Rightarrow> if p = [] then cut_any ps s else Some r | None \<Rightarrow> cut_any ps s)"

lemma cut_any_Some: "cut_any ps s = Some r \<Longrightarrow> \<exists>p\<in>set ps. p \<noteq> [] \<and> s = p @ r"
  by (induction ps) (auto simp: cut_prefix_Some split: option.splits if_splits)

lemma cut_any_None: "cut_any ps s = None \<longleftrightarrow> (\<forall>p\<in>set ps. p \<noteq> [] \<longrightarrow> \<not> has_prefix s p)"
  by (induction ps) (auto simp: has_prefix_def split: option.splits)

lemma cut_any_shorter: "cut_any ps s = Some r \<Longrightarrow> length r < length s"
  by (auto dest!: cut_any_Some)

function trim_seqs :: "bytes list \<Rightarrow> bytes \<Rightarrow> bytes" where
  "trim_seqs ps s = (case cut_any ps s of Some r \<Rightarrow> trim_seqs ps r | None \<Rightarrow> s)"
  by pat_completeness auto

termination
  by (relation "measure (\<lambda>(ps, s). length s)") (auto dest: cut_any_shorter)

declare trim_seqs.simps [simp del]

definition TrimSpace :: "bytes \<Rightarrow> bytes" where
  "TrimSpace s = rev (trim_seqs (map rev space_seqs) (rev (trim_seqs space_seqs s)))"

definition TrimRight :: "bytes \<Rightarrow> bytes \<Rightarrow> bytes" where
  "TrimRight s cutset = rev (dropWhile (\<lambda>c. c \<in> set cutset) (rev s))"

lemma trim_seqs_id: "cut_any ps s = None \<Longrightarrow> trim_seqs ps s = s"
  by (subst trim_seqs.simps) simp

lemma trim_seqs_suffix: "\<exists>p. s = p @ trim_seqs ps s"
proof (induction ps s rule: trim_seqs.induct)
  case (1 ps s)
  show ?case
  proof (cases "cut_any ps s")
    case None then show ?thesis by (simp add: trim_seqs_id)
  next
    case (Some r)
    then obtain p q where "s = p @ r" "r = q @ trim_seqs ps r"
      using 1 [OF Some] cut_any_Some [OF Some] by blast
    then have "s = (p @ q) @ trim_seqs ps r" by simp
    then show ?thesis using Some by (metis option.simps(5) trim_seqs.simps)
  qed
qed

lemma trim_seqs_done: "cut_any ps (trim_seqs ps s) = None"
  by (induction ps s rule: trim_seqs.induct) (subst trim_seqs.simps, auto split: option.split)

lemma TrimSpace_infix: "\<exists>a b. s = a @ TrimSpace s @ b"
proof -
  obtain a where a: "s = a @ trim_seqs space_seqs s" using trim_seqs_suffix by blast
  obtain b where "rev (trim_seqs space_seqs s) = b @ rev (TrimSpace s)"
    using trim_seqs_suffix [of "rev (trim_seqs space_seqs s)" "map rev space_seqs"] by (auto simp: TrimSpace_def)
  then have "trim_seqs space_seqs s = TrimSpace s @ rev b" by (metis rev_append rev_rev_ident)
  with a show ?thesis by metis
qed

text \<open>A string of visible ASCII characters is not changed.\<close>

definition visible :: "char \<Rightarrow> bool" where
  "visible c \<longleftrightarrow> 0x20 < (of_char c :: nat) \<and> (of_char c :: nat) < 0x7F"

lemma space_seqs_ends: "list_all (\<lambda>p. p \<noteq> [] \<and> \<not> visible (hd p) \<and> \<not> visible (last p)) space_seqs"
  by code_simp

lemma space_seqs_visible: "p \<in> set space_seqs \<Longrightarrow> \<exists>c q. p = c # q \<and> \<not> visible c"
  using space_seqs_ends by (force simp: list_all_iff neq_Nil_conv)

lemma space_seqs_rev_visible: "p \<in> set space_seqs \<Longrightarrow> \<exists>c q. rev p = c # q \<and> \<not> visible c"
  using space_seqs_ends by (auto simp: list_all_iff intro!: exI [of _ "rev (butlast p)"])
    (metis append_butlast_last_id rev_eq_Cons_iff rev_rev_ident)

lemma TrimSpace_visible:
  assumes "\<forall>c\<in>set s. visible c"
  shows "TrimSpace s = s"
proof -
  have *: "trim_seqs ps t = t" if "\<forall>c\<in>set t. visible c"
    "\<And>p. p \<in> set ps \<Longrightarrow> \<exists>c q. p = c # q \<and> \<not> visible c" for ps t
    using that by (intro trim_seqs_id) (force simp: cut_any_None has_prefix_iff)
  have "trim_seqs space_seqs s = s" using assms by (intro * space_seqs_visible) auto
  moreover have "trim_seqs (map rev space_seqs) (rev s) = rev s"
    using assms by (intro *) (auto dest: space_seqs_rev_visible)
  ultimately show ?thesis by (simp add: TrimSpace_def)
qed

lemma TrimRight_prefix: "\<exists>r. s = TrimRight s cs @ r \<and> set r \<subseteq> set cs"
proof -
  have "s = TrimRight s cs @ rev (takeWhile (\<lambda>c. c \<in> set cs) (rev s))"
    unfolding TrimRight_def by (metis rev_append rev_rev_ident takeWhile_dropWhile_id)
  then show ?thesis by (metis set_rev set_takeWhileD subsetI)
qed

subsection \<open>Hexadecimal\<close>

definition hex_digit :: "nat \<Rightarrow> char" where
  "hex_digit n = ''0123456789abcdef'' ! n"

definition hex_encode :: "bytes \<Rightarrow> bytes" where
  "hex_encode bs = concat (map (\<lambda>c. [hex_digit (of_char c div 16), hex_digit (of_char c mod 16)]) bs)"

lemma hex_digits_visible: "list_all (\<lambda>n. visible (hex_digit n)) [0..<16]"
  by code_simp

lemma hex_digit_visible: "n < 16 \<Longrightarrow> visible (hex_digit n)"
  using hex_digits_visible by (simp add: list_all_iff)

lemma hex_digit_inject: "m < 16 \<Longrightarrow> n < 16 \<Longrightarrow> hex_digit m = hex_digit n \<longleftrightarrow> m = n"
  unfolding hex_digit_def by (subst nth_eq_iff_index_eq) auto

lemma hex_encode_visible: "c \<in> set (hex_encode bs) \<Longrightarrow> visible c"
  by (auto simp: hex_encode_def intro!: hex_digit_visible less_mult_imp_div_less)

lemma length_hex_encode [simp]: "length (hex_encode bs) = 2 * length bs"
  by (induction bs) (simp_all add: hex_encode_def)


lemma hex_pair_inject:
  fixes a b :: nat
  assumes "a < 256" "b < 256"
  shows "hex_digit (a div 16) = hex_digit (b div 16) \<and> hex_digit (a mod 16) = hex_digit (b mod 16) \<longleftrightarrow> a = b"
  using assms by (auto simp: hex_digit_inject) (metis div_mult_mod_eq)

lemma hex_encode_inject: "hex_encode a = hex_encode b \<longleftrightarrow> a = b"
proof (induction a arbitrary: b)
  case Nil then show ?case by (cases b) (simp_all add: hex_encode_def)
next
  case (Cons x a)
  show ?case
  proof (cases b)
    case Nil then show ?thesis by (simp add: hex_encode_def)
  next
    case (Cons y b')
    have "of_char x = (of_char y :: nat) \<longleftrightarrow> x = y" by simp
    with Cons Cons.IH [of b'] hex_pair_inject [of "of_char x" "of_char y"] nat_of_char_less_256
    show ?thesis by (auto simp: hex_encode_def)
  qed
qed

end
