(* ===== verification/Sha256.thy ===== *)
theory Sha256
  imports GoStrings "HOL-Library.Word"
begin

section \<open>SHA-256\<close>

text \<open>
  Go's \<open>crypto/sha256\<close>, with which \<open>internal/tenant\<close> hashes API keys, as FIPS 180-4
  defines it, on 32-bit words (whose addition wraps).
\<close>

unbundle bit_operations_syntax

type_synonym w32 = "32 word"

text \<open>
  The constants: the first 32 bits of the fractional parts of the cube roots of the first 64 primes
  and of the square roots of the first 8. \<open>root_frac k p\<close> finds the \<open>k\<close>-th root of
  \<open>p\<close> scaled by 2^32, bit by bit; the conversion to a 32-bit word drops the integer part.
\<close>

definition small_primes :: "int list" where
  "small_primes = [2, 3, 5, 7, 11, 13, 17, 19, 23, 29, 31, 37, 41, 43, 47, 53,
     59, 61, 67, 71, 73, 79, 83, 89, 97, 101, 103, 107, 109, 113, 127, 131,
     137, 139, 149, 151, 157, 163, 167, 173, 179, 181, 191, 193, 197, 199, 211, 223,
     227, 229, 233, 239, 241, 251, 257, 263, 269, 271, 277, 281, 283, 293, 307, 311]"

definition root_frac :: "nat \<Rightarrow> int \<Rightarrow> w32" where
  "root_frac k p = word_of_int
     (foldl (\<lambda>r b. if (r + 2 ^ b) ^ k \<le> p * 2 ^ (32 * k) then r + 2 ^ b else r) 0 (rev [0..<38]))"

definition sha_k :: "w32 list" where
  "sha_k = map (root_frac 3) small_primes"

definition sha_init :: "w32 list" where
  "sha_init = map (root_frac 2) (take 8 small_primes)"

lemma length_sha_init: "length sha_init = 8"
  by (simp add: sha_init_def small_primes_def)

definition rotr :: "nat \<Rightarrow> w32 \<Rightarrow> w32" where
  "rotr n x = drop_bit n x OR push_bit (32 - n) x"

definition small_sigma0 :: "w32 \<Rightarrow> w32" where
  "small_sigma0 x = rotr 7 x XOR rotr 18 x XOR drop_bit 3 x"

definition small_sigma1 :: "w32 \<Rightarrow> w32" where
  "small_sigma1 x = rotr 17 x XOR rotr 19 x XOR drop_bit 10 x"

definition big_sigma0 :: "w32 \<Rightarrow> w32" where
  "big_sigma0 x = rotr 2 x XOR rotr 13 x XOR rotr 22 x"

definition big_sigma1 :: "w32 \<Rightarrow> w32" where
  "big_sigma1 x = rotr 6 x XOR rotr 11 x XOR rotr 25 x"

text \<open>The message schedule, newest word first.\<close>

fun schedule :: "nat \<Rightarrow> w32 list \<Rightarrow> w32 list" where
  "schedule 0 ws = ws"
| "schedule (Suc n) ws =
     schedule n ((small_sigma1 (ws ! 1) + ws ! 6 + small_sigma0 (ws ! 14) + ws ! 15) # ws)"

fun sha_round :: "w32 list \<Rightarrow> w32 \<times> w32 \<Rightarrow> w32 list" where
  "sha_round [a, b, c, d, e, f, g, h] (k, w) =
     (let t1 = h + big_sigma1 e + ((e AND f) XOR (NOT e AND g)) + k + w;
          t2 = big_sigma0 a + ((a AND b) XOR (a AND c) XOR (b AND c))
      in [t1 + t2, a, b, c, d + t1, e, f, g])"
| "sha_round s _ = s"

definition compress :: "w32 list \<Rightarrow> w32 list \<Rightarrow> w32 list" where
  "compress h block = map2 (+) h (foldl sha_round h (zip sha_k (rev (schedule 48 (rev block)))))"

fun be_words :: "bytes \<Rightarrow> w32 list" where
  "be_words (a # b # c # d # r) =
     (push_bit 24 (of_char a) OR push_bit 16 (of_char b) OR push_bit 8 (of_char c) OR of_char d) # be_words r"
| "be_words _ = []"

definition be_bytes :: "nat \<Rightarrow> int \<Rightarrow> bytes" where
  "be_bytes n x = map (\<lambda>i. char_of (x div 256 ^ (n - 1 - i))) [0..<n]"

definition sha_pad :: "bytes \<Rightarrow> bytes" where
  "sha_pad m = m @ CHR 0x80 # replicate ((119 - length m mod 64) mod 64) (CHR 0x00) @ be_bytes 8 (8 * int (length m))"

function sha_blocks :: "w32 list \<Rightarrow> w32 list \<Rightarrow> w32 list" where
  "sha_blocks h ws = (if length ws < 16 then h else sha_blocks (compress h (take 16 ws)) (drop 16 ws))"
  by pat_completeness auto

termination
  by (relation "measure (\<lambda>(h, ws). length ws)") auto

definition sha256 :: "bytes \<Rightarrow> bytes" where
  "sha256 m = concat (map (\<lambda>w. be_bytes 4 (uint w)) (sha_blocks sha_init (be_words (sha_pad m))))"

declare sha_blocks.simps [simp del]

lemma length_sha_round: "length (sha_round s kw) = length s"
  by (cases "(s, kw)" rule: sha_round.cases) (simp_all add: Let_def)

lemma length_foldl_round: "length (foldl sha_round s kws) = length s"
  by (induction kws arbitrary: s) (simp_all add: length_sha_round)

lemma length_sha_blocks: "length (sha_blocks h ws) = length h"
  by (induction h ws rule: sha_blocks.induct)
    (subst sha_blocks.simps, simp add: compress_def length_foldl_round)

lemma length_sha256: "length (sha256 m) = 32"
proof -
  have "length (concat (map (\<lambda>w. be_bytes 4 (uint w)) ws)) = 4 * length ws" for ws :: "w32 list"
    by (induction ws) (simp_all add: be_bytes_def)
  then show ?thesis by (simp add: sha256_def length_sha_blocks length_sha_init)
qed

end
