(* ===== verification/Tenant.thy ===== *)
theory Tenant
  imports Sha256 GoFloat
begin

section \<open>Tenant: API keys and the tenants table\<close>

text \<open>
  \<open>internal/tenant\<close> with the \<open>tenants\<close> table of \<open>store/migrations/001_init.sql\<close>. A key is
  shown once and only its SHA-256 is stored. Postgres is not part of the repository: the record
  \<open>tenant_db\<close> holds the two statements the code sends, and the locale \<open>tenants_table\<close> says
  what they do on that table: a unique hash, a fresh id, \<open>fail_open\<close> TRUE and no budget by default.
  The bytes of \<open>crypto/rand\<close> are an argument.
\<close>

record Tenant =
  ID :: int
  Name :: bytes
  FailOpen :: bool
  MonthlyBudgetUSD :: "f64 option"

definition zero_Tenant :: Tenant where
  "zero_Tenant = \<lparr>ID = 0, Name = [], FailOpen = False, MonthlyBudgetUSD = None\<rparr>"

datatype db_error = DBError

record 'db tenant_db =
  select_by_hash :: "'db \<Rightarrow> bytes \<Rightarrow> db_error + Tenant option"
  insert_tenant :: "'db \<Rightarrow> bytes \<Rightarrow> bytes \<Rightarrow> 'db \<times> (db_error + unit)"

definition GenerateKey :: "bytes option \<Rightarrow> db_error + bytes" where
  "GenerateKey rand = (case rand of None \<Rightarrow> Inl DBError | Some b \<Rightarrow> Inr (''sg_'' @ hex_encode b))"

definition HashKey :: "bytes \<Rightarrow> bytes" where
  "HashKey key = hex_encode (sha256 key)"

definition Create :: "'db tenant_db \<Rightarrow> 'db \<Rightarrow> bytes option \<Rightarrow> bytes \<Rightarrow> 'db \<times> (db_error + bytes)" where
  "Create T db rand name =
     (case GenerateKey rand of
        Inl e \<Rightarrow> (db, Inl e)
      | Inr key \<Rightarrow>
          (case insert_tenant T db name (HashKey key) of
             (db', Inl e) \<Rightarrow> (db', Inl e)
           | (db', Inr _) \<Rightarrow> (db', Inr key)))"

definition LookupByHash :: "'db tenant_db \<Rightarrow> 'db \<Rightarrow> bytes \<Rightarrow> db_error + Tenant option" where
  "LookupByHash T db keyHash =
     (case select_by_hash T db keyHash of
        Inl e \<Rightarrow> Inl e
      | Inr None \<Rightarrow> Inr None
      | Inr (Some t) \<Rightarrow> Inr (Some t))"

lemma LookupByHash_select: "LookupByHash T db = select_by_hash T db"
  by (auto simp: LookupByHash_def split: sum.split option.split)

locale tenants_table =
  fixes T :: "'db tenant_db"
  assumes insert_ok: "insert_tenant T db name h = (db', Inr ()) \<Longrightarrow>
      select_by_hash T db h = Inr None \<and>
      (\<exists>i. (\<forall>g t. select_by_hash T db g = Inr (Some t) \<longrightarrow> ID t \<noteq> i) \<and>
        (\<forall>g. select_by_hash T db' g =
          (if g = h then Inr (Some \<lparr>ID = i, Name = name, FailOpen = True, MonthlyBudgetUSD = None\<rparr>)
           else select_by_hash T db g)))"
    and insert_err: "insert_tenant T db name h = (db', Inl e) \<Longrightarrow> select_by_hash T db' = select_by_hash T db"
begin

lemma Create_ok:
  assumes "Create T db rand name = (db', Inr key)"
  obtains b i where "rand = Some b" "key = ''sg_'' @ hex_encode b"
    "LookupByHash T db (HashKey key) = Inr None"
    "\<And>g t. select_by_hash T db g = Inr (Some t) \<Longrightarrow> ID t \<noteq> i"
    "\<And>g. LookupByHash T db' g =
       (if g = HashKey key then Inr (Some \<lparr>ID = i, Name = name, FailOpen = True, MonthlyBudgetUSD = None\<rparr>)
        else LookupByHash T db g)"
proof -
  from assms obtain b where b: "rand = Some b" "key = ''sg_'' @ hex_encode b"
    and ins: "insert_tenant T db name (HashKey key) = (db', Inr ())"
    by (auto simp: Create_def GenerateKey_def split: option.splits prod.splits sum.splits)
  from insert_ok [OF ins] that [OF b] show ?thesis unfolding LookupByHash_select by metis
qed

lemma Create_err:
  "Create T db rand name = (db', Inl e) \<Longrightarrow> LookupByHash T db' = LookupByHash T db"
  by (auto simp: Create_def LookupByHash_select dest: insert_err split: sum.splits prod.splits)

end

text \<open>A table in memory that meets the contract: the rows by hash and the id sequence.\<close>

type_synonym mem_tenants = "(bytes \<times> Tenant) list \<times> int"

definition mem_tenant_db :: "mem_tenants tenant_db" where
  "mem_tenant_db = \<lparr>
     select_by_hash = (\<lambda>(rows, n) h. Inr (map_of rows h)),
     insert_tenant = (\<lambda>(rows, n) name h.
       if map_of rows h \<noteq> None then ((rows, n), Inl DBError)
       else let i = 1 + fold (\<lambda>(h, t). max (ID t)) rows n in
         (((h, \<lparr>ID = i, Name = name, FailOpen = True, MonthlyBudgetUSD = None\<rparr>) # rows, i), Inr ()))\<rparr>"

lemma fold_max_ge:
  "n \<le> fold (\<lambda>(h, t). max (ID t)) rows n"
  "(h, t) \<in> set rows \<Longrightarrow> ID t \<le> fold (\<lambda>(h, t). max (ID t)) rows n"
proof (induction rows arbitrary: n)
  case (Cons x rows)
  { case 1 then show ?case using Cons.IH(1) [of "max (ID (snd x)) n"] by (auto simp: split_beta) }
  { case 2 then show ?case
      using Cons.IH(1) [of "max (ID (snd x)) n"] Cons.IH(2) [of "max (ID (snd x)) n"] by (auto simp: split_beta) }
qed simp_all

interpretation mem_tenants: tenants_table mem_tenant_db
proof
  fix db db' :: mem_tenants and name h
  assume "insert_tenant mem_tenant_db db name h = (db', Inr ())"
  then show "select_by_hash mem_tenant_db db h = Inr None \<and>
      (\<exists>i. (\<forall>g t. select_by_hash mem_tenant_db db g = Inr (Some t) \<longrightarrow> ID t \<noteq> i) \<and>
        (\<forall>g. select_by_hash mem_tenant_db db' g =
          (if g = h then Inr (Some \<lparr>ID = i, Name = name, FailOpen = True, MonthlyBudgetUSD = None\<rparr>)
           else select_by_hash mem_tenant_db db g)))"
    using fold_max_ge(2) [of _ _ "fst db" "snd db"]
    by (auto simp: mem_tenant_db_def Let_def split: if_splits prod.splits
        intro!: exI [of _ "1 + fold (\<lambda>(h, t). max (ID t)) (fst db) (snd db)"] dest!: map_of_SomeD) force
next
  fix db db' :: mem_tenants and name h e
  assume "insert_tenant mem_tenant_db db name h = (db', Inl e)"
  then show "select_by_hash mem_tenant_db db' = select_by_hash mem_tenant_db db"
    by (auto simp: mem_tenant_db_def Let_def split: if_splits prod.splits)
qed

lemma HashKey_length: "length (HashKey k) = 64"
  by (simp add: HashKey_def length_sha256)

end
