(* ===== verification/Http.thy ===== *)
theory Http
  imports GoStrings
begin

section \<open>Http: headers, requests and response writers\<close>

text \<open>
  What the gateway uses of \<open>net/http\<close>. A \<open>Header\<close> maps a key to its values; \<open>Get\<close>,
  \<open>Set\<close> and \<open>Del\<close> canonicalise the key they are given, an index or assignment of the
  source does not. A response writer keeps the header map, the status sent, and the writes made;
  \<open>w_gone\<close> is the environment: the number of writes that still succeed before the client has
  gone away, \<open>None\<close> for a client that stays.
\<close>

type_synonym Header = "bytes \<Rightarrow> bytes list option"

definition upper :: "char \<Rightarrow> char" where
  "upper c = (if 97 \<le> (of_char c :: nat) \<and> (of_char c :: nat) \<le> 122 then char_of (of_char c - 32 :: nat) else c)"

definition lower :: "char \<Rightarrow> char" where
  "lower c = (if 65 \<le> (of_char c :: nat) \<and> (of_char c :: nat) \<le> 90 then char_of (of_char c + 32 :: nat) else c)"

definition token_char :: "char \<Rightarrow> bool" where
  "token_char c \<longleftrightarrow> c \<in> set ''!#$%&*+-.^_`|~0123456789abcdefghijklmnopqrstuvwxyzABCDEFGHIJKLMNOPQRSTUVWXYZ''
     \<or> of_char c = (39 :: nat)"

fun canonical_from :: "bool \<Rightarrow> bytes \<Rightarrow> bytes" where
  "canonical_from up [] = []"
| "canonical_from up (c # s) = (if up then upper c else lower c) # canonical_from (c = CHR ''-'') s"

definition CanonicalHeaderKey :: "bytes \<Rightarrow> bytes" where
  "CanonicalHeaderKey k = (if list_all token_char k then canonical_from True k else k)"

definition Header_Get :: "Header \<Rightarrow> bytes \<Rightarrow> bytes" where
  "Header_Get h k = (case h (CanonicalHeaderKey k) of Some (v # vs) \<Rightarrow> v | _ \<Rightarrow> [])"

definition Header_Set :: "Header \<Rightarrow> bytes \<Rightarrow> bytes \<Rightarrow> Header" where
  "Header_Set h k v = h(CanonicalHeaderKey k \<mapsto> [v])"

definition Header_Del :: "Header \<Rightarrow> bytes \<Rightarrow> Header" where
  "Header_Del h k = h(CanonicalHeaderKey k := None)"

text \<open>\<open>'t\<close> is the type of the tenant a middleware attaches to the request's context.\<close>

record 't Request =
  Method :: bytes
  Path :: bytes
  RawQuery :: bytes
  rq_Header :: Header
  rq_Body :: bytes
  rq_tenant :: "'t option"

record Response =
  StatusCode :: int
  rs_Header :: Header
  rs_Body :: bytes

record ResponseWriter =
  w_header :: Header
  w_status :: "int option"
  w_body :: "bytes list"
  w_gone :: "nat option"

definition fresh_writer :: "nat option \<Rightarrow> ResponseWriter" where
  "fresh_writer gone = \<lparr>w_header = Map.empty, w_status = None, w_body = [], w_gone = gone\<rparr>"

text \<open>The first status sent is the one that counts.\<close>

definition WriteHeader :: "ResponseWriter \<Rightarrow> int \<Rightarrow> ResponseWriter" where
  "WriteHeader w code = (case w_status w of None \<Rightarrow> w\<lparr>w_status := Some code\<rparr> | Some _ \<Rightarrow> w)"

definition Write :: "ResponseWriter \<Rightarrow> bytes \<Rightarrow> ResponseWriter \<times> bool" where
  "Write w b =
     (let w1 = WriteHeader w 200
      in case w_gone w1 of
          None \<Rightarrow> (w1\<lparr>w_body := w_body w1 @ [b]\<rparr>, True)
        | Some 0 \<Rightarrow> (w1, False)
        | Some (Suc n) \<Rightarrow> (w1\<lparr>w_body := w_body w1 @ [b], w_gone := Some n\<rparr>, True))"

definition Error :: "ResponseWriter \<Rightarrow> bytes \<Rightarrow> int \<Rightarrow> ResponseWriter" where
  "Error w msg code =
     (let h = Header_Del (w_header w) ''Content-Length'';
          h = Header_Set (Header_Set h ''Content-Type'' ''text/plain; charset=utf-8'')
                ''X-Content-Type-Options'' ''nosniff''
      in fst (Write (WriteHeader (w\<lparr>w_header := h\<rparr>) code) (msg @ [CHR 0x0A])))"

definition NotFound :: "ResponseWriter \<Rightarrow> ResponseWriter" where
  "NotFound w = Error w ''404 page not found'' 404"

lemma WriteHeader_fresh [simp]: "w_status w = None \<Longrightarrow> w_status (WriteHeader w c) = Some c"
  by (simp add: WriteHeader_def)

lemma WriteHeader_keeps [simp]:
  "w_header (WriteHeader w c) = w_header w" "w_body (WriteHeader w c) = w_body w"
  "w_gone (WriteHeader w c) = w_gone w" "w_status w = Some x \<Longrightarrow> WriteHeader w c = w"
  by (simp_all add: WriteHeader_def split: option.split)

lemma Write_status [simp]:
  "w_status (fst (Write w b)) = (case w_status w of None \<Rightarrow> Some 200 | Some c \<Rightarrow> Some c)"
  by (auto simp: Write_def WriteHeader_def Let_def split: option.split nat.split)

lemma Error_status [simp]: "w_status w = None \<Longrightarrow> w_status (Error w msg c) = Some c"
  by (simp add: Error_def Let_def)

end
