(* ===== verification/Auth.thy ===== *)
theory Auth
  imports Tenant Http GoTime
begin

section \<open>Auth: bearer keys, the tenant cache and the middleware\<close>

text \<open>
  \<open>internal/auth/auth.go\<close>. A request's \<open>Authorization: Bearer sg_...\<close> key is hashed and
  resolved to a tenant, first in a cache with a time to live, then in Postgres; only positive
  answers are cached. \<open>resolve\<close> takes and releases the mutex twice with the query in between,
  so it is modelled both as the function of one call (with the two clock readings it makes) and,
  below, as the steps that concurrent calls interleave.
\<close>

record entry =
  en_t :: Tenant
  expires :: instant

record Authenticator =
  ttl :: int
  cache :: "bytes \<Rightarrow> entry option"

definition Auth_New :: "int \<Rightarrow> Authenticator" where
  "Auth_New d = \<lparr>ttl = (if d \<le> 0 then 30 * 1000000000 else d), cache = Map.empty\<rparr>"

definition cache_get :: "Authenticator \<Rightarrow> bytes \<Rightarrow> instant \<Rightarrow> Tenant option" where
  "cache_get a hash now =
     (case cache a hash of
        Some e \<Rightarrow> if now < expires e then Some (en_t e) else None
      | None \<Rightarrow> None)"

definition cache_put :: "Authenticator \<Rightarrow> bytes \<Rightarrow> Tenant \<Rightarrow> instant \<Rightarrow> Authenticator" where
  "cache_put a hash t now = a\<lparr>cache := (cache a)(hash \<mapsto> \<lparr>en_t = t, expires = now + ttl a\<rparr>)\<rparr>"

type_synonym lookup_fn = "bytes \<Rightarrow> db_error + Tenant option"

definition resolve :: "lookup_fn \<Rightarrow> instant \<Rightarrow> instant \<Rightarrow> Authenticator \<Rightarrow> bytes \<Rightarrow>
    Authenticator \<times> (db_error + Tenant option)" where
  "resolve lookup now1 now2 a key =
     (let hash = HashKey key
      in case cache_get a hash now1 of
          Some t \<Rightarrow> (a, Inr (Some t))
        | None \<Rightarrow>
            (case lookup hash of
               Inl e \<Rightarrow> (a, Inl e)
             | Inr None \<Rightarrow> (a, Inr None)
             | Inr (Some t) \<Rightarrow> (cache_put a hash t now2, Inr (Some t))))"

definition bearerKey :: "bytes \<Rightarrow> bytes option" where
  "bearerKey h =
     (case cut_prefix h ''Bearer '' of
        None \<Rightarrow> None
      | Some r \<Rightarrow> let key = TrimSpace r in if has_prefix key ''sg_'' then Some key else None)"

text \<open>What a handler finds in its context.\<close>

definition TenantFrom :: "Tenant Request \<Rightarrow> Tenant \<times> bool" where
  "TenantFrom r = (case rq_tenant r of Some t \<Rightarrow> (t, True) | None \<Rightarrow> (zero_Tenant, False))"

lemma TenantFrom_tenant [simp]: "fst (TenantFrom r) = (case rq_tenant r of Some t \<Rightarrow> t | None \<Rightarrow> zero_Tenant)"
  by (simp add: TenantFrom_def split: option.split)

type_synonym 'x handler = "ResponseWriter \<Rightarrow> Tenant Request \<Rightarrow> 'x \<Rightarrow> ResponseWriter \<times> 'x"

text \<open>\<open>'x\<close> is the state of the handler behind the middleware.\<close>

definition Middleware :: "lookup_fn \<Rightarrow> instant \<Rightarrow> instant \<Rightarrow> 'x handler \<Rightarrow>
    ResponseWriter \<Rightarrow> Tenant Request \<Rightarrow> Authenticator \<times> 'x \<Rightarrow> ResponseWriter \<times> Authenticator \<times> 'x" where
  "Middleware lookup now1 now2 nxt w r = (\<lambda>(a, x).
     (case bearerKey (Header_Get (rq_Header r) ''Authorization'') of
        None \<Rightarrow> (Error w ''missing sg_ bearer key'' 401, a, x)
      | Some key \<Rightarrow>
          (case resolve lookup now1 now2 a key of
             (a', Inl e) \<Rightarrow> (Error w ''auth backend unavailable'' 503, a', x)
           | (a', Inr None) \<Rightarrow> (Error w ''unknown API key'' 401, a', x)
           | (a', Inr (Some t)) \<Rightarrow>
               (case nxt w (r\<lparr>rq_Header := Header_Del (rq_Header r) ''Authorization'', rq_tenant := Some t\<rparr>) x
                of (w', x') \<Rightarrow> (w', a', x')))))"

subsection \<open>Keys\<close>

lemma bearerKey_Some:
  "bearerKey h = Some k \<Longrightarrow> \<exists>a s b. h = ''Bearer '' @ a @ k @ b \<and> k = ''sg_'' @ s"
  using TrimSpace_infix
  by (auto simp: bearerKey_def Let_def has_prefix_iff cut_prefix_Some split: option.splits if_splits) metis

lemma bearerKey_generated: "bearerKey (''Bearer '' @ ''sg_'' @ hex_encode b) = Some (''sg_'' @ hex_encode b)"
proof -
  have "\<forall>c\<in>set (''sg_'' @ hex_encode b). visible c"
    using hex_encode_visible by (auto simp: visible_def)
  from TrimSpace_visible [OF this] show ?thesis
    by (simp add: bearerKey_def cut_prefix_append [of "''Bearer ''", simplified append_Cons append_Nil] has_prefix_iff)
qed

text \<open>C28: a key that tenant creation printed authenticates: the bearer header carries exactly that key
  through, and a lookup that misses the cache finds the created tenant, who fails open and has no
  budget, while every other key resolves as before.\<close>

theorem created_key_authenticates:
  assumes "tenants_table T" and "Create T db rand name = (db', Inr key)"
    and "cache_get a (HashKey key) now1 = None"
  shows "bearerKey (''Bearer '' @ key) = Some key
    \<and> (\<exists>t. resolve (LookupByHash T db') now1 now2 a key = (cache_put a (HashKey key) t now2, Inr (Some t))
         \<and> Name t = name \<and> FailOpen t \<and> MonthlyBudgetUSD t = None
         \<and> (\<forall>g u. LookupByHash T db g = Inr (Some u) \<longrightarrow> ID u \<noteq> ID t))
    \<and> (\<forall>k. HashKey k \<noteq> HashKey key \<longrightarrow>
         resolve (LookupByHash T db') now1 now2 a k = resolve (LookupByHash T db) now1 now2 a k)"
proof -
  from tenants_table.Create_ok [OF assms(1,2)] obtain b i where key: "key = ''sg_'' @ hex_encode b"
    and new: "\<And>g t. select_by_hash T db g = Inr (Some t) \<Longrightarrow> ID t \<noteq> i"
    and look: "\<And>g. LookupByHash T db' g =
       (if g = HashKey key then Inr (Some \<lparr>ID = i, Name = name, FailOpen = True, MonthlyBudgetUSD = None\<rparr>)
        else LookupByHash T db g)" by metis
  have "bearerKey (''Bearer '' @ key) = Some key" using bearerKey_generated by (simp add: key)
  with new assms(3) show ?thesis
    by (auto simp: resolve_def Let_def look [unfolded LookupByHash_select] LookupByHash_select split: option.split)
qed

definition demo_key :: bytes where
  "demo_key = ''sg_'' @ hex_encode (replicate 24 CHR ''k'')"

theorem created_key_authenticates_witness:
  "\<exists>t. snd (resolve (LookupByHash mem_tenant_db (fst (Create mem_tenant_db ([], 0) (Some (replicate 24 CHR ''k'')) ''acme'')))
       0 5 (Auth_New 0) demo_key) = Inr (Some t) \<and> Name t = ''acme''"
proof -
  have "Create mem_tenant_db ([], 0) (Some (replicate 24 CHR ''k'')) ''acme'' =
    (([(HashKey demo_key, \<lparr>ID = 1, Name = ''acme'', FailOpen = True, MonthlyBudgetUSD = None\<rparr>)], 1), Inr demo_key)"
    by (simp add: Create_def GenerateKey_def mem_tenant_db_def demo_key_def)
  from created_key_authenticates [OF mem_tenants.tenants_table_axioms this, of "Auth_New 0" 0 5]
  show ?thesis using \<open>Create _ _ _ _ = _\<close> by (auto simp: Auth_New_def cache_get_def)
qed

text \<open>C26: the middleware calls the handler behind it only for a well-formed key that the cache or Postgres
  resolves to a tenant, with that tenant attached and the client's \<open>Authorization\<close> header removed;
  in every other case the handler is not called, and the client gets 401 for a missing or unknown key
  and 503 when Postgres fails.\<close>

theorem Middleware_authenticates:
  assumes "w_status w = None"
    and "Middleware lookup now1 now2 nxt w r (a, x) = (w', a', x')"
    and "h = Header_Get (rq_Header r) ''Authorization''"
  shows "(\<exists>key t. bearerKey h = Some key
          \<and> (w', x') = nxt w (r\<lparr>rq_Header := (rq_Header r)(''Authorization'' := None), rq_tenant := Some t\<rparr>) x
          \<and> (cache_get a (HashKey key) now1 = Some t \<and> a' = a
             \<or> cache_get a (HashKey key) now1 = None \<and> lookup (HashKey key) = Inr (Some t)
               \<and> a' = cache_put a (HashKey key) t now2))
      \<or> x' = x \<and> a' = a \<and> w_status w' = Some 401
          \<and> (case bearerKey h of None \<Rightarrow> True | Some key \<Rightarrow> lookup (HashKey key) = Inr None)
      \<or> x' = x \<and> a' = a \<and> w_status w' = Some 503
          \<and> (\<exists>key e. bearerKey h = Some key \<and> lookup (HashKey key) = Inl e)"
proof -
  have c: "CanonicalHeaderKey ''Authorization'' = ''Authorization''" by code_simp
  show ?thesis
    using assms(1,2)
    by (auto simp: Middleware_def resolve_def Let_def Header_Del_def c simp flip: assms(3)
        split: option.splits sum.splits prod.splits)
qed

theorem Middleware_authenticates_witness:
  "w_status (fst (Middleware (\<lambda>h. Inr None) 0 0 (\<lambda>w r x. (w, x)) (fresh_writer None)
     \<lparr>Method = ''POST'', Path = ''/openai/v1'', RawQuery = [], rq_Header = [''Authorization'' \<mapsto> [''Bearer sg_00'']],
      rq_Body = [], rq_tenant = None\<rparr> (Auth_New 0, ()))) = Some 401"
    (is "w_status (fst (Middleware _ _ _ ?n ?w ?r ?a)) = _")
proof -
  obtain w' a' x' where m: "Middleware (\<lambda>h. Inr None) 0 0 ?n ?w ?r (Auth_New 0, ()) = (w', a', x')"
    by (metis prod_cases3)
  from Middleware_authenticates [OF _ m refl] have "w_status w' = Some 401"
    by (auto simp: fresh_writer_def Auth_New_def cache_get_def)
  then show ?thesis by (simp only: m fst_conv)
qed

subsection \<open>Concurrent requests and revocation\<close>

text \<open>
  \<open>truth time\<close> is the tenants table at that time. A call checks the cache (\<open>hit\<close> or \<open>miss\<close>),
  queries, and stores; \<open>d\<close> bounds the time from the query's reading to the store. \<open>grants\<close>
  records each authenticated request.
\<close>

record auth_sys =
  clock :: instant
  auth :: Authenticator
  querying :: "bytes list"
  found :: "(bytes \<times> Tenant \<times> instant) list"
  grants :: "(instant \<times> bytes \<times> Tenant) list"

inductive auth_step :: "(instant \<Rightarrow> bytes \<Rightarrow> Tenant option) \<Rightarrow> int \<Rightarrow> auth_sys \<Rightarrow> auth_sys \<Rightarrow> bool"
  for truth d where
  advance: "clock s \<le> c \<Longrightarrow> auth_step truth d s (s\<lparr>clock := c\<rparr>)"
| hit: "cache_get (auth s) hash (clock s) = Some t \<Longrightarrow>
    auth_step truth d s (s\<lparr>grants := (clock s, hash, t) # grants s\<rparr>)"
| miss: "cache_get (auth s) hash (clock s) = None \<Longrightarrow>
    auth_step truth d s (s\<lparr>querying := hash # querying s\<rparr>)"
| lookup_found: "hash \<in> set (querying s) \<Longrightarrow> truth (clock s) hash = Some t \<Longrightarrow>
    auth_step truth d s (s\<lparr>querying := remove1 hash (querying s), found := (hash, t, clock s) # found s\<rparr>)"
| lookup_none: "hash \<in> set (querying s) \<Longrightarrow>
    auth_step truth d s (s\<lparr>querying := remove1 hash (querying s)\<rparr>)"
| store: "(hash, t, l) \<in> set (found s) \<Longrightarrow> clock s \<le> l + d \<Longrightarrow>
    auth_step truth d s (s\<lparr>auth := cache_put (auth s) hash t (clock s),
      found := remove1 (hash, t, l) (found s), grants := (clock s, hash, t) # grants s\<rparr>)"

inductive auth_reach :: "(instant \<Rightarrow> bytes \<Rightarrow> Tenant option) \<Rightarrow> int \<Rightarrow> int \<Rightarrow> auth_sys \<Rightarrow> bool"
  for truth d ttl0 where
  start: "auth_reach truth d ttl0 \<lparr>clock = c, auth = Auth_New ttl0, querying = [], found = [], grants = []\<rparr>"
| step: "auth_reach truth d ttl0 s \<Longrightarrow> auth_step truth d s t \<Longrightarrow> auth_reach truth d ttl0 t"

text \<open>Everything in the cache was true recently enough, and so was everything granted.\<close>

definition auth_inv :: "(instant \<Rightarrow> bytes \<Rightarrow> Tenant option) \<Rightarrow> int \<Rightarrow> int \<Rightarrow> auth_sys \<Rightarrow> bool" where
  "auth_inv truth d L s \<longleftrightarrow> ttl (auth s) = L
   \<and> (\<forall>h e. cache (auth s) h = Some e \<longrightarrow> (\<exists>l. truth l h = Some (en_t e) \<and> expires e \<le> l + d + L))
   \<and> (\<forall>(h, t, l)\<in>set (found s). truth l h = Some t)
   \<and> (\<forall>(c, h, t)\<in>set (grants s). \<exists>l. truth l h = Some t \<and> c < l + d + L)"

lemma auth_inv_step:
  assumes "auth_step truth d s t" "auth_inv truth d L s" "0 < L"
  shows "auth_inv truth d L t"
  using assms(1)
proof cases
  case (hit hash t')
  then obtain e where e: "cache (auth s) hash = Some e" "clock s < expires e" "en_t e = t'"
    by (auto simp: cache_get_def split: option.splits if_splits)
  moreover from e(1) obtain l where "truth l hash = Some (en_t e)" "expires e \<le> l + d + L"
    using assms(2) unfolding auth_inv_def by blast
  ultimately have "truth l hash = Some t'" "clock s < l + d + L" by simp_all
  with hit(1) assms(2) show ?thesis unfolding auth_inv_def by auto
next
  case (store hash t' l)
  then have l: "truth l hash = Some t'" "clock s < l + d + L" "clock s + L \<le> l + d + L"
    using assms(2,3) by (auto simp: auth_inv_def)
  have "\<forall>(h, t, l)\<in>set (remove1 (hash, t', l) (found s)). truth l h = Some t"
    using assms(2) unfolding auth_inv_def by (intro ball_remove1) blast
  with l store(1) assms(2) show ?thesis
    unfolding auth_inv_def by (simp add: cache_put_def) blast
qed (use assms(2) in \<open>simp_all add: auth_inv_def\<close>)

lemma auth_reach_inv:
  assumes "auth_reach truth d ttl0 s" shows "auth_inv truth d (ttl (Auth_New ttl0)) s"
  using assms
proof (induction rule: auth_reach.induct)
  case (start c) then show ?case by (simp add: auth_inv_def Auth_New_def)
next
  case (step s t) then show ?case by (intro auth_inv_step [OF step(2) step.IH]) (simp add: Auth_New_def)
qed

text \<open>C27: revocation: once a tenant's key no longer resolves to it, no request is granted as that tenant
  later than the time to live plus the longest time between a query and the store of its answer,
  whatever requests run concurrently.\<close>

theorem revocation_takes_effect:
  assumes "auth_reach truth d ttl0 s" and "(T, hash, t) \<in> set (grants s)"
    and "\<And>time. R \<le> time \<Longrightarrow> truth time hash \<noteq> Some t"
  shows "T < R + d + (if ttl0 \<le> 0 then 30000000000 else ttl0)"
proof -
  from auth_reach_inv [OF assms(1)] assms(2) obtain l where
    "truth l hash = Some t" "T < l + d + (if ttl0 \<le> 0 then 30000000000 else ttl0)"
    by (auto simp: auth_inv_def Auth_New_def split: if_splits)
  then show ?thesis using assms(3) [of l] by (cases "R \<le> l") auto
qed

lemma revocation_run:
  assumes "truth = (\<lambda>time h. if time < (10 :: int) then Some zero_Tenant else None)"
  shows "\<exists>s. auth_reach truth 5 0 s \<and> (1000, ''h'', zero_Tenant) \<in> set (grants s)"
proof -
  let ?a = "cache_put (Auth_New 0) ''h'' zero_Tenant 0"
  let ?s = "\<lambda>c a q f g. \<lparr>clock = c, auth = a, querying = q, found = f, grants = g\<rparr>"
  note step = auth_reach.step
  have "auth_reach truth 5 0 (?s 0 (Auth_New 0) [] [] [])" by (rule auth_reach.start)
  from step [OF this auth_step.miss [of _ "''h''"]] have "auth_reach truth 5 0 (?s 0 (Auth_New 0) [''h''] [] [])"
    by (simp add: Auth_New_def cache_get_def)
  from step [OF this auth_step.lookup_found [of "''h''" _ _ zero_Tenant]]
  have "auth_reach truth 5 0 (?s 0 (Auth_New 0) [] [(''h'', zero_Tenant, 0)] [])" by (simp add: assms)
  from step [OF this auth_step.store [of "''h''" zero_Tenant 0]]
  have "auth_reach truth 5 0 (?s 0 ?a [] [] [(0, ''h'', zero_Tenant)])" by simp
  from step [OF this auth_step.advance [of _ 1000]]
  have "auth_reach truth 5 0 (?s 1000 ?a [] [] [(0, ''h'', zero_Tenant)])" by simp
  from step [OF this auth_step.hit [of _ "''h''" zero_Tenant]]
  have "auth_reach truth 5 0 (?s 1000 ?a [] [] [(1000, ''h'', zero_Tenant), (0, ''h'', zero_Tenant)])"
    by (simp add: cache_put_def cache_get_def Auth_New_def)
  then show ?thesis by fastforce
qed

theorem revocation_takes_effect_witness:
  "(1000 :: int) < 10 + 5 + 30000000000"
proof -
  let ?t = "\<lambda>time h. if time < (10 :: int) then Some zero_Tenant else None"
  obtain s where "auth_reach ?t 5 0 s" "(1000, ''h'', zero_Tenant) \<in> set (grants s)"
    using revocation_run [OF refl] by blast
  from revocation_takes_effect [OF this, of 10] show ?thesis by simp
qed

end
