(* ===== verification/GoJson.thy ===== *)
theory GoJson
  imports GoTime GoStrings "HOL-Library.AList" "HOL-Library.Char_ord" "HOL-Library.List_Lexorder"
begin

section \<open>GoJson: the part of encoding/json the gateway uses\<close>

text \<open>
  \<open>json.Unmarshal\<close> first validates the whole input, then decodes it into the Go value; a type
  mismatch is remembered as the error and decoding goes on with the next field. Values keep the
  text they were read from, because the gateway decodes into \<open>json.RawMessage\<close>.
  The parser recurses with fuel; \<open>parse_json\<close> gives it twice the length of its input, and
  \<open>parse_fuel\<close> below shows that more fuel never changes the answer.
\<close>

subsection \<open>Lexical elements\<close>

abbreviation quote_char :: char where "quote_char \<equiv> CHR 0x22"
abbreviation backslash :: char where "backslash \<equiv> CHR 0x5C"

definition is_ws :: "char \<Rightarrow> bool" where
  "is_ws c \<longleftrightarrow> c = CHR 0x20 \<or> c = CHR 0x09 \<or> c = CHR 0x0D \<or> c = CHR 0x0A"

definition skip_ws :: "bytes \<Rightarrow> bytes" where
  "skip_ws s = dropWhile is_ws s"

definition is_hex :: "char \<Rightarrow> bool" where
  "is_hex c \<longleftrightarrow> c \<in> set ''0123456789abcdefABCDEF''"

definition hex_val :: "char \<Rightarrow> nat" where
  "hex_val c =
     (let n = of_char c in if n \<le> 57 then n - 48 else if n \<le> 70 then n - 55 else n - 87)"

text \<open>The text of a string after its opening quote: its content and what follows the closing one.\<close>

fun scan_string :: "bytes \<Rightarrow> (bytes \<times> bytes) option" where
  "scan_string [] = None"
| "scan_string (c # s) =
     (if c = quote_char then Some ([], s)
      else if c = backslash then
        (case s of
           [] \<Rightarrow> None
         | e # s1 \<Rightarrow>
             if e \<in> {CHR ''b'', CHR ''f'', CHR ''n'', CHR ''r'', CHR ''t'', backslash, CHR ''/'', quote_char} then
               map_option (\<lambda>(a, r). (c # e # a, r)) (scan_string s1)
             else if e = CHR ''u'' then
               (case s1 of
                  h1 # h2 # h3 # h4 # s2 \<Rightarrow>
                    if is_hex h1 \<and> is_hex h2 \<and> is_hex h3 \<and> is_hex h4
                    then map_option (\<lambda>(a, r). (c # e # h1 # h2 # h3 # h4 # a, r)) (scan_string s2)
                    else None
                | _ \<Rightarrow> None)
             else None)
      else if (of_char c :: nat) < 0x20 then None
      else map_option (\<lambda>(a, r). (c # a, r)) (scan_string s))"

definition take_digits :: "bytes \<Rightarrow> bytes \<times> bytes" where
  "take_digits s = (takeWhile is_digit s, dropWhile is_digit s)"

definition scan_exp :: "bytes \<Rightarrow> (bytes \<times> bytes) option" where
  "scan_exp s =
     (case s of
        e # r \<Rightarrow>
          if e = CHR ''e'' \<or> e = CHR ''E'' then
            (let (sg, r1) = (case r of c # r' \<Rightarrow> if c = CHR ''+'' \<or> c = CHR ''-'' then ([c], r') else ([], r)
                                     | [] \<Rightarrow> ([], r));
                 (ds, r2) = take_digits r1
             in if ds = [] then None else Some (e # sg @ ds, r2))
          else Some ([], s)
      | [] \<Rightarrow> Some ([], s))"

definition scan_frac :: "bytes \<Rightarrow> (bytes \<times> bytes) option" where
  "scan_frac s =
     (case s of
        c # r \<Rightarrow>
          if c = CHR ''.'' then
            (let (ds, r1) = take_digits r
             in if ds = [] then None else map_option (\<lambda>(e, r2). (c # ds @ e, r2)) (scan_exp r1))
          else scan_exp s
      | [] \<Rightarrow> Some ([], s))"

definition scan_unsigned :: "bytes \<Rightarrow> (bytes \<times> bytes) option" where
  "scan_unsigned s =
     (case s of
        [] \<Rightarrow> None
      | c # r \<Rightarrow>
          if c = CHR ''0'' then map_option (\<lambda>(f, r1). (c # f, r1)) (scan_frac r)
          else if is_digit c then
            (let (ds, r1) = take_digits s in map_option (\<lambda>(f, r2). (ds @ f, r2)) (scan_frac r1))
          else None)"

definition scan_number :: "bytes \<Rightarrow> (bytes \<times> bytes) option" where
  "scan_number s =
     (case s of
        c # r \<Rightarrow> if c = CHR ''-'' then map_option (\<lambda>(n, r1). (c # n, r1)) (scan_unsigned r) else scan_unsigned s
      | [] \<Rightarrow> None)"

subsection \<open>Values\<close>

text \<open>
  A number and a string keep their literal text; an element and a member keep the text of the value;
  a member's first component is the literal text of its key.
\<close>

datatype json =
    JNull
  | JBool bool
  | JNum bytes
  | JStr bytes
  | JArr "(bytes \<times> json) list"
  | JObj "(bytes \<times> bytes \<times> json) list"

definition expect :: "char \<Rightarrow> bytes \<Rightarrow> bytes option" where
  "expect c s = (case s of [] \<Rightarrow> None | x # r \<Rightarrow> if x = c then Some r else None)"

definition text_before :: "bytes \<Rightarrow> bytes \<Rightarrow> bytes" where
  "text_before s r = take (length s - length r) s"

definition scan_literal :: "bytes \<Rightarrow> (json \<times> bytes) option" where
  "scan_literal s =
     (case cut_prefix s ''true'' of Some r \<Rightarrow> Some (JBool True, r) | None \<Rightarrow>
      (case cut_prefix s ''false'' of Some r \<Rightarrow> Some (JBool False, r) | None \<Rightarrow>
       (case cut_prefix s ''null'' of Some r \<Rightarrow> Some (JNull, r) | None \<Rightarrow>
         map_option (\<lambda>(n, r). (JNum n, r)) (scan_number s))))"

fun parse_value :: "nat \<Rightarrow> nat \<Rightarrow> bytes \<Rightarrow> (json \<times> bytes) option"
  and parse_elems :: "nat \<Rightarrow> nat \<Rightarrow> bytes \<Rightarrow> ((bytes \<times> json) list \<times> bytes) option"
  and parse_members :: "nat \<Rightarrow> nat \<Rightarrow> bytes \<Rightarrow> ((bytes \<times> bytes \<times> json) list \<times> bytes) option"
where
  "parse_value 0 d s = None"
| "parse_value (Suc n) d s =
     (case expect quote_char s of
        Some r \<Rightarrow> map_option (\<lambda>(l, r1). (JStr l, r1)) (scan_string r)
      | None \<Rightarrow>
     (case expect CHR ''['' s of
        Some r \<Rightarrow>
          if d = 0 then None
          else (case expect CHR '']'' (skip_ws r) of
                  Some r1 \<Rightarrow> Some (JArr [], r1)
                | None \<Rightarrow> map_option (\<lambda>(vs, r1). (JArr vs, r1)) (parse_elems n (d - 1) r))
      | None \<Rightarrow>
     (case expect CHR ''{'' s of
        Some r \<Rightarrow>
          if d = 0 then None
          else (case expect CHR ''}'' (skip_ws r) of
                  Some r1 \<Rightarrow> Some (JObj [], r1)
                | None \<Rightarrow> map_option (\<lambda>(ms, r1). (JObj ms, r1)) (parse_members n (d - 1) r))
      | None \<Rightarrow> scan_literal s)))"
| "parse_elems 0 d s = None"
| "parse_elems (Suc n) d s =
     (case parse_value n d (skip_ws s) of
        None \<Rightarrow> None
      | Some (v, r) \<Rightarrow>
          let raw = text_before (skip_ws s) r
          in case expect CHR '','' (skip_ws r) of
               Some r1 \<Rightarrow> map_option (\<lambda>(vs, r2). ((raw, v) # vs, r2)) (parse_elems n d r1)
             | None \<Rightarrow> map_option (\<lambda>r1. ([(raw, v)], r1)) (expect CHR '']'' (skip_ws r)))"
| "parse_members 0 d s = None"
| "parse_members (Suc n) d s =
     (case expect quote_char (skip_ws s) of None \<Rightarrow> None | Some s1 \<Rightarrow>
     (case scan_string s1 of None \<Rightarrow> None | Some (k, s2) \<Rightarrow>
     (case expect CHR '':'' (skip_ws s2) of None \<Rightarrow> None | Some s3 \<Rightarrow>
     (case parse_value n d (skip_ws s3) of
        None \<Rightarrow> None
      | Some (v, r) \<Rightarrow>
          let raw = text_before (skip_ws s3) r
          in case expect CHR '','' (skip_ws r) of
               Some r1 \<Rightarrow> map_option (\<lambda>(ms, r2). ((k, raw, v) # ms, r2)) (parse_members n d r1)
             | None \<Rightarrow> map_option (\<lambda>r1. ([(k, raw, v)], r1)) (expect CHR ''}'' (skip_ws r))))))"

text \<open>Nesting deeper than 10000 is an error.\<close>

definition max_depth :: nat where
  "max_depth = 10000"

definition parse_json :: "bytes \<Rightarrow> json option" where
  "parse_json s =
     (case parse_value (2 * length s + 1) max_depth (skip_ws s) of
        Some (v, r) \<Rightarrow> if skip_ws r = [] then Some v else None
      | None \<Rightarrow> None)"

subsection \<open>Strings: UTF-8, unquoting and quoting\<close>

text \<open>
  \<open>utf8_len s\<close> is the length of the UTF-8 sequence at the head of \<open>s\<close>, 0 when there is none
  that is valid (\<open>utf8.DecodeRune\<close> returns \<open>RuneError\<close> with width 1 there).
\<close>

definition in_range :: "nat \<Rightarrow> nat \<Rightarrow> char \<Rightarrow> bool" where
  "in_range a b c \<longleftrightarrow> a \<le> of_char c \<and> of_char c \<le> b"

definition utf8_len :: "bytes \<Rightarrow> nat" where
  "utf8_len s =
     (case s of
        [] \<Rightarrow> 0
      | a # r \<Rightarrow>
          if in_range 0 0x7F a then 1
          else if in_range 0xC2 0xDF a then
            (case r of b # _ \<Rightarrow> if in_range 0x80 0xBF b then 2 else 0 | _ \<Rightarrow> 0)
          else if in_range 0xE0 0xEF a then
            (case r of b # c # _ \<Rightarrow>
               if in_range (if a = CHR 0xE0 then 0xA0 else 0x80) (if a = CHR 0xED then 0x9F else 0xBF) b
                  \<and> in_range 0x80 0xBF c then 3 else 0
             | _ \<Rightarrow> 0)
          else if in_range 0xF0 0xF4 a then
            (case r of b # c # d # _ \<Rightarrow>
               if in_range (if a = CHR 0xF0 then 0x90 else 0x80) (if a = CHR 0xF4 then 0x8F else 0xBF) b
                  \<and> in_range 0x80 0xBF c \<and> in_range 0x80 0xBF d then 4 else 0
             | _ \<Rightarrow> 0)
          else 0)"

definition utf8_encode :: "nat \<Rightarrow> bytes" where
  "utf8_encode r =
     (if r < 0x80 then [char_of r]
      else if r < 0x800 then [char_of (0xC0 + r div 64), char_of (0x80 + r mod 64)]
      else if r < 0x10000 then
        [char_of (0xE0 + r div 4096), char_of (0x80 + r div 64 mod 64), char_of (0x80 + r mod 64)]
      else
        [char_of (0xF0 + r div 262144), char_of (0x80 + r div 4096 mod 64),
         char_of (0x80 + r div 64 mod 64), char_of (0x80 + r mod 64)])"

definition replacement :: bytes where
  "replacement = [CHR 0xEF, CHR 0xBF, CHR 0xBD]"

fun getu4 :: "bytes \<Rightarrow> (nat \<times> bytes) option" where
  "getu4 (b # u # h1 # h2 # h3 # h4 # s) =
     (if b = backslash \<and> u = CHR ''u'' \<and> is_hex h1 \<and> is_hex h2 \<and> is_hex h3 \<and> is_hex h4
      then Some (((hex_val h1 * 16 + hex_val h2) * 16 + hex_val h3) * 16 + hex_val h4, s) else None)"
| "getu4 _ = None"

definition unescape :: "char \<Rightarrow> char" where
  "unescape e =
     (if e = CHR ''b'' then CHR 0x08 else if e = CHR ''f'' then CHR 0x0C else if e = CHR ''n'' then CHR 0x0A
      else if e = CHR ''r'' then CHR 0x0D else if e = CHR ''t'' then CHR 0x09 else e)"

lemma getu4_shorter: "getu4 s = Some (r, s') \<Longrightarrow> length s' + 6 = length s"
  by (cases s rule: getu4.cases) (auto split: if_splits)

function unquote :: "bytes \<Rightarrow> bytes" where
  "unquote s =
     (case s of
        [] \<Rightarrow> []
      | c # s1 \<Rightarrow>
          if c = backslash then
            (case getu4 s of
               Some (r, s2) \<Rightarrow>
                 if 0xD800 \<le> r \<and> r < 0xE000 then
                   (case getu4 s2 of
                      Some (r1, s3) \<Rightarrow>
                        if r < 0xDC00 \<and> 0xDC00 \<le> r1 \<and> r1 < 0xE000
                        then utf8_encode ((r - 0xD800) * 1024 + (r1 - 0xDC00) + 0x10000) @ unquote s3
                        else replacement @ unquote s2
                    | None \<Rightarrow> replacement @ unquote s2)
                 else utf8_encode r @ unquote s2
             | None \<Rightarrow> (case s1 of [] \<Rightarrow> [] | e # s2 \<Rightarrow> unescape e # unquote s2))
          else
            (let n = utf8_len s
             in if n = 0 then replacement @ unquote s1 else take n s @ unquote (drop n s)))"
  by pat_completeness auto

termination
  by (relation "measure length") (auto dest!: getu4_shorter)

declare unquote.simps [simp del]

text \<open>\<open>appendString\<close> with HTML escaping, which \<open>json.Marshal\<close> uses.\<close>

definition u_escape :: "nat \<Rightarrow> bytes" where
  "u_escape n = [backslash, CHR ''u'', hex_digit (n div 4096), hex_digit (n div 256 mod 16),
     hex_digit (n div 16 mod 16), hex_digit (n mod 16)]"

definition html_char :: "char \<Rightarrow> bool" where
  "html_char c \<longleftrightarrow> c = CHR ''<'' \<or> c = CHR ''>'' \<or> c = CHR ''&''"

definition escape_ascii :: "char \<Rightarrow> bytes" where
  "escape_ascii c =
     (if c = quote_char \<or> c = backslash then [backslash, c]
      else if c = CHR 0x08 then [backslash, CHR ''b''] else if c = CHR 0x0C then [backslash, CHR ''f'']
      else if c = CHR 0x0A then [backslash, CHR ''n''] else if c = CHR 0x0D then [backslash, CHR ''r'']
      else if c = CHR 0x09 then [backslash, CHR ''t'']
      else if (of_char c :: nat) < 0x20 \<or> html_char c then u_escape (of_char c)
      else [c])"

definition line_sep :: "bytes \<Rightarrow> nat option" where
  "line_sep s =
     (if take 3 s = [CHR 0xE2, CHR 0x80, CHR 0xA8] then Some 0x2028
      else if take 3 s = [CHR 0xE2, CHR 0x80, CHR 0xA9] then Some 0x2029 else None)"

function escape_string :: "bytes \<Rightarrow> bytes" where
  "escape_string s =
     (case s of
        [] \<Rightarrow> []
      | c # s1 \<Rightarrow>
          if (of_char c :: nat) < 0x80 then escape_ascii c @ escape_string s1
          else
            (let n = utf8_len s
             in if n = 0 then u_escape 0xFFFD @ escape_string s1
                else (case line_sep s of Some r \<Rightarrow> u_escape r | None \<Rightarrow> take n s) @ escape_string (drop n s)))"
  by pat_completeness auto

termination
  by (relation "measure length") auto

declare escape_string.simps [simp del]

definition quote_string :: "bytes \<Rightarrow> bytes" where
  "quote_string s = quote_char # escape_string s @ [quote_char]"

text \<open>\<open>appendCompact\<close> with HTML escaping, on the text of a valid value.\<close>

function compact :: "bool \<Rightarrow> bytes \<Rightarrow> bytes" where
  "compact in_str s =
     (case s of
        [] \<Rightarrow> []
      | c # s1 \<Rightarrow>
          if \<not> in_str then
            (if is_ws c then compact False s1 else c # compact (c = quote_char) s1)
          else if c = quote_char then c # compact False s1
          else if c = backslash then (case s1 of [] \<Rightarrow> [c] | e # s2 \<Rightarrow> c # e # compact True s2)
          else if html_char c then u_escape (of_char c) @ compact True s1
          else (case line_sep s of
                  Some r \<Rightarrow> u_escape r @ compact True (drop 3 s)
                | None \<Rightarrow> c # compact True s1))"
  by pat_completeness auto

termination
  by (relation "measure (\<lambda>(b, s). length s)") auto

declare compact.simps [simp del]

subsection \<open>Integers\<close>

text \<open>A number decodes into a Go \<open>int\<close> when \<open>strconv.ParseInt\<close> accepts its literal text.\<close>

definition ParseInt :: "bytes \<Rightarrow> int option" where
  "ParseInt s =
     (let (neg, ds) = (case s of c # r \<Rightarrow> if c = CHR ''-'' then (True, r) else (False, s) | [] \<Rightarrow> (False, s));
          n = (if neg then - int (undigits ds) else int (undigits ds))
      in if ds \<noteq> [] \<and> list_all is_digit ds \<and> in_int64 n then Some n else None)"

subsection \<open>Decoding\<close>

text \<open>
  A decoder takes the text of a value, the value, and what the Go variable holds; it returns what
  the variable holds afterwards and whether there was no error.
\<close>

type_synonym 'a decoder = "bytes \<Rightarrow> json \<Rightarrow> 'a \<Rightarrow> 'a \<times> bool"

definition dec_string :: "bytes decoder" where
  "dec_string raw j x = (case j of JStr l \<Rightarrow> (unquote l, True) | JNull \<Rightarrow> (x, True) | _ \<Rightarrow> (x, False))"

definition dec_int :: "int decoder" where
  "dec_int raw j x =
     (case j of
        JNum t \<Rightarrow> (case ParseInt t of Some n \<Rightarrow> (n, True) | None \<Rightarrow> (x, False))
      | JNull \<Rightarrow> (x, True)
      | _ \<Rightarrow> (x, False))"

text \<open>A pointer is allocated before its target is decoded, and kept when the key occurs again.\<close>

definition dec_ptr :: "'a \<Rightarrow> 'a decoder \<Rightarrow> 'a option decoder" where
  "dec_ptr zero d raw j x =
     (if j = JNull then (None, True)
      else case d raw j (case x of Some v \<Rightarrow> v | None \<Rightarrow> zero) of (v, ok) \<Rightarrow> (Some v, ok))"

definition dec_raw :: "bytes decoder" where
  "dec_raw raw j x = (raw, True)"

text \<open>\<open>[]json.RawMessage\<close>; a nil slice and an empty one are both \<open>[]\<close>.\<close>

definition dec_raws :: "bytes list decoder" where
  "dec_raws raw j x = (case j of JArr vs \<Rightarrow> (map fst vs, True) | JNull \<Rightarrow> ([], True) | _ \<Rightarrow> (x, False))"

text \<open>\<open>map[string]json.RawMessage\<close>: \<open>None\<close> is the nil map, an allocated map an association list.\<close>

definition dec_map :: "(bytes \<times> bytes) list option decoder" where
  "dec_map raw j x =
     (case j of
        JObj ms \<Rightarrow> (Some (foldl (\<lambda>m (k, r, v). AList.update (unquote k) r m)
                      (case x of Some m \<Rightarrow> m | None \<Rightarrow> []) ms), True)
      | JNull \<Rightarrow> (None, True)
      | _ \<Rightarrow> (x, False))"

text \<open>
  A key selects the field with its exact name, or else the first one with the same name up to
  simple case folding (ASCII letters, and U+017F and U+212A, which fold to S and K).
\<close>

fun fold_key :: "bytes \<Rightarrow> bytes" where
  "fold_key [] = []"
| "fold_key (a # s) =
     (if a = CHR 0xC5 \<and> take 1 s = [CHR 0xBF] then CHR ''S'' # fold_key (drop 1 s)
      else if a = CHR 0xE2 \<and> take 2 s = [CHR 0x84, CHR 0xAA] then CHR ''K'' # fold_key (drop 2 s)
      else (if CHR ''a'' \<le> a \<and> a \<le> CHR ''z'' then char_of (of_char a - 32 :: nat) else a) # fold_key s)"

type_synonym 'a field = "bytes \<times> 'a decoder"

definition field :: "bytes \<Rightarrow> ('a \<Rightarrow> 'b) \<Rightarrow> ('b \<Rightarrow> 'a \<Rightarrow> 'a) \<Rightarrow> 'b decoder \<Rightarrow> 'a field" where
  "field name get put d = (name, \<lambda>raw j x. case d raw j (get x) of (v, ok) \<Rightarrow> (put v x, ok))"

definition find_field :: "'a field list \<Rightarrow> bytes \<Rightarrow> 'a decoder option" where
  "find_field fs key =
     (case map_of fs key of
        Some d \<Rightarrow> Some d
      | None \<Rightarrow> map_of (map (\<lambda>(n, d). (fold_key n, d)) fs) (fold_key key))"

definition dec_member :: "'a field list \<Rightarrow> 'a \<times> bool \<Rightarrow> bytes \<times> bytes \<times> json \<Rightarrow> 'a \<times> bool" where
  "dec_member fs = (\<lambda>(x, ok) (k, raw, v).
     case find_field fs (unquote k) of
       None \<Rightarrow> (x, ok)
     | Some d \<Rightarrow> (case d raw v x of (x', ok') \<Rightarrow> (x', ok \<and> ok')))"

definition dec_struct :: "'a field list \<Rightarrow> 'a decoder" where
  "dec_struct fs raw j x =
     (case j of
        JObj ms \<Rightarrow> foldl (dec_member fs) (x, True) ms
      | JNull \<Rightarrow> (x, True)
      | _ \<Rightarrow> (x, False))"

definition Unmarshal :: "'a decoder \<Rightarrow> bytes \<Rightarrow> 'a \<Rightarrow> 'a \<times> bool" where
  "Unmarshal d data x = (case parse_json data of None \<Rightarrow> (x, False) | Some j \<Rightarrow> d data j x)"

subsection \<open>Encoding a map of raw values\<close>

text \<open>\<open>json.Marshal\<close> of a \<open>map[string]json.RawMessage\<close>: sorted keys, compacted values.\<close>

definition member_text :: "bytes \<times> bytes \<Rightarrow> bytes" where
  "member_text kv = quote_string (fst kv) @ CHR '':'' # compact False (snd kv)"

fun join_comma :: "bytes list \<Rightarrow> bytes" where
  "join_comma [] = []"
| "join_comma [x] = x"
| "join_comma (x # xs) = x @ CHR '','' # join_comma xs"

definition Marshal_map :: "(bytes \<times> bytes) list \<Rightarrow> bytes" where
  "Marshal_map m = CHR ''{'' # join_comma (map member_text (sort_key fst m)) @ [CHR ''}'']"

subsection \<open>The parser consumes text and does not depend on its fuel\<close>

lemma expect_Some: "expect c s = Some r \<longleftrightarrow> s = c # r"
  by (auto simp: expect_def split: list.splits)

lemma expect_Cons [simp]: "expect c (x # r) = (if x = c then Some r else None)" "expect c [] = None"
  by (simp_all add: expect_def)

lemma skip_ws_suffix: "\<exists>w. s = w @ skip_ws s"
  unfolding skip_ws_def by (metis takeWhile_dropWhile_id)

lemma length_skip_ws: "length (skip_ws s) \<le> length s"
  by (simp add: skip_ws_def length_dropWhile_le)

lemma skip_ws_idem [simp]: "skip_ws (skip_ws s) = skip_ws s"
  by (simp add: skip_ws_def dropWhile_idem)

lemma scan_string_text: "scan_string s = Some (a, r) \<Longrightarrow> s = a @ quote_char # r"
proof (induction s arbitrary: a r rule: scan_string.induct)
  case 1 then show ?case by simp
next
  case (2 c s)
  show ?case
  proof (cases "c = backslash")
    case False
    then show ?thesis using "2.prems" "2.IH"(3)
      by (cases "c = quote_char"; cases "(of_char c :: nat) < 0x20") auto
  next
    case c: True
    show ?thesis
    proof (cases s)
      case Nil then show ?thesis using "2.prems" c by simp
    next
      case (Cons e s1)
      let ?simple = "e \<in> {CHR ''b'', CHR ''f'', CHR ''n'', CHR ''r'', CHR ''t'', backslash, CHR ''/'', quote_char}"
      show ?thesis
      proof (cases ?simple)
        case True
        obtain a' where "scan_string s1 = Some (a', r)" "a = c # e # a'"
          using "2.prems" c Cons True by (auto split: option.splits)
        then show ?thesis using "2.IH"(1) [OF _ c Cons True] c Cons by auto
      next
        case False
        then obtain h1 h2 h3 h4 s2 a' where u: "e = CHR ''u''" "s1 = h1 # h2 # h3 # h4 # s2"
            "is_hex h1 \<and> is_hex h2 \<and> is_hex h3 \<and> is_hex h4"
            "scan_string s2 = Some (a', r)" "a = c # e # h1 # h2 # h3 # h4 # a'"
          using "2.prems" c Cons by (auto split: list.splits if_splits)
        have "s2 = a' @ quote_char # r" using "2.IH"(2) [OF _ c Cons False u(1,2) refl refl refl u(3,4)] c by auto
        then show ?thesis using u Cons by simp
      qed
    qed
  qed
qed

lemma take_digits_text: "take_digits s = (ds, r) \<Longrightarrow> s = ds @ r"
  by (auto simp: take_digits_def)

lemma scan_exp_text: "scan_exp s = Some (n, r) \<Longrightarrow> s = n @ r"
  by (auto simp: scan_exp_def dest!: take_digits_text split: list.splits if_splits prod.splits)

lemma scan_frac_text: "scan_frac s = Some (n, r) \<Longrightarrow> s = n @ r"
  by (auto simp: scan_frac_def dest!: take_digits_text scan_exp_text split: list.splits if_splits prod.splits)

lemma scan_unsigned_text: "scan_unsigned s = Some (n, r) \<Longrightarrow> s = n @ r \<and> n \<noteq> []"
proof (cases s)
  case (Cons c t)
  assume a: "scan_unsigned s = Some (n, r)"
  show ?thesis
  proof (cases "c = CHR ''0''")
    case True
    with a Cons show ?thesis by (auto simp: scan_unsigned_def dest!: scan_frac_text)
  next
    case False
    with a Cons obtain f where d: "is_digit c" and f: "scan_frac (dropWhile is_digit s) = Some (f, r)"
        "n = takeWhile is_digit s @ f"
      by (auto simp: scan_unsigned_def take_digits_def split: if_splits)
    from scan_frac_text [OF f(1)] have "s = takeWhile is_digit s @ f @ r" by (metis takeWhile_dropWhile_id)
    with f(2) d Cons show ?thesis by simp
  qed
qed (simp add: scan_unsigned_def)

lemma scan_number_text: "scan_number s = Some (n, r) \<Longrightarrow> s = n @ r \<and> n \<noteq> []"
  by (auto simp: scan_number_def dest!: scan_unsigned_text split: list.splits if_splits)

text \<open>\<open>cuts s r\<close>: \<open>r\<close> is what is left of \<open>s\<close> after a non-empty prefix.\<close>

definition cuts :: "bytes \<Rightarrow> bytes \<Rightarrow> bool" where
  "cuts s r \<longleftrightarrow> (\<exists>p. s = p @ r \<and> p \<noteq> [])"

lemma cuts_trans: "cuts s r \<Longrightarrow> cuts r t \<Longrightarrow> cuts s t"
  by (auto simp: cuts_def)

lemma cuts_skip_ws: "cuts (skip_ws s) r \<Longrightarrow> cuts s r"
  using skip_ws_suffix [of s] by (auto simp: cuts_def)

lemma cuts_expect: "expect c s = Some r \<Longrightarrow> cuts s r"
  by (auto simp: cuts_def expect_Some)

lemma cuts_expect_ws: "expect c (skip_ws s) = Some r \<Longrightarrow> cuts s r"
  by (auto dest: cuts_expect cuts_skip_ws)

lemma cuts_string: "scan_string s = Some (a, r) \<Longrightarrow> cuts s r"
  by (force simp: cuts_def dest: scan_string_text)

lemma cuts_length: "cuts s r \<Longrightarrow> length r < length s"
  by (auto simp: cuts_def)

lemma cuts_literal: "scan_literal s = Some (v, r) \<Longrightarrow> cuts s r"
  by (auto simp: cuts_def scan_literal_def cut_prefix_Some dest!: scan_number_text split: option.splits)

lemma text_before_cuts: "cuts s r \<Longrightarrow> s = text_before s r @ r"
  by (auto simp: cuts_def text_before_def)

lemmas cuts_intros = cuts_expect cuts_expect_ws cuts_string cuts_literal

lemma parse_cuts:
  "(\<forall>d s v r. parse_value n d s = Some (v, r) \<longrightarrow> cuts s r)
   \<and> (\<forall>d s vs r. parse_elems n d s = Some (vs, r) \<longrightarrow> cuts s r)
   \<and> (\<forall>d s ms r. parse_members n d s = Some (ms, r) \<longrightarrow> cuts s r)"
proof (induction n)
  case (Suc n)
  then have IH: "parse_value n d s = Some (v, r) \<Longrightarrow> cuts s r"
    "parse_elems n d s = Some (vs, r) \<Longrightarrow> cuts s r"
    "parse_members n d s = Some (ms, r) \<Longrightarrow> cuts s r" for d s v vs ms r by blast+
  have "cuts s r" if "parse_value (Suc n) d s = Some (v, r)" for d s v r
    using that by (auto split: option.splits if_splits dest!: IH dest: cuts_intros intro: cuts_trans)
  moreover have "cuts s r" if "parse_elems (Suc n) d s = Some (vs, r)" for d s vs r
    using that by (auto simp: Let_def split: option.splits dest!: IH cuts_skip_ws cuts_expect_ws) (meson cuts_trans)+
  moreover have "cuts s r" if "parse_members (Suc n) d s = Some (ms, r)" for d s ms r
  proof -
    note asm = that
    obtain s1 k s2 s3 v r1 where a: "expect quote_char (skip_ws s) = Some s1" "scan_string s1 = Some (k, s2)"
        "expect CHR '':'' (skip_ws s2) = Some s3" "parse_value n d (skip_ws s3) = Some (v, r1)"
      using asm by (auto split: option.splits)
    then have "cuts s r1" by (meson cuts_intros cuts_trans IH(1) cuts_skip_ws)
    moreover have "cuts r1 r"
      using that a by (auto simp: Let_def split: option.splits dest!: IH(3) cuts_expect_ws) (meson cuts_trans)+
    ultimately show ?thesis by (rule cuts_trans)
  qed
  ultimately show ?case by blast
qed simp

lemmas parse_value_cuts = parse_cuts [THEN conjunct1, rule_format]
lemmas parse_elems_cuts = parse_cuts [THEN conjunct2, THEN conjunct1, rule_format]
lemmas parse_members_cuts = parse_cuts [THEN conjunct2, THEN conjunct2, rule_format]

declare parse_value.simps(2) [simp del] parse_elems.simps(2) [simp del] parse_members.simps(2) [simp del]

lemma parse_fuel_step:
  "(\<forall>d s. 2 * length s < n \<longrightarrow> parse_value n d s = parse_value (Suc n) d s)
   \<and> (\<forall>d s. 2 * length s + 1 < n \<longrightarrow> parse_elems n d s = parse_elems (Suc n) d s)
   \<and> (\<forall>d s. 2 * length s + 1 < n \<longrightarrow> parse_members n d s = parse_members (Suc n) d s)"
proof (induction n)
  case (Suc n)
  then have V: "2 * length s < n \<Longrightarrow> parse_value n d s = parse_value (Suc n) d s"
    and E: "2 * length s + 1 < n \<Longrightarrow> parse_elems n d s = parse_elems (Suc n) d s"
    and M: "2 * length s + 1 < n \<Longrightarrow> parse_members n d s = parse_members (Suc n) d s" for d s
    by blast+
  have "parse_value (Suc n) d s = parse_value (Suc (Suc n)) d s" if "2 * length s < Suc n" for d s
  proof -
    have "parse_elems n e r = parse_elems (Suc n) e r" "parse_members n e r = parse_members (Suc n) e r"
      if "expect c s = Some r" for c e r
      using that \<open>2 * length s < Suc n\<close> by (auto simp: expect_Some intro!: E M)
    then show ?thesis
      by (subst (1 2) parse_value.simps(2)) (auto split: option.split)
  qed
  moreover have "parse_elems (Suc n) d s = parse_elems (Suc (Suc n)) d s" if l: "2 * length s + 1 < Suc n" for d s
  proof -
    have v: "parse_value n d (skip_ws s) = parse_value (Suc n) d (skip_ws s)"
      using l length_skip_ws [of s] by (intro V) linarith
    have "parse_elems n d r1 = parse_elems (Suc n) d r1"
      if "parse_value (Suc n) d (skip_ws s) = Some (x, r)" "expect c (skip_ws r) = Some r1" for x r c r1
      using cuts_length [OF parse_value_cuts [OF that(1)]] cuts_length [OF cuts_expect_ws [OF that(2)]]
        l length_skip_ws [of s] by (intro E) linarith
    with v show ?thesis
      by (subst (1 2) parse_elems.simps(2)) (auto simp: Let_def split: option.split)
  qed
  moreover have "parse_members (Suc n) d s = parse_members (Suc (Suc n)) d s" if l: "2 * length s + 1 < Suc n" for d s
  proof -
    have v: "parse_value n d (skip_ws s3) = parse_value (Suc n) d (skip_ws s3)"
      and m: "\<And>x r r1 c'. parse_value (Suc n) d (skip_ws s3) = Some (x, r) \<Longrightarrow> expect c' (skip_ws r) = Some r1 \<Longrightarrow>
        parse_members n d r1 = parse_members (Suc n) d r1"
      if "expect quote_char (skip_ws s) = Some s1" "scan_string s1 = Some (k, s2)" "expect c (skip_ws s2) = Some s3"
      for s1 s2 s3 k c
    proof -
      have 3: "length s3 < length s"
        using that by (meson cuts_length cuts_intros cuts_trans)
      show "parse_value n d (skip_ws s3) = parse_value (Suc n) d (skip_ws s3)"
        using l 3 length_skip_ws [of s3] by (intro V) linarith
      show "parse_members n d r1 = parse_members (Suc n) d r1"
        if "parse_value (Suc n) d (skip_ws s3) = Some (x, r)" "expect c' (skip_ws r) = Some r1" for x r r1 c'
        using cuts_length [OF parse_value_cuts [OF that(1)]] cuts_length [OF cuts_expect_ws [OF that(2)]]
          l 3 length_skip_ws [of s3] by (intro M) linarith
    qed
    then show ?thesis
      by (subst (1 2) parse_members.simps(2)) (auto simp: Let_def split: option.split)
  qed
  ultimately show ?case by blast
qed simp

lemma parse_fuel: "2 * length s < n \<Longrightarrow> n \<le> m \<Longrightarrow> parse_value m d s = parse_value n d s"
proof (induction m)
  case (Suc m)
  then show ?case using parse_fuel_step [of m] by (cases "n = Suc m") auto
qed simp

lemma parse_json_value:
  assumes "2 * length s < n"
  shows "parse_json s = (case parse_value n max_depth (skip_ws s) of
     Some (v, r) \<Rightarrow> if skip_ws r = [] then Some v else None | None \<Rightarrow> None)"
proof -
  have "parse_value n max_depth (skip_ws s) = parse_value (2 * length s + 1) max_depth (skip_ws s)"
    using assms length_skip_ws [of s] by (intro parse_fuel) auto
  then show ?thesis by (simp only: parse_json_def)
qed

end
