(* ===== verification/Extract.thy ===== *)
theory Extract
  imports GoJson Http
begin

section \<open>Extract: usage extractors and the SSE relay\<close>

text \<open>
  \<open>internal/proxy/extract.go\<close>. The extractors decode each event's data and keep the token
  usage seen so far; \<open>streamSSE\<close> relays a stream event by event while they watch.
\<close>

record Usage =
  us_InputTokens :: int
  us_OutputTokens :: int
  us_Model :: bytes
  HasUsage :: bool

definition zero_Usage :: Usage where
  "zero_Usage = \<lparr>us_InputTokens = 0, us_OutputTokens = 0, us_Model = [], HasUsage = False\<rparr>"

subsection \<open>OpenAI\<close>

record openai_usage =
  PromptTokens :: int
  CompletionTokens :: int

record openai_chunk =
  oc_Model :: bytes
  oc_Usage :: "openai_usage option"

definition openai_usage_fields :: "openai_usage field list" where
  "openai_usage_fields =
     [field ''prompt_tokens'' PromptTokens (\<lambda>v c. c\<lparr>PromptTokens := v\<rparr>) dec_int,
      field ''completion_tokens'' CompletionTokens (\<lambda>v c. c\<lparr>CompletionTokens := v\<rparr>) dec_int]"

definition openai_chunk_fields :: "openai_chunk field list" where
  "openai_chunk_fields =
     [field ''model'' oc_Model (\<lambda>v c. c\<lparr>oc_Model := v\<rparr>) dec_string,
      field ''usage'' oc_Usage (\<lambda>v c. c\<lparr>oc_Usage := v\<rparr>)
        (dec_ptr \<lparr>PromptTokens = 0, CompletionTokens = 0\<rparr> (dec_struct openai_usage_fields))]"

definition openai_observe :: "bytes \<Rightarrow> Usage \<Rightarrow> Usage" where
  "openai_observe data u =
     (case Unmarshal (dec_struct openai_chunk_fields) data \<lparr>oc_Model = [], oc_Usage = None\<rparr> of
        (c, False) \<Rightarrow> u
      | (c, True) \<Rightarrow>
          let u1 = (if oc_Model c \<noteq> [] then u\<lparr>us_Model := oc_Model c\<rparr> else u)
          in case oc_Usage c of
               None \<Rightarrow> u1
             | Some us \<Rightarrow> u1\<lparr>us_InputTokens := PromptTokens us, us_OutputTokens := CompletionTokens us, HasUsage := True\<rparr>)"

record usage_only_chunk =
  uc_Choices :: "bytes list"
  uc_Usage :: bytes

definition usage_only_fields :: "usage_only_chunk field list" where
  "usage_only_fields =
     [field ''choices'' uc_Choices (\<lambda>v c. c\<lparr>uc_Choices := v\<rparr>) dec_raws,
      field ''usage'' uc_Usage (\<lambda>v c. c\<lparr>uc_Usage := v\<rparr>) dec_raw]"

definition isOpenAIUsageOnly :: "bytes \<Rightarrow> bool" where
  "isOpenAIUsageOnly data =
     (case Unmarshal (dec_struct usage_only_fields) data \<lparr>uc_Choices = [], uc_Usage = []\<rparr> of
        (c, False) \<Rightarrow> False
      | (c, True) \<Rightarrow> uc_Choices c = [] \<and> uc_Usage c \<noteq> [] \<and> uc_Usage c \<noteq> ''null'')"

subsection \<open>Anthropic\<close>

record anthropic_usage =
  au_InputTokens :: int
  au_OutputTokens :: int

record anthropic_message =
  am_Model :: bytes
  am_Usage :: "anthropic_usage option"

record anthropic_event =
  ae_Type :: bytes
  ae_Message :: "anthropic_message option"
  ae_Usage :: "int option"

definition zero_anthropic_usage :: anthropic_usage where
  "zero_anthropic_usage = \<lparr>au_InputTokens = 0, au_OutputTokens = 0\<rparr>"

definition anthropic_usage_fields :: "anthropic_usage field list" where
  "anthropic_usage_fields =
     [field ''input_tokens'' au_InputTokens (\<lambda>v c. c\<lparr>au_InputTokens := v\<rparr>) dec_int,
      field ''output_tokens'' au_OutputTokens (\<lambda>v c. c\<lparr>au_OutputTokens := v\<rparr>) dec_int]"

definition anthropic_message_fields :: "anthropic_message field list" where
  "anthropic_message_fields =
     [field ''model'' am_Model (\<lambda>v c. c\<lparr>am_Model := v\<rparr>) dec_string,
      field ''usage'' am_Usage (\<lambda>v c. c\<lparr>am_Usage := v\<rparr>)
        (dec_ptr zero_anthropic_usage (dec_struct anthropic_usage_fields))]"

text \<open>The event's own usage is a struct of the one field \<open>output_tokens\<close>.\<close>

definition anthropic_event_fields :: "anthropic_event field list" where
  "anthropic_event_fields =
     [field ''type'' ae_Type (\<lambda>v c. c\<lparr>ae_Type := v\<rparr>) dec_string,
      field ''message'' ae_Message (\<lambda>v c. c\<lparr>ae_Message := v\<rparr>)
        (dec_ptr \<lparr>am_Model = [], am_Usage = None\<rparr> (dec_struct anthropic_message_fields)),
      field ''usage'' ae_Usage (\<lambda>v c. c\<lparr>ae_Usage := v\<rparr>)
        (dec_ptr 0 (dec_struct [field ''output_tokens'' (\<lambda>n. n) (\<lambda>v n. v) dec_int]))]"

definition anthropic_observe :: "bytes \<Rightarrow> Usage \<Rightarrow> Usage" where
  "anthropic_observe data u =
     (case Unmarshal (dec_struct anthropic_event_fields) data
         \<lparr>ae_Type = [], ae_Message = None, ae_Usage = None\<rparr> of
        (ev, False) \<Rightarrow> u
      | (ev, True) \<Rightarrow>
          if ae_Type ev = ''message_start'' then
            (case ae_Message ev of
               None \<Rightarrow> u
             | Some m \<Rightarrow>
                 let u1 = (if am_Model m \<noteq> [] then u\<lparr>us_Model := am_Model m\<rparr> else u)
                 in case am_Usage m of
                      None \<Rightarrow> u1
                    | Some us \<Rightarrow> u1\<lparr>us_InputTokens := au_InputTokens us, us_OutputTokens := au_OutputTokens us\<rparr>)
          else if ae_Type ev = ''message_delta'' then
            (case ae_Usage ev of
               None \<Rightarrow> u
             | Some n \<Rightarrow> u\<lparr>us_OutputTokens := n, HasUsage := True\<rparr>)
          else u)"

subsection \<open>Whole bodies\<close>

definition openaiNonStreamUsage :: "bytes \<Rightarrow> Usage" where
  "openaiNonStreamUsage body = openai_observe body zero_Usage"

definition anthropicNonStreamUsage :: "bytes \<Rightarrow> Usage" where
  "anthropicNonStreamUsage body =
     (case Unmarshal (dec_struct anthropic_message_fields) body \<lparr>am_Model = [], am_Usage = None\<rparr> of
        (m, False) \<Rightarrow> zero_Usage
      | (m, True) \<Rightarrow>
          let u = zero_Usage\<lparr>us_Model := am_Model m\<rparr>
          in case am_Usage m of
               None \<Rightarrow> u
             | Some us \<Rightarrow> u\<lparr>us_InputTokens := au_InputTokens us, us_OutputTokens := au_OutputTokens us, HasUsage := True\<rparr>)"

subsection \<open>The relay\<close>

text \<open>
  \<open>wr\<close> writes one chunk to the destination and flushes it: the new state of the destination, and
  whether the write succeeded. \<open>observe\<close> is the extractor's method, \<open>drp\<close> the filter
  (\<open>None\<close> is Go's nil). \<open>eof\<close> tells how the source ended: \<open>None\<close> for \<open>io.EOF\<close>.
\<close>

type_synonym 'w writer_fn = "'w \<Rightarrow> bytes \<Rightarrow> 'w \<times> bool"

datatype relay_error = WriteError | ReadError

record ('w, 'u) relay =
  dst :: 'w
  ext :: 'u
  raw :: bytes
  dataLines :: "bytes list"

definition flushEvent :: "'w writer_fn \<Rightarrow> (bytes \<Rightarrow> 'u \<Rightarrow> 'u) \<Rightarrow> (bytes list \<Rightarrow> bool) option \<Rightarrow>
    ('w, 'u) relay \<Rightarrow> ('w, 'u) relay \<times> bool" where
  "flushEvent wr observe drp s =
     (if raw s = [] then (s, True)
      else
        let s1 = s\<lparr>ext := fold observe (dataLines s) (ext s)\<rparr>;
            forward = (case drp of None \<Rightarrow> True | Some f \<Rightarrow> \<not> f (dataLines s));
            s2 = s1\<lparr>raw := [], dataLines := []\<rparr>
        in if forward then (case wr (dst s) (raw s) of (w, ok) \<Rightarrow> (s2\<lparr>dst := w\<rparr>, ok))
           else (s2, True))"

text \<open>One line, its newline included, added to the event.\<close>

definition trimmed_line :: "bytes \<Rightarrow> bytes" where
  "trimmed_line line = TrimRight line [CHR 0x0D, CHR 0x0A]"

definition is_blank :: "bytes \<Rightarrow> bool" where
  "is_blank line \<longleftrightarrow> TrimSpace (trimmed_line line) = []"

definition sse_line :: "'w writer_fn \<Rightarrow> (bytes \<Rightarrow> 'u \<Rightarrow> 'u) \<Rightarrow> (bytes list \<Rightarrow> bool) option \<Rightarrow> bytes \<Rightarrow>
    ('w, 'u) relay \<Rightarrow> ('w, 'u) relay \<times> bool" where
  "sse_line wr observe drp line s =
     (let s1 = s\<lparr>raw := raw s @ line\<rparr>
      in if is_blank line then flushEvent wr observe drp s1
         else (case cut_prefix (trimmed_line line) ''data:'' of
                 Some rest \<Rightarrow> (s1\<lparr>dataLines := dataLines s1 @ [TrimSpace rest]\<rparr>, True)
               | None \<Rightarrow> (s1, True)))"

text \<open>\<open>ReadBytes\<close> up to and including the next newline; \<open>False\<close> when the source ends first.\<close>

fun ReadBytes :: "bytes \<Rightarrow> bytes \<times> bytes \<times> bool" where
  "ReadBytes [] = ([], [], False)"
| "ReadBytes (c # s) =
     (if c = CHR 0x0A then ([c], s, True)
      else case ReadBytes s of (l, r, nl) \<Rightarrow> (c # l, r, nl))"

lemma ReadBytes_text: "ReadBytes s = (l, r, nl) \<Longrightarrow> s = l @ r \<and> (nl \<longrightarrow> l \<noteq> []) \<and> (\<not> nl \<longrightarrow> r = [])"
  by (induction s arbitrary: l r nl) (auto split: if_splits prod.splits)

lemma ReadBytes_shorter: "(l, r, True) = ReadBytes s \<Longrightarrow> length r < length s"
  using ReadBytes_text [of s l r True] by auto

function sse_loop :: "'w writer_fn \<Rightarrow> (bytes \<Rightarrow> 'u \<Rightarrow> 'u) \<Rightarrow> (bytes list \<Rightarrow> bool) option \<Rightarrow> relay_error option \<Rightarrow>
    bytes \<Rightarrow> ('w, 'u) relay \<Rightarrow> ('w, 'u) relay \<times> relay_error option" where
  "sse_loop wr observe drp eof src s =
     (case ReadBytes src of
        (line, rest, nl) \<Rightarrow>
          (case (if line \<noteq> [] then sse_line wr observe drp line s else (s, True)) of
             (s1, False) \<Rightarrow> (s1, Some WriteError)
           | (s1, True) \<Rightarrow>
               if nl then sse_loop wr observe drp eof rest s1
               else (case flushEvent wr observe drp s1 of
                       (s2, ok) \<Rightarrow> (s2, case eof of None \<Rightarrow> if ok then None else Some WriteError | Some e \<Rightarrow> Some e))))"
  by pat_completeness auto

termination
  by (relation "measure (\<lambda>(wr, ob, dr, te, src, s). length src)")
     (auto dest: ReadBytes_shorter)

declare sse_loop.simps [simp del]

definition streamSSE :: "'w writer_fn \<Rightarrow> 'w \<Rightarrow> bytes \<Rightarrow> relay_error option \<Rightarrow> (bytes \<Rightarrow> 'u \<Rightarrow> 'u) \<Rightarrow> 'u \<Rightarrow>
    (bytes list \<Rightarrow> bool) option \<Rightarrow> ('w \<times> 'u) \<times> relay_error option" where
  "streamSSE wr w src eof observe u drp =
     (case sse_loop wr observe drp eof src \<lparr>dst = w, ext = u, raw = [], dataLines = []\<rparr> of
        (s, e) \<Rightarrow> ((dst s, ext s), e))"

subsection \<open>What the relay does, event by event\<close>

text \<open>
  The specification: a source is a sequence of events, each the lines up to and including a blank
  one (the last may have none); the payloads of an event are its trimmed \<open>data:\<close> lines. Every
  event is observed, and then written whole unless it is filtered out, until a write fails.
\<close>

function lines_of :: "bytes \<Rightarrow> bytes list" where
  "lines_of s =
     (case ReadBytes s of (l, r, nl) \<Rightarrow> if nl then l # lines_of r else if l = [] then [] else [l])"
  by pat_completeness auto

termination
  by (relation "measure length") (auto dest: ReadBytes_shorter)

declare lines_of.simps [simp del]

fun events_from :: "bytes list \<Rightarrow> bytes list \<Rightarrow> bytes list list" where
  "events_from pend [] = (if pend = [] then [] else [pend])"
| "events_from pend (l # ls) =
     (if is_blank l then (pend @ [l]) # events_from [] ls else events_from (pend @ [l]) ls)"

definition events_of :: "bytes \<Rightarrow> bytes list list" where
  "events_of src = events_from [] (lines_of src)"

definition line_data :: "bytes \<Rightarrow> bytes list" where
  "line_data l =
     (if is_blank l then []
      else case cut_prefix (trimmed_line l) ''data:'' of Some rest \<Rightarrow> [TrimSpace rest] | None \<Rightarrow> [])"

definition payloads :: "bytes list \<Rightarrow> bytes list" where
  "payloads ev = concat (map line_data ev)"

definition forwards :: "(bytes list \<Rightarrow> bool) option \<Rightarrow> bytes list \<Rightarrow> bool" where
  "forwards drp ev = (case drp of None \<Rightarrow> True | Some f \<Rightarrow> \<not> f (payloads ev))"

fun relay_events :: "'w writer_fn \<Rightarrow> (bytes \<Rightarrow> 'u \<Rightarrow> 'u) \<Rightarrow> (bytes list \<Rightarrow> bool) option \<Rightarrow>
    bytes list list \<Rightarrow> 'w \<Rightarrow> 'u \<Rightarrow> ('w \<times> 'u) \<times> bool" where
  "relay_events wr observe drp [] w u = ((w, u), True)"
| "relay_events wr observe drp (ev # evs) w u =
     (let u' = fold observe (payloads ev) u
      in if forwards drp ev then
           (case wr w (concat ev) of
              (w', False) \<Rightarrow> ((w', u'), False)
            | (w', True) \<Rightarrow> relay_events wr observe drp evs w' u')
         else relay_events wr observe drp evs w u')"

lemma concat_lines_of: "concat (lines_of s) = s"
proof (induction s rule: lines_of.induct)
  case (1 s)
  obtain l r nl where e: "ReadBytes s = (l, r, nl)" by (metis prod_cases3)
  with 1 [OF e [symmetric] refl] ReadBytes_text [OF e] show ?case
    by (subst lines_of.simps) (cases nl; auto)
qed

lemma lines_of_nonempty: "l \<in> set (lines_of s) \<Longrightarrow> l \<noteq> []"
proof (induction s rule: lines_of.induct)
  case (1 s)
  obtain l' r nl where e: "ReadBytes s = (l', r, nl)" by (metis prod_cases3)
  with 1 ReadBytes_text [OF e] show ?case
    by (subst (asm) (2) lines_of.simps) (cases nl; auto split: if_splits)
qed

lemma concat_events_from: "concat (map concat (events_from pend ls)) = concat pend @ concat ls"
  by (induction pend ls rule: events_from.induct) auto

lemma concat_events_of: "concat (map concat (events_of src)) = src"
  by (simp add: events_of_def concat_events_from concat_lines_of)

text \<open>The loop's buffers hold the pending lines.\<close>

definition pending :: "('w, 'u) relay \<Rightarrow> bytes list \<Rightarrow> bool" where
  "pending s pend \<longleftrightarrow> raw s = concat pend \<and> dataLines s = payloads pend \<and> (\<forall>l\<in>set pend. l \<noteq> [])"

lemma flushEvent_pending:
  assumes "pending s pend" "flushEvent wr observe drp s = (s', ok)"
  shows "relay_events wr observe drp (if pend = [] then [] else [pend]) (dst s) (ext s) = ((dst s', ext s'), ok)"
    and "pending s' []"
proof -
  have raw: "raw s = [] \<longleftrightarrow> pend = []" and p: "raw s = concat pend" "dataLines s = payloads pend"
    using assms(1) by (auto simp: pending_def)
  have fwd: "forwards drp pend = (case drp of None \<Rightarrow> True | Some f \<Rightarrow> \<not> f (payloads pend))"
    by (simp add: forwards_def)
  obtain w k where wr: "wr (dst s) (concat pend) = (w, k)" by fastforce
  have e: "pend = [] \<Longrightarrow> s' = s \<and> ok"
    "pend \<noteq> [] \<Longrightarrow> s' = s\<lparr>ext := fold observe (payloads pend) (ext s), raw := [], dataLines := [],
        dst := (if forwards drp pend then w else dst s)\<rparr> \<and> ok = (forwards drp pend \<longrightarrow> k)"
    using assms(2) unfolding flushEvent_def Let_def raw unfolding p fwd [symmetric] wr
    by (simp_all split: if_splits)
  show "relay_events wr observe drp (if pend = [] then [] else [pend]) (dst s) (ext s) = ((dst s', ext s'), ok)"
    using e wr by (cases "pend = []") (simp_all add: Let_def split: bool.split)
  show "pending s' []" using e assms(1) by (cases "pend = []") (simp_all add: pending_def payloads_def)
qed

lemma sse_line_blank:
  assumes "pending s pend" "l \<noteq> []" "is_blank l"
  shows "sse_line wr observe drp l s = flushEvent wr observe drp (s\<lparr>raw := raw s @ l\<rparr>)"
    and "pending (s\<lparr>raw := raw s @ l\<rparr>) (pend @ [l])"
  using assms by (auto simp: sse_line_def pending_def payloads_def line_data_def Let_def)

lemma sse_line_other:
  assumes "pending s pend" "l \<noteq> []" "\<not> is_blank l"
  shows "\<exists>s1. sse_line wr observe drp l s = (s1, True) \<and> pending s1 (pend @ [l]) \<and> dst s1 = dst s \<and> ext s1 = ext s"
  using assms by (auto simp: sse_line_def pending_def payloads_def line_data_def Let_def split: option.split)

lemma relay_events_append:
  "relay_events wr observe drp (a @ b) w u =
     (case relay_events wr observe drp a w u of
        ((w', u'), True) \<Rightarrow> relay_events wr observe drp b w' u' | r \<Rightarrow> r)"
  by (induction a arbitrary: w u) (auto simp: Let_def split: prod.split bool.split)

lemma sse_loop_events:
  assumes "pending s pend" "sse_loop wr observe drp eof src s = (s', e)"
  shows "\<exists>ok. relay_events wr observe drp (events_from pend (lines_of src)) (dst s) (ext s) = ((dst s', ext s'), ok)
     \<and> (e = None \<longleftrightarrow> ok \<and> eof = None)"
  using assms
proof (induction wr observe drp eof src s arbitrary: pend rule: sse_loop.induct)
  case (1 wr observe drp eof src s)
  obtain l r nl where R: "ReadBytes src = (l, r, nl)" by (metis prod_cases3)
  note rb = ReadBytes_text [OF R]
  note IH = 1(1) [OF R [symmetric] refl]
  show ?case
  proof (cases "l = []")
    case True
    with rb have nl: "\<not> nl" by blast
    obtain s2 ok where f: "flushEvent wr observe drp s = (s2, ok)" by fastforce
    with 1(3) R True nl have "s' = s2" "e = (case eof of None \<Rightarrow> if ok then None else Some WriteError | Some x \<Rightarrow> Some x)"
      by (auto simp: sse_loop.simps [of wr observe drp eof src s])
    with flushEvent_pending(1) [OF 1(2) f] R True nl show ?thesis
      by (auto simp: lines_of.simps [of src] split: option.splits)
  next
    case l: False
    obtain s1 ok1 where S: "sse_line wr observe drp l s = (s1, ok1)" by fastforce
    define tail where "tail = (if nl then lines_of r else [])"
    have L: "lines_of src = l # tail" using R l by (simp add: lines_of.simps [of src] tail_def)
    have loop: "(s', e) = (if \<not> ok1 then (s1, Some WriteError)
        else if nl then sse_loop wr observe drp eof r s1
        else (case flushEvent wr observe drp s1 of
          (s2, ok) \<Rightarrow> (s2, case eof of None \<Rightarrow> if ok then None else Some WriteError | Some e \<Rightarrow> Some e)))"
      using 1(3) R S l by (subst (asm) sse_loop.simps) (auto split: bool.splits)
    have rest: "\<exists>ok. relay_events wr observe drp (events_from p tail) (dst s1) (ext s1) = ((dst s', ext s'), ok)
        \<and> (e = None \<longleftrightarrow> ok \<and> eof = None)" if "ok1" "pending s1 p" for p
    proof (cases nl)
      case True
      have "sse_loop wr observe drp eof r s1 = (s', e)" using loop that(1) True by simp
      from IH [of s1 True, OF _ refl True that(2) this] S l that(1) True show ?thesis by (simp add: tail_def)
    next
      case False
      obtain s2 ok where f: "flushEvent wr observe drp s1 = (s2, ok)" by fastforce
      from flushEvent_pending(1) [OF that(2) f] f loop that(1) False show ?thesis
        by (auto simp: tail_def split: option.splits)
    qed
    show ?thesis
    proof (cases "is_blank l")
      case True
      note bl = sse_line_blank [OF 1(2) l True]
      from flushEvent_pending [OF bl(2) S [unfolded bl(1)]]
      have ev: "relay_events wr observe drp [pend @ [l]] (dst s) (ext s) = ((dst s1, ext s1), ok1)"
        and p: "pending s1 []" by auto
      have split: "events_from pend (lines_of src) = [pend @ [l]] @ events_from [] tail" using L True by simp
      show ?thesis
      proof (cases ok1)
        case ok: True
        from rest [OF ok p] show ?thesis using ev ok unfolding split relay_events_append by simp
      next
        case False
        with loop ev show ?thesis unfolding split relay_events_append by (intro exI [of _ False]) simp
      qed
    next
      case False
      with sse_line_other [OF 1(2) l False, of wr observe drp] S
      have "ok1" and p: "pending s1 (pend @ [l])" and eq: "dst s1 = dst s" "ext s1 = ext s" by auto
      from rest [OF this(1,2)] show ?thesis using L False eq by simp
    qed
  qed
qed

lemma sse_stream_events:
  assumes "streamSSE wr w src eof observe u drp = (st, e)"
  shows "\<exists>ok. relay_events wr observe drp (events_of src) w u = (st, ok) \<and> (e = None \<longleftrightarrow> ok \<and> eof = None)"
proof -
  let ?s = "\<lparr>dst = w, ext = u, raw = [], dataLines = []\<rparr>"
  obtain s' e' where l: "sse_loop wr observe drp eof src ?s = (s', e')" by fastforce
  have "pending ?s []" by (simp add: pending_def payloads_def)
  from sse_loop_events [OF this l] l assms show ?thesis by (auto simp: streamSSE_def events_of_def)
qed

text \<open>C29: the relay refines its specification: it treats the source event by event, whatever the
  writer, the extractor and the filter are, and returns no error exactly when every write succeeded
  and the source ended with EOF.\<close>

theorem streamSSE_refines_events:
  "fst (streamSSE wr w src eof observe u drp) = fst (relay_events wr observe drp (events_of src) w u)
   \<and> (snd (streamSSE wr w src eof observe u drp) = None
      \<longleftrightarrow> snd (relay_events wr observe drp (events_of src) w u) \<and> eof = None)"
proof (cases "streamSSE wr w src eof observe u drp")
  case (Pair st e)
  from sse_stream_events [OF this] Pair show ?thesis by auto
qed

subsection \<open>What the client receives\<close>

fun seen_events :: "(bytes list \<Rightarrow> bool) \<Rightarrow> nat \<Rightarrow> bytes list list \<Rightarrow> bytes list list" where
  "seen_events fwd n [] = []"
| "seen_events fwd n (ev # evs) =
     ev # (if fwd ev then (case n of 0 \<Rightarrow> [] | Suc m \<Rightarrow> seen_events fwd m evs) else seen_events fwd n evs)"

lemma relay_stays:
  "w_gone w = None \<Longrightarrow> relay_events Write observe drp evs w u = ((w', u'), ok) \<Longrightarrow>
     ok \<and> w_body w' = w_body w @ map concat (filter (forwards drp) evs)
     \<and> u' = fold observe (concat (map payloads evs)) u"
proof (induction evs arbitrary: w u)
  case (Cons ev evs)
  define w1 where "w1 = (WriteHeader w 200)\<lparr>w_body := w_body w @ [concat ev]\<rparr>"
  have "Write w (concat ev) = (w1, True)" "w_gone w1 = None"
    using Cons.prems(1) by (simp_all add: Write_def w1_def Let_def)
  with Cons.prems Cons.IH [of w1 "fold observe (payloads ev) u"] Cons.IH [of w "fold observe (payloads ev) u"]
  show ?case by (simp add: Let_def w1_def split: if_splits)
qed simp

lemma relay_leaves:
  "w_gone w = Some n \<Longrightarrow> relay_events Write observe drp evs w u = ((w', u'), ok) \<Longrightarrow>
     ok = (length (filter (forwards drp) evs) \<le> n)
     \<and> w_body w' = w_body w @ take n (map concat (filter (forwards drp) evs))
     \<and> u' = fold observe (concat (map payloads (seen_events (forwards drp) n evs))) u"
proof (induction evs arbitrary: w u n)
  case (Cons ev evs)
  let ?u = "fold observe (payloads ev) u"
  show ?case
  proof (cases "forwards drp ev")
    case False
    with Cons.prems Cons.IH [of w n ?u] show ?thesis by (simp add: Let_def)
  next
    case fwd: True
    show ?thesis
    proof (cases n)
      case 0
      with Cons.prems fwd show ?thesis by (auto simp: Write_def Let_def split: if_splits)
    next
      case (Suc m)
      define w1 where "w1 = (WriteHeader w 200)\<lparr>w_body := w_body w @ [concat ev], w_gone := Some m\<rparr>"
      have "Write w (concat ev) = (w1, True)" "w_gone w1 = Some m"
        using Cons.prems(1) Suc by (simp_all add: Write_def w1_def Let_def)
      with Cons.prems Cons.IH [of w1 m ?u] fwd Suc show ?thesis by (simp add: Let_def w1_def)
    qed
  qed
qed auto

lemma stream_whole:
  assumes "streamSSE Write w src eof observe u None = ((w', u'), e)" and "w_gone w = None"
  shows "concat (w_body w') = concat (w_body w) @ src"
proof -
  obtain ok where r: "relay_events Write observe None (events_of src) w u = ((w', u'), ok)"
    using sse_stream_events [OF assms(1)] by blast
  have "filter (forwards None) evs = evs" for evs by (simp add: forwards_def)
  with relay_stays [OF assms(2) r] concat_events_of [of src] show ?thesis by simp
qed

text \<open>C24: a stream is passed through byte for byte to a client that stays: what it receives is the source
  without the events the filter drops, all of it when there is no filter, the extractor sees the
  payloads of every event, dropped ones included, and a read error is reported.\<close>

theorem streamSSE_passthrough:
  assumes "w_gone w = None" and "streamSSE Write w src eof observe u drp = ((w', u'), e)"
  shows "concat (w_body w') = concat (w_body w) @ concat (map concat (filter (forwards drp) (events_of src)))
       \<and> (drp = None \<longrightarrow> concat (w_body w') = concat (w_body w) @ src)
       \<and> u' = fold observe (concat (map payloads (events_of src))) u
       \<and> (e = None \<longleftrightarrow> eof = None)"
proof -
  obtain ok where r: "relay_events Write observe drp (events_of src) w u = ((w', u'), ok)" "e = None \<longleftrightarrow> ok \<and> eof = None"
    using sse_stream_events assms(2) by fastforce
  have st: "ok" "w_body w' = w_body w @ map concat (filter (forwards drp) (events_of src))"
      "u' = fold observe (concat (map payloads (events_of src))) u"
    using relay_stays [OF assms(1) r(1)] by blast+
  have "drp = None \<longrightarrow> concat (w_body w') = concat (w_body w) @ src"
  proof
    assume "drp = None"
    from assms(2) [unfolded this] assms(1) show "concat (w_body w') = concat (w_body w) @ src" by (rule stream_whole)
  qed
  then show ?thesis using r(2) st by (intro conjI) simp_all
qed

text \<open>C30: a client that disconnects has received exactly the first events, each of them whole; the relay
  stops there, and the usage kept is what the events up to the failed one carried.\<close>

theorem streamSSE_disconnect:
  assumes "w_gone w = Some n" and "streamSSE Write w src eof observe u drp = ((w', u'), e)"
  shows "w_body w' = w_body w @ take n (map concat (filter (forwards drp) (events_of src)))
       \<and> u' = fold observe (concat (map payloads (seen_events (forwards drp) n (events_of src)))) u
       \<and> (n < length (filter (forwards drp) (events_of src)) \<longrightarrow> e \<noteq> None)"
proof -
  obtain ok where r: "relay_events Write observe drp (events_of src) w u = ((w', u'), ok)" "e = None \<longleftrightarrow> ok \<and> eof = None"
    using sse_stream_events assms(2) by fastforce
  from relay_leaves [OF assms(1) r(1)] r(2) show ?thesis by auto
qed

text \<open>
  What the relay reads: everything when the client stays, and when it goes, the events up to the
  one whose write failed.
\<close>

definition events_read :: "(bytes list \<Rightarrow> bool) option \<Rightarrow> nat option \<Rightarrow> bytes \<Rightarrow> bytes list list" where
  "events_read drp gone src =
     (case gone of None \<Rightarrow> events_of src | Some n \<Rightarrow> seen_events (forwards drp) n (events_of src))"

lemma streamSSE_usage:
  assumes "streamSSE Write w src eof observe u drp = ((w', u'), e)"
  shows "u' = fold observe (concat (map payloads (events_read drp (w_gone w) src))) u"
proof -
  obtain ok where r: "relay_events Write observe drp (events_of src) w u = ((w', u'), ok)"
    using sse_stream_events [OF assms] by blast
  show ?thesis
    using relay_stays [OF _ r] relay_leaves [OF _ r] by (cases "w_gone w") (simp_all add: events_read_def)
qed

subsection \<open>The extractors' interface\<close>

text \<open>
  The interface \<open>extractor\<close> of the code: \<open>observe\<close> and \<open>usage\<close>. Its implementations also promise
  that text which is not JSON (\<open>[DONE]\<close>) changes nothing, and that the usage is authoritative
  once, and only once, a frame has reported it; \<open>reports\<close> says which frames do.
\<close>

locale extractor =
  fixes observe :: "bytes \<Rightarrow> 'u \<Rightarrow> 'u"
    and usage :: "'u \<Rightarrow> Usage"
    and reports :: "bytes \<Rightarrow> bool"
  assumes not_json: "parse_json d = None \<Longrightarrow> observe d u = u"
    and authority: "HasUsage (usage (observe d u)) \<longleftrightarrow> reports d \<or> HasUsage (usage u)"
begin

lemma fold_authority: "HasUsage (usage (fold observe ds u)) \<longleftrightarrow> (\<exists>d\<in>set ds. reports d) \<or> HasUsage (usage u)"
  by (induction ds arbitrary: u) (auto simp: authority)

lemma fold_json: "fold observe (filter (\<lambda>d. parse_json d \<noteq> None) ds) u = fold observe ds u"
  by (induction ds arbitrary: u) (auto simp: not_json)

lemma stream_authority:
  assumes "streamSSE Write w src eof observe u drp = ((w', u'), e)"
  shows "HasUsage (usage u') \<longleftrightarrow>
     (\<exists>ev\<in>set (events_read drp (w_gone w) src). \<exists>d\<in>set (payloads ev). reports d) \<or> HasUsage (usage u)"
  unfolding streamSSE_usage [OF assms] fold_authority by auto

end

text \<open>A provider that sends its token counts only in the frame that reports them.\<close>

locale final_extractor = extractor +
  assumes silent: "\<not> reports d \<Longrightarrow>
     us_InputTokens (usage (observe d u)) = us_InputTokens (usage u)
   \<and> us_OutputTokens (usage (observe d u)) = us_OutputTokens (usage u)"
begin

lemma fold_silent:
  "\<forall>d\<in>set ds. \<not> reports d \<Longrightarrow>
     us_InputTokens (usage (fold observe ds u)) = us_InputTokens (usage u)
   \<and> us_OutputTokens (usage (fold observe ds u)) = us_OutputTokens (usage u)"
  by (induction ds arbitrary: u) (auto simp: silent)

lemma stream_silent:
  assumes "streamSSE Write w src eof observe u drp = ((w', u'), e)"
    and "\<forall>ev\<in>set (events_read drp (w_gone w) src). \<forall>d\<in>set (payloads ev). \<not> reports d"
  shows "us_InputTokens (usage u') = us_InputTokens (usage u)
    \<and> us_OutputTokens (usage u') = us_OutputTokens (usage u)
    \<and> HasUsage (usage u') = HasUsage (usage u)"
proof -
  have "\<forall>d\<in>set (concat (map payloads (events_read drp (w_gone w) src))). \<not> reports d"
    using assms(2) by simp
  from fold_silent [OF this, of u] streamSSE_usage [OF assms(1)] stream_authority [OF assms(1)] assms(2)
  show ?thesis by auto
qed

end

definition openai_reports :: "bytes \<Rightarrow> bool" where
  "openai_reports d =
     (case Unmarshal (dec_struct openai_chunk_fields) d \<lparr>oc_Model = [], oc_Usage = None\<rparr> of
        (c, ok) \<Rightarrow> ok \<and> oc_Usage c \<noteq> None)"

definition anthropic_reports :: "bytes \<Rightarrow> bool" where
  "anthropic_reports d =
     (case Unmarshal (dec_struct anthropic_event_fields) d
         \<lparr>ae_Type = [], ae_Message = None, ae_Usage = None\<rparr> of
        (ev, ok) \<Rightarrow> ok \<and> ae_Type ev = ''message_delta'' \<and> ae_Usage ev \<noteq> None)"

interpretation openai: final_extractor openai_observe "\<lambda>u. u" openai_reports
  by unfold_locales
     (auto simp: openai_observe_def openai_reports_def Unmarshal_def Let_def split: prod.splits bool.splits option.splits)

interpretation anthropic: extractor anthropic_observe "\<lambda>u. u" anthropic_reports
  by unfold_locales
     (auto simp: anthropic_observe_def anthropic_reports_def Unmarshal_def Let_def
        split: prod.splits bool.splits option.splits)

subsection \<open>The usage frame the gateway strips is accounted for\<close>

lemma find_field_folded:
  assumes "distinct (map (\<lambda>f. fold_key (fst f)) fs)"
  shows "find_field fs key = map_of (map (\<lambda>(n, d). (fold_key n, d)) fs) (fold_key key)"
proof (cases "map_of fs key")
  case (Some d)
  then have "(fold_key key, d) \<in> set (map (\<lambda>(n, d). (fold_key n, d)) fs)"
    by (force dest: map_of_SomeD)
  moreover have "distinct (map fst (map (\<lambda>(n, d). (fold_key n, d)) fs))"
    using assms by (simp add: comp_def split_beta)
  ultimately show ?thesis using Some by (simp add: find_field_def)
qed (simp add: find_field_def)

lemma parse_value_null: 
  assumes "parse_value n d s = Some (v, r)"
  shows "text_before s r \<noteq> [] \<and> (text_before s r = ''null'' \<longleftrightarrow> v = JNull)"
proof -
  obtain m where m: "n = Suc m" using assms by (cases n) auto
  have c: "cuts s r" using parse_value_cuts [OF assms] .
  then have "text_before s r \<noteq> []" by (auto simp: cuts_def text_before_def)
  moreover have "v = JNull" if "text_before s r = ''null''"
  proof -
    have "s = ''null'' @ r" using text_before_cuts [OF c] that by simp
    with assms m show ?thesis by (simp add: parse_value.simps(2) scan_literal_def)
  qed
  moreover have "text_before s r = ''null''" if "v = JNull"
  proof -
    have "scan_literal s = Some (JNull, r)"
      using assms that m by (auto simp: parse_value.simps(2) split: option.splits if_splits)
    then have "s = ''null'' @ r" by (auto simp: scan_literal_def cut_prefix_Some split: option.splits)
    then show ?thesis by (simp add: text_before_def)
  qed
  ultimately show ?thesis by blast
qed

definition member_ok :: "bytes \<times> bytes \<times> json \<Rightarrow> bool" where
  "member_ok = (\<lambda>(k, raw, v). raw \<noteq> [] \<and> (raw = ''null'' \<longleftrightarrow> v = JNull))"

lemma member_okI: "parse_value n d s = Some (v, r) \<Longrightarrow> member_ok (k, text_before s r, v)"
  using parse_value_null [of n d s v r] by (simp add: member_ok_def)

lemma parse_members_ok: "parse_members n d s = Some (ms, r) \<Longrightarrow> list_all member_ok ms"
proof (induction n arbitrary: s ms r)
  case (Suc n)
  from Suc.prems show ?case
    by (auto simp: parse_members.simps(2) Let_def split: option.splits dest!: Suc.IH) (blast intro: member_okI)+
qed simp

lemma parse_value_members_ok: "parse_value n d s = Some (JObj ms, r) \<Longrightarrow> list_all member_ok ms"
  by (cases n) (auto simp: parse_value.simps(2) scan_literal_def dest: parse_members_ok split: option.splits if_splits)

lemma parse_json_members_ok: "parse_json s = Some (JObj ms) \<Longrightarrow> list_all member_ok ms"
  unfolding parse_json_def by (auto split: option.splits if_splits intro: parse_value_members_ok)

lemma fold_key_names:
  "fold_key ''choices'' = ''CHOICES''" "fold_key ''usage'' = ''USAGE''" "fold_key ''model'' = ''MODEL''"
  by code_simp+

lemma usage_only_field:
  "find_field usage_only_fields key =
     (if fold_key key = ''CHOICES'' then Some (snd (field ''choices'' uc_Choices (\<lambda>v c. c\<lparr>uc_Choices := v\<rparr>) dec_raws))
      else if fold_key key = ''USAGE'' then Some (snd (field ''usage'' uc_Usage (\<lambda>v c. c\<lparr>uc_Usage := v\<rparr>) dec_raw))
      else None)"
  by (subst find_field_folded) (simp_all add: usage_only_fields_def field_def fold_key_names del: fold_key.simps)

lemma openai_chunk_field:
  "find_field openai_chunk_fields key =
     (if fold_key key = ''MODEL'' then Some (snd (field ''model'' oc_Model (\<lambda>v c. c\<lparr>oc_Model := v\<rparr>) dec_string))
      else if fold_key key = ''USAGE'' then Some (snd (field ''usage'' oc_Usage (\<lambda>v c. c\<lparr>oc_Usage := v\<rparr>)
        (dec_ptr \<lparr>PromptTokens = 0, CompletionTokens = 0\<rparr> (dec_struct openai_usage_fields))))
      else None)"
  by (subst find_field_folded) (simp_all add: openai_chunk_fields_def field_def fold_key_names del: fold_key.simps)

lemma usage_seen_by_both:
  assumes "list_all member_ok ms"
    and "uc_Usage (fst c) \<noteq> [] \<and> uc_Usage (fst c) \<noteq> ''null'' \<longrightarrow> oc_Usage (fst x) \<noteq> None"
    and "uc_Usage (fst (foldl (dec_member usage_only_fields) c ms)) \<noteq> []"
    and "uc_Usage (fst (foldl (dec_member usage_only_fields) c ms)) \<noteq> ''null''"
  shows "oc_Usage (fst (foldl (dec_member openai_chunk_fields) x ms)) \<noteq> None"
  using assms
proof (induction ms arbitrary: c x)
  case (Cons m ms)
  obtain k raw v where m: "m = (k, raw, v)" by (metis prod_cases3)
  have "uc_Usage (fst (dec_member usage_only_fields c m)) \<noteq> []
      \<and> uc_Usage (fst (dec_member usage_only_fields c m)) \<noteq> ''null''
      \<longrightarrow> oc_Usage (fst (dec_member openai_chunk_fields x m)) \<noteq> None"
    using Cons.prems(1,2) unfolding m
    by (cases c; cases x)
      (auto simp: dec_member_def usage_only_field openai_chunk_field field_def dec_raw_def dec_ptr_def
        member_ok_def split: prod.splits)
  with Cons.IH Cons.prems(1,3,4) show ?case by simp
qed auto

definition decodes_as_chunk :: "bytes \<Rightarrow> bool" where
  "decodes_as_chunk d \<longleftrightarrow> snd (Unmarshal (dec_struct openai_chunk_fields) d \<lparr>oc_Model = [], oc_Usage = None\<rparr>)"

lemma usage_only_reports:
  assumes "isOpenAIUsageOnly d" "decodes_as_chunk d"
  shows "openai_reports d"
proof -
  let ?c = "\<lparr>uc_Choices = [], uc_Usage = []\<rparr>" let ?x = "\<lparr>oc_Model = [], oc_Usage = None\<rparr>"
  obtain j where j: "parse_json d = Some j" using assms(2) by (auto simp: decodes_as_chunk_def Unmarshal_def split: option.splits)
  have "j \<noteq> JNull" using assms(1) j by (auto simp: isOpenAIUsageOnly_def Unmarshal_def dec_struct_def)
  then obtain ms where ms: "j = JObj ms"
    using assms(2) j by (auto simp: decodes_as_chunk_def Unmarshal_def dec_struct_def split: json.splits)
  let ?f = "foldl (dec_member openai_chunk_fields) (?x, True) ms"
  have "oc_Usage (fst ?f) \<noteq> None"
    using assms(1) j ms
    by (intro usage_seen_by_both [of ms "(?c, True)"] parse_json_members_ok [of d])
      (auto simp: isOpenAIUsageOnly_def Unmarshal_def dec_struct_def split: prod.splits bool.splits)
  moreover have "snd ?f" using assms(2) j ms by (simp add: decodes_as_chunk_def Unmarshal_def dec_struct_def)
  ultimately show ?thesis using j ms
    by (cases ?f) (auto simp: openai_reports_def Unmarshal_def dec_struct_def)
qed

definition usage_frame_filter :: "bytes list \<Rightarrow> bool" where
  "usage_frame_filter lines = list_ex isOpenAIUsageOnly lines"


subsection \<open>A stream\<close>

definition sample_frame :: bytes where
  "sample_frame = ''{\"choices\":[],\"usage\":{\"prompt_tokens\":9,\"completion_tokens\":10}}''"

definition sample_event_1 :: "bytes list" where
  "sample_event_1 = [''data: {\"model\":\"m\",\"choices\":[1]}'' @ [CHR 0x0A], [CHR 0x0A]]"

definition sample_event_2 :: "bytes list" where
  "sample_event_2 = [''data: '' @ sample_frame @ [CHR 0x0D, CHR 0x0A], [CHR 0x0D, CHR 0x0A]]"

definition sample_stream :: bytes where
  "sample_stream = concat sample_event_1 @ concat sample_event_2"

lemma sample_events: "events_of sample_stream = [sample_event_1, sample_event_2]"
  by code_simp

lemma sample_payloads: "payloads sample_event_2 = [sample_frame]"
  by code_simp

lemma sample_frame_facts: "isOpenAIUsageOnly sample_frame" "decodes_as_chunk sample_frame"
  by code_simp+

lemma sample_forwards: "filter (forwards (Some usage_frame_filter)) [sample_event_1, sample_event_2] = [sample_event_1]"
  by code_simp

theorem streamSSE_passthrough_witness:
  "concat (w_body (fst (fst (streamSSE Write (fresh_writer None) sample_stream None openai_observe zero_Usage None))))
     = sample_stream"
proof -
  obtain w' u' e where s: "streamSSE Write (fresh_writer None) sample_stream None openai_observe zero_Usage None = ((w', u'), e)"
    by (metis prod_cases3 surj_pair)
  have "w_gone (fresh_writer None) = None" by (simp add: fresh_writer_def)
  from streamSSE_passthrough [OF this s]
  have "concat (w_body w') = concat (w_body (fresh_writer None)) @ sample_stream" by blast
  then show ?thesis by (simp only: s fst_conv) (simp add: fresh_writer_def)
qed

theorem streamSSE_disconnect_witness:
  "w_body (fst (fst (streamSSE Write (fresh_writer (Some 1)) sample_stream None openai_observe zero_Usage None)))
     = [concat sample_event_1]"
proof -
  obtain w' u' e where s: "streamSSE Write (fresh_writer (Some 1)) sample_stream None openai_observe zero_Usage None = ((w', u'), e)"
    by (metis prod_cases3 surj_pair)
  from streamSSE_disconnect [OF _ s] have "w_body w' = [concat sample_event_1]"
    by (simp add: fresh_writer_def sample_events forwards_def)
  then show ?thesis by (simp only: s fst_conv)
qed


end
