(* ===== verification/GoFmt.thy ===== *)
theory GoFmt
  imports GoFloat GoJson
begin

section \<open>GoFmt: encoding values as JSON text\<close>

text \<open>
  \<open>json.Encoder\<close> on the values the gateway encodes: strings, integers, \<open>float64\<close>,
  \<open>map[string]any\<close> (keys in byte order) and \<open>[]any\<close>. A float is printed with the fewest digits that read back as
  the same double (\<open>strconv\<close>'s shortest format), in plain notation from 1e-6 up to 1e21; an infinity
  or NaN is an error, and then nothing is written.
\<close>

text \<open>The exponent \<open>e\<close> with \<open>10^(e-1) \<le> x < 10^e\<close>; a double needs at most 330 steps.\<close>

primrec exp10 :: "nat \<Rightarrow> rat \<Rightarrow> int" where
  "exp10 0 x = 1"
| "exp10 (Suc f) x = (if 10 \<le> x then 1 + exp10 f (x / 10) else if x < 1 then exp10 f (x * 10) - 1 else 1)"

definition scale10 :: "int \<Rightarrow> int \<Rightarrow> rat" where
  "scale10 d k = (if 0 \<le> k then of_int d * 10 ^ nat k else of_int d / 10 ^ nat (- k))"

text \<open>The \<open>n\<close>-digit decimal nearest to \<open>x\<close> among those that round to \<open>x\<close>.\<close>

definition decimal_at :: "rat \<Rightarrow> int \<Rightarrow> nat \<Rightarrow> (int \<times> int) option" where
  "decimal_at x e n =
     (let k = e - int n;
          y = x / scale10 1 k;
          lo = \<lfloor>y\<rfloor>;
          near = round_half_even y;
          far = (if near = lo then lo + 1 else lo)
      in if rnd64 (scale10 near k) = Fin x then Some (near, k)
         else if rnd64 (scale10 far k) = Fin x then Some (far, k)
         else None)"

fun shortest_from :: "rat \<Rightarrow> int \<Rightarrow> nat \<Rightarrow> nat \<Rightarrow> int \<times> int" where
  "shortest_from x e 0 n = (round_half_even (x / scale10 1 (e - 17)), e - 17)"
| "shortest_from x e (Suc f) n =
     (case decimal_at x e n of Some r \<Rightarrow> r | None \<Rightarrow> shortest_from x e f (Suc n))"

definition shortest :: "rat \<Rightarrow> int \<times> int" where
  "shortest x = shortest_from x (exp10 400 x) 17 1"

text \<open>\<open>d * 10^k\<close> in plain and in exponent notation, \<open>d\<close> positive.\<close>

definition format_f :: "int \<Rightarrow> int \<Rightarrow> bytes" where
  "format_f d k =
     (let ds = digits (nat d); p = int (length ds) + k
      in if 0 \<le> k then ds @ replicate (nat k) CHR ''0''
         else if 0 < p then take (nat p) ds @ CHR ''.'' # drop (nat p) ds
         else ''0.'' @ replicate (nat (- p)) CHR ''0'' @ ds)"

definition format_e :: "int \<Rightarrow> int \<Rightarrow> bytes" where
  "format_e d k =
     (let ds = digits (nat d); x = int (length ds) + k - 1;
          frac = tl ds
      in hd ds # (if frac = [] then [] else CHR ''.'' # frac) @ CHR ''e'' # (if x < 0 then CHR ''-'' else CHR ''+'') # digits (nat \<bar>x\<bar>))"

fun strip_zeros :: "nat \<Rightarrow> int \<Rightarrow> int \<Rightarrow> int \<times> int" where
  "strip_zeros 0 d k = (d, k)"
| "strip_zeros (Suc f) d k = (if d \<noteq> 0 \<and> d mod 10 = 0 then strip_zeros f (d div 10) (k + 1) else (d, k))"

definition encode_float :: "f64 \<Rightarrow> bytes option" where
  "encode_float f =
     (case f of
        Fin q \<Rightarrow>
          (if q = 0 then Some ''0''
           else
             let (d0, k0) = shortest \<bar>q\<bar>;
                 (d, k) = strip_zeros 20 d0 k0;
                 t = (if \<bar>q\<bar> < 1 / 10 ^ 6 \<or> 10 ^ 21 \<le> \<bar>q\<bar> then format_e d k else format_f d k)
             in Some (if q < 0 then CHR ''-'' # t else t))
      | _ \<Rightarrow> None)"

datatype jval =
    VStr bytes
  | VInt int
  | VFloat f64
  | VMap "(bytes \<times> jval) list"
  | VList "jval list"

fun encode_jval :: "jval \<Rightarrow> bytes option"
  and encode_members :: "(bytes \<times> jval) list \<Rightarrow> bytes list option"
  and encode_elems :: "jval list \<Rightarrow> bytes list option"
where
  "encode_jval (VStr s) = Some (quote_string s)"
| "encode_jval (VInt n) = Some (itoa n)"
| "encode_jval (VFloat f) = encode_float f"
| "encode_jval (VMap m) = map_option (\<lambda>ts. CHR ''{'' # join_comma ts @ [CHR ''}'']) (encode_members m)"
| "encode_jval (VList vs) = map_option (\<lambda>ts. CHR ''['' # join_comma ts @ [CHR '']'']) (encode_elems vs)"
| "encode_members [] = Some []"
| "encode_members ((k, v) # m) =
     (case encode_jval v of
        None \<Rightarrow> None
      | Some t \<Rightarrow> map_option (\<lambda>ts. (quote_string k @ CHR '':'' # t) # ts) (encode_members m))"
| "encode_elems [] = Some []"
| "encode_elems (v # vs) =
     (case encode_jval v of None \<Rightarrow> None | Some t \<Rightarrow> map_option (\<lambda>ts. t # ts) (encode_elems vs))"

text \<open>\<open>Encoder.Encode\<close> adds a newline, and writes nothing when the value cannot be encoded.\<close>

definition encode_line :: "jval \<Rightarrow> bytes option" where
  "encode_line v = map_option (\<lambda>t. t @ [CHR 0x0A]) (encode_jval v)"

end
