(* ===== verification/Proxy.thy ===== *)
theory Proxy
  imports Budget Prices Meter Auth Extract GoFmt
begin

section \<open>Proxy: the gateway's hot path\<close>

text \<open>
  \<open>internal/proxy/proxy.go\<close>. A request that the middleware authenticated is routed by its path to a
  provider, reserved against the tenant's budget, sent upstream once, relayed back, and metered.

  The fields of a \<open>Proxy\<close> that never change are the record \<open>Proxy\<close>; what a request changes is
  \<open>gateway\<close>: the Redis server, the meter's writer, and the requests sent upstream. What the outside
  world does to one request is \<open>weather\<close>: the clock readings, whether the target parses as a URL,
  what the provider answers, and how the two Redis calls are delivered.
\<close>

record Provider =
  pv_Name :: bytes
  Prefix :: bytes
  BaseURL :: bytes
  APIKey :: bytes

record 'r Proxy =
  px_prices :: Table
  px_budget :: "'r redis option"
  providers :: "Provider list"
  px_arch :: arch

record outbound =
  ob_Method :: bytes
  ob_Target :: bytes
  ob_Header :: Header
  ob_Body :: bytes

record upstream_response =
  up_StatusCode :: int
  up_Header :: Header
  up_Body :: bytes
  up_eof :: "relay_error option"

datatype upstream_error = UpstreamError

record ('r, 's) gateway =
  gw_redis :: 'r
  gw_writer :: "'s Writer"
  gw_sent :: "outbound list"

record weather =
  at_start :: instant
  at_budget :: instant
  at_done :: instant
  at_created :: instant
  url_ok :: bool
  upstream :: "outbound \<Rightarrow> upstream_error + upstream_response"
  reserve_link :: link
  reconcile_link :: link

record reservation =
  active :: bool
  res_key :: bytes
  estMicro :: int

definition no_reservation :: reservation where
  "no_reservation = \<lparr>active = False, res_key = [], estMicro = 0\<rparr>"

subsection \<open>Reading request bodies\<close>

record max_tokens =
  MaxTokens :: int
  MaxCompletionTokens :: int

definition max_tokens_fields :: "max_tokens field list" where
  "max_tokens_fields =
     [field ''max_tokens'' MaxTokens (\<lambda>v c. c\<lparr>MaxTokens := v\<rparr>) dec_int,
      field ''max_completion_tokens'' MaxCompletionTokens (\<lambda>v c. c\<lparr>MaxCompletionTokens := v\<rparr>) dec_int]"

definition requestMaxTokens :: "bytes \<Rightarrow> int" where
  "requestMaxTokens body =
     (let m = fst (Unmarshal (dec_struct max_tokens_fields) body \<lparr>MaxTokens = 0, MaxCompletionTokens = 0\<rparr>)
      in if MaxTokens m > 0 then MaxTokens m else MaxCompletionTokens m)"

definition requestModel :: "bytes \<Rightarrow> bytes" where
  "requestModel body = fst (Unmarshal (dec_struct [field ''model'' (\<lambda>m. m) (\<lambda>v m. v) dec_string]) body [])"

definition modelOr :: "bytes \<Rightarrow> bytes \<Rightarrow> bytes" where
  "modelOr model reqBody = (if model \<noteq> [] then model else requestModel reqBody)"

text \<open>
  \<open>maybeInjectUsage\<close>: \<open>None\<close> is a panic, the assignment to the nil map that
  \<open>"stream_options": null\<close> decodes to.
\<close>

definition include_usage_object :: bytes where
  "include_usage_object = ''{\"include_usage\":true}''"

definition maybeInjectUsage :: "bytes \<Rightarrow> (bytes \<times> bool) option" where
  "maybeInjectUsage body =
     (case Unmarshal dec_map body None of
        (_, False) \<Rightarrow> Some (body, False)
      | (mo, True) \<Rightarrow>
          let m = (case mo of Some m \<Rightarrow> m | None \<Rightarrow> [])
          in case map_of m ''stream'' of
               None \<Rightarrow> Some (body, False)
             | Some s \<Rightarrow>
                 if TrimSpace s \<noteq> ''true'' then Some (body, False)
                 else
                   let overwrite = Some (Marshal_map (AList.update ''stream_options'' include_usage_object m), True)
                   in case map_of m ''stream_options'' of
                        None \<Rightarrow> overwrite
                      | Some so \<Rightarrow>
                          (case Unmarshal dec_map so None of
                             (_, False) \<Rightarrow> overwrite
                           | (None, True) \<Rightarrow> None
                           | (Some opts, True) \<Rightarrow>
                               if map_of opts ''include_usage'' \<noteq> None then Some (body, False)
                               else
                                 let nb = Marshal_map (AList.update ''include_usage'' ''true'' opts)
                                 in Some (Marshal_map (AList.update ''stream_options'' nb m), True)))"

subsection \<open>Headers\<close>

definition hopByHop :: "bytes \<Rightarrow> bool" where
  "hopByHop k \<longleftrightarrow> k \<in> {''Connection'', ''Keep-Alive'', ''Proxy-Authenticate'', ''Proxy-Authorization'',
     ''Te'', ''Trailer'', ''Transfer-Encoding'', ''Upgrade''}"

definition copyHeaders :: "Header \<Rightarrow> Header \<Rightarrow> Header" where
  "copyHeaders into from_h = (\<lambda>k.
     case from_h k of
       None \<Rightarrow> into k
     | Some vs \<Rightarrow> if hopByHop (CanonicalHeaderKey k) then into k else Some vs)"

definition copyResponseHeaders :: "Header \<Rightarrow> Header \<Rightarrow> Header" where
  "copyResponseHeaders into from_h = (\<lambda>k.
     case from_h k of
       None \<Rightarrow> into k
     | Some vs \<Rightarrow>
         let ck = CanonicalHeaderKey k
         in if hopByHop ck \<or> ck = ''Content-Length'' \<or> ck = ''Content-Encoding'' then into k else Some vs)"

subsection \<open>Budget enforcement\<close>

definition defaultEstOutputTokens :: int where
  "defaultEstOutputTokens = 1000"

definition estimateMicro :: "'r Proxy \<Rightarrow> Provider \<Rightarrow> bytes \<Rightarrow> int" where
  "estimateMicro P pv body =
     (let inTok = int (length body) div 4;
          out = requestMaxTokens body;
          out = (if out \<le> 0 then defaultEstOutputTokens else out)
      in toMicro (px_arch P) (fst (Cost (px_arch P) (px_prices P) (pv_Name pv) (requestModel body) inTok out)))"

definition write_json :: "ResponseWriter \<Rightarrow> int \<Rightarrow> jval \<Rightarrow> ResponseWriter" where
  "write_json w code v =
     (let w1 = WriteHeader (w\<lparr>w_header := Header_Set (w_header w) ''Content-Type'' ''application/json''\<rparr>) code
      in case encode_line v of None \<Rightarrow> w1 | Some t \<Rightarrow> fst (Write w1 t))"

definition writeBudgetExceeded :: "ResponseWriter \<Rightarrow> Tenant \<Rightarrow> f64 \<Rightarrow> f64 \<Rightarrow> ResponseWriter" where
  "writeBudgetExceeded w t budgetUSD spendUSD = write_json w 429
     (VMap [(''error'', VMap [(''budget_usd'', VFloat budgetUSD), (''spend_usd'', VFloat spendUSD),
        (''tenant'', VStr (Name t)), (''type'', VStr ''budget_exceeded'')])])"

definition writeBudgetUnavailable :: "ResponseWriter \<Rightarrow> Tenant \<Rightarrow> ResponseWriter" where
  "writeBudgetUnavailable w t = write_json w 503
     (VMap [(''error'', VMap [(''tenant'', VStr (Name t)), (''type'', VStr ''budget_unavailable'')])])"

definition checkBudget :: "'r Proxy \<Rightarrow> weather \<Rightarrow> ResponseWriter \<Rightarrow> Provider \<Rightarrow> Tenant \<Rightarrow> bytes \<Rightarrow> 'r \<Rightarrow>
    ResponseWriter \<times> 'r \<times> reservation \<times> bool" where
  "checkBudget P E w pv t body r =
     (case (MonthlyBudgetUSD t, px_budget P) of
        (Some cap, Some R) \<Rightarrow>
          let est = estimateMicro P pv body;
              limit = toMicro (px_arch P) cap;
              key = MonthKey (ID t) (at_budget E)
          in case Reserve R (reserve_link E) r key limit est of
               (r', Inl _) \<Rightarrow>
                 if FailOpen t then (w, r', no_reservation, True)
                 else (writeBudgetUnavailable w t, r', no_reservation, False)
             | (r', Inr (allowed, spend)) \<Rightarrow>
                 if \<not> allowed
                 then (writeBudgetExceeded w t cap (fdiv_const (f64_of_int spend) 1000000), r', no_reservation, False)
                 else (w, r', \<lparr>active = True, res_key = key, estMicro = est\<rparr>, True)
      | _ \<Rightarrow> (w, r, no_reservation, True))"

definition reconcile :: "'r Proxy \<Rightarrow> weather \<Rightarrow> reservation \<Rightarrow> f64 \<Rightarrow> 'r \<Rightarrow> 'r" where
  "reconcile P E res cost r =
     (case px_budget P of
        None \<Rightarrow> r
      | Some R \<Rightarrow>
          if \<not> active res then r
          else fst (Reconcile R (reconcile_link E) r (res_key res) (wrap64 (toMicro (px_arch P) cost - estMicro res))))"

subsection \<open>Metering\<close>

text \<open>\<open>Duration.Milliseconds\<close> truncates toward zero.\<close>

definition Milliseconds :: "int \<Rightarrow> int" where
  "Milliseconds d = (if 0 \<le> d then d div 1000000 else - (- d div 1000000))"

definition enqueue :: "'r Proxy \<Rightarrow> weather \<Rightarrow> reservation \<Rightarrow> Tenant \<Rightarrow> bytes \<Rightarrow> bytes \<Rightarrow> bytes \<Rightarrow> int \<Rightarrow> int \<Rightarrow> bool \<Rightarrow>
    int \<Rightarrow> ('r, 's) gateway \<Rightarrow> ('r, 's) gateway" where
  "enqueue P E res t feature provider model inTok outTok estimated status g =
     (let cost = fst (Cost (px_arch P) (px_prices P) provider model inTok outTok)
      in g\<lparr>gw_redis := reconcile P E res cost (gw_redis g),
           gw_writer := fst (Enqueue (gw_writer g)
             \<lparr>TenantID = ID t, Feature = feature, ev_Provider = provider, ev_Model = model,
              InputTokens = inTok, OutputTokens = outTok, CostUSD = cost, Estimated = estimated,
              ev_Status = status, LatencyMS = Milliseconds (at_done E - at_start E), CreatedAt = at_created E\<rparr>)\<rparr>)"

definition newExtractor :: "bytes \<Rightarrow> bytes \<Rightarrow> Usage \<Rightarrow> Usage" where
  "newExtractor provider = (if provider = ''anthropic'' then anthropic_observe else openai_observe)"

definition parseUsage :: "bytes \<Rightarrow> bytes \<Rightarrow> Usage" where
  "parseUsage provider body =
     (if provider = ''anthropic'' then anthropicNonStreamUsage body else openaiNonStreamUsage body)"

subsection \<open>Responses\<close>

definition bufferedResponse :: "'r Proxy \<Rightarrow> weather \<Rightarrow> ResponseWriter \<Rightarrow> upstream_response \<Rightarrow> Provider \<Rightarrow> bytes \<Rightarrow> bytes \<Rightarrow>
    Tenant \<Rightarrow> reservation \<Rightarrow> ('r, 's) gateway \<Rightarrow> ResponseWriter \<times> ('r, 's) gateway" where
  "bufferedResponse P E w resp pv reqBody feature t res g =
     (let w' = fst (Write (WriteHeader w (up_StatusCode resp)) (up_Body resp))
      in if up_StatusCode resp < 200 \<or> 300 \<le> up_StatusCode resp
         then (w', enqueue P E res t feature (pv_Name pv) (requestModel reqBody) 0 0 False (up_StatusCode resp) g)
         else
           let u0 = parseUsage (pv_Name pv) (up_Body resp);
               estimated = (\<not> HasUsage u0);
               u = (if estimated
                    then u0\<lparr>us_InputTokens := int (length reqBody) div 4, us_OutputTokens := int (length (up_Body resp)) div 4\<rparr>
                    else u0)
           in (w', enqueue P E res t feature (pv_Name pv) (modelOr (us_Model u) reqBody)
                     (us_InputTokens u) (us_OutputTokens u) estimated (up_StatusCode resp) g))"

definition streamResponse :: "'r Proxy \<Rightarrow> weather \<Rightarrow> ResponseWriter \<Rightarrow> upstream_response \<Rightarrow> Provider \<Rightarrow> bool \<Rightarrow> bytes \<Rightarrow>
    bytes \<Rightarrow> Tenant \<Rightarrow> reservation \<Rightarrow> ('r, 's) gateway \<Rightarrow> ResponseWriter \<times> ('r, 's) gateway" where
  "streamResponse P E w resp pv injected reqBody feature t res g =
     (let w1 = WriteHeader w (up_StatusCode resp);
          drp = (if pv_Name pv = ''openai'' \<and> injected then Some usage_frame_filter else None);
          (w', u) = fst (streamSSE Write w1 (up_Body resp) (up_eof resp) (newExtractor (pv_Name pv)) zero_Usage drp)
      in (w', enqueue P E res t feature (pv_Name pv) (modelOr (us_Model u) reqBody)
                (us_InputTokens u) (us_OutputTokens u) (\<not> HasUsage u) (up_StatusCode resp) g))"

fun contains :: "bytes \<Rightarrow> bytes \<Rightarrow> bool" where
  "contains [] p = (p = [])"
| "contains (c # s) p = (has_prefix (c # s) p \<or> contains s p)"

subsection \<open>One request\<close>

definition outbound_request :: "Tenant Request \<Rightarrow> Provider \<Rightarrow> bytes \<Rightarrow> outbound" where
  "outbound_request r pv body =
     (let h = copyHeaders Map.empty (rq_Header r);
          h = Header_Del h ''X-Spendgate-Feature'';
          h = Header_Del h ''Accept-Encoding'';
          h = (if pv_Name pv = ''openai'' then Header_Set h ''Authorization'' (''Bearer '' @ APIKey pv)
               else if pv_Name pv = ''anthropic'' then Header_Set h ''x-api-key'' (APIKey pv)
               else h)
      in \<lparr>ob_Method = Method r,
          ob_Target = BaseURL pv @ trim_prefix (Path r) (Prefix pv) @ (if RawQuery r \<noteq> [] then CHR ''?'' # RawQuery r else []),
          ob_Header = h, ob_Body = body\<rparr>)"

text \<open>
  \<open>forward\<close> in two parts: \<open>send_upstream\<close> is what follows the budget check. A handler that panics
  has written nothing and changed nothing here; the server closes the connection.
\<close>

datatype outcome = Served | Panicked

definition send_upstream :: "'r Proxy \<Rightarrow> weather \<Rightarrow> ResponseWriter \<Rightarrow> Tenant Request \<Rightarrow> Provider \<Rightarrow> Tenant \<Rightarrow> bytes \<Rightarrow>
    bool \<Rightarrow> reservation \<Rightarrow> ('r, 's) gateway \<Rightarrow> ResponseWriter \<times> ('r, 's) gateway" where
  "send_upstream P E w r pv t body injected res g =
     (let feature = Header_Get (rq_Header r) ''X-Spendgate-Feature'';
          fail = enqueue P E res t feature (pv_Name pv) (requestModel body) 0 0 False 502;
          req = outbound_request r pv body;
          g1 = g\<lparr>gw_sent := gw_sent g @ [req]\<rparr>
      in if \<not> url_ok E then (Error w ''bad gateway'' 502, fail g)
         else case upstream E req of
             Inl _ \<Rightarrow> (Error w ''upstream error'' 502, fail g1)
           | Inr resp \<Rightarrow>
               let w1 = w\<lparr>w_header := copyResponseHeaders (w_header w) (up_Header resp)\<rparr>
               in if contains (Header_Get (up_Header resp) ''Content-Type'') ''text/event-stream''
                  then streamResponse P E w1 resp pv injected body feature t res g1
                  else bufferedResponse P E w1 resp pv body feature t res g1)"

definition forward :: "'r Proxy \<Rightarrow> weather \<Rightarrow> ResponseWriter \<Rightarrow> Tenant Request \<Rightarrow> Provider \<Rightarrow> ('r, 's) gateway \<Rightarrow>
    ResponseWriter \<times> ('r, 's) gateway \<times> outcome" where
  "forward P E w r pv g =
     (let t = fst (TenantFrom r)
      in case (if pv_Name pv = ''openai'' then maybeInjectUsage (rq_Body r) else Some (rq_Body r, False)) of
           None \<Rightarrow> (w, g, Panicked)
         | Some (body, injected) \<Rightarrow>
             (case checkBudget P E w pv t body (gw_redis g) of
                (w1, r1, res, go) \<Rightarrow>
                  let g1 = g\<lparr>gw_redis := r1\<rparr>
                  in if \<not> go then (w1, g1, Served)
                     else case send_upstream P E w1 r pv t body injected res g1 of (w2, g2) \<Rightarrow> (w2, g2, Served)))"

fun route :: "Provider list \<Rightarrow> bytes \<Rightarrow> Provider option" where
  "route [] path = None"
| "route (pv # pvs) path = (if has_prefix path (Prefix pv @ ''/'') then Some pv else route pvs path)"

definition ServeHTTP :: "'r Proxy \<Rightarrow> weather \<Rightarrow> ResponseWriter \<Rightarrow> Tenant Request \<Rightarrow> ('r, 's) gateway \<Rightarrow>
    ResponseWriter \<times> ('r, 's) gateway \<times> outcome" where
  "ServeHTTP P E w r g =
     (case route (providers P) (Path r) of
        Some pv \<Rightarrow> forward P E w r pv g
      | None \<Rightarrow> (NotFound w, g, Served))"

end
