(* ===== verification/Replicas.thy ===== *)
theory Replicas
  imports Budget
begin

section \<open>Many gateways on one counter\<close>

text \<open>
  Replicas of the gateway share the Redis server and nothing else. A state is the server with the
  bookkeeping of what has happened: the reservations admitted and not yet reconciled (\<open>inflight\<close>), the
  settled ones with what the counter kept for them (\<open>settled\<close>: key, estimate, amount), and the reservations
  the script made whose reply was lost (\<open>leaked\<close>: the gateway saw an error and never reconciles them). A
  step is one command reaching the server, so a run is any interleaving of the replicas' calls.
\<close>

record 'r bsys =
  rds :: 'r
  inflight :: "(bytes \<times> int) list"
  settled :: "(bytes \<times> int \<times> int) list"
  leaked :: "(bytes \<times> int) list"

definition sum_key :: "bytes \<Rightarrow> (bytes \<times> int) list \<Rightarrow> int" where
  "sum_key k xs = sum_list (map snd (filter (\<lambda>x. fst x = k) xs))"

definition counted :: "bytes \<Rightarrow> (bytes \<times> int \<times> int) list \<Rightarrow> int" where
  "counted k xs = sum_list (map (\<lambda>x. snd (snd x)) (filter (\<lambda>x. fst x = k) xs))"

definition overrun :: "bytes \<Rightarrow> (bytes \<times> int \<times> int) list \<Rightarrow> int" where
  "overrun k xs = sum_list (map (\<lambda>x. max 0 (snd (snd x) - fst (snd x))) (filter (\<lambda>x. fst x = k) xs))"

inductive bstep :: "'r redis \<Rightarrow> (bytes \<Rightarrow> int) \<Rightarrow> 'r bsys \<Rightarrow> 'r bsys \<Rightarrow> bool" for R limit where
  admit: "Reserve R Delivered (rds s) k (limit k) est = (r', Inr (True, spend)) \<Longrightarrow> 0 \<le> est \<Longrightarrow>
     bstep R limit s (s\<lparr>rds := r', inflight := (k, est) # inflight s\<rparr>)"
| deny: "Reserve R Delivered (rds s) k (limit k) est = (r', Inr (False, spend)) \<Longrightarrow> 0 \<le> est \<Longrightarrow>
     bstep R limit s (s\<lparr>rds := r'\<rparr>)"
| fail: "Reserve R net (rds s) k (limit k) est = (r', Inl e) \<Longrightarrow> 0 \<le> est \<Longrightarrow>
     bstep R limit s (s\<lparr>rds := r',
       leaked := (if net = ReplyLost \<and> counter R (rds s) k + est \<le> limit k then (k, est) # leaked s else leaked s)\<rparr>)"
| settle: "(k, est) \<in> set (inflight s) \<Longrightarrow> 0 \<le> actual \<Longrightarrow> in_int64 actual \<Longrightarrow>
     Reconcile R net (rds s) k (actual - est) = (r', res) \<Longrightarrow>
     kept = (if net = NotSent \<or> \<not> in_int64 (counter R (rds s) k + (actual - est)) then est else actual) \<Longrightarrow>
     bstep R limit s (s\<lparr>rds := r', inflight := remove1 (k, est) (inflight s),
       settled := (k, est, kept) # settled s\<rparr>)"

inductive breach :: "'r redis \<Rightarrow> (bytes \<Rightarrow> int) \<Rightarrow> 'r bsys \<Rightarrow> bool" for R limit where
  start: "(\<And>k. counter R r k = 0) \<Longrightarrow> breach R limit \<lparr>rds = r, inflight = [], settled = [], leaked = []\<rparr>"
| step: "breach R limit s \<Longrightarrow> bstep R limit s t \<Longrightarrow> breach R limit t"

definition binv :: "'r redis \<Rightarrow> (bytes \<Rightarrow> int) \<Rightarrow> 'r bsys \<Rightarrow> bool" where
  "binv R limit s \<longleftrightarrow>
     (\<forall>k. counter R (rds s) k = sum_key k (inflight s) + counted k (settled s) + sum_key k (leaked s))
   \<and> (\<forall>k. counter R (rds s) k \<le> max 0 (limit k) + overrun k (settled s))
   \<and> (\<forall>x\<in>set (inflight s). 0 \<le> snd x) \<and> (\<forall>x\<in>set (leaked s). 0 \<le> snd x)
   \<and> (\<forall>x\<in>set (settled s). 0 \<le> snd (snd x))"

lemma sum_key_simps [simp]:
  "sum_key k [] = 0"
  "sum_key k (x # xs) = (if fst x = k then snd x else 0) + sum_key k xs"
  by (simp_all add: sum_key_def)

lemma counted_simps [simp]:
  "counted k [] = 0"
  "counted k (x # xs) = (if fst x = k then snd (snd x) else 0) + counted k xs"
  by (simp_all add: counted_def)

lemma overrun_simps [simp]:
  "overrun k [] = 0"
  "overrun k (x # xs) = (if fst x = k then max 0 (snd (snd x) - fst (snd x)) else 0) + overrun k xs"
  by (simp_all add: overrun_def)

lemma sum_key_remove1 [simp]:
  "x \<in> set xs \<Longrightarrow> sum_key k (remove1 x xs) = sum_key k xs - (if fst x = k then snd x else 0)"
  by (induction xs) auto

lemma sum_key_nonneg: "\<forall>x\<in>set xs. 0 \<le> snd x \<Longrightarrow> 0 \<le> sum_key k xs"
  by (induction xs) auto

lemma counted_nonneg: "\<forall>x\<in>set xs. 0 \<le> snd (snd x) \<Longrightarrow> 0 \<le> counted k xs"
  by (induction xs) auto

lemma overrun_nonneg [simp]: "0 \<le> overrun k xs"
  by (induction xs) auto

lemma binv_nonneg: "binv R limit s \<Longrightarrow> 0 \<le> counter R (rds s) k"
  using sum_key_nonneg [of "inflight s" k] sum_key_nonneg [of "leaked s" k] counted_nonneg [of "settled s" k]
  by (simp add: binv_def)

lemma binv_cap: "binv R limit s \<Longrightarrow> counter R (rds s) k \<le> max 0 (limit k) + overrun k (settled s)"
  unfolding binv_def by blast

lemma binv_covers:
  "binv R limit s \<Longrightarrow> counted k (settled s) + sum_key k (inflight s) \<le> counter R (rds s) k"
  using sum_key_nonneg [of "leaked s" k] by (simp add: binv_def)

context redis_server
begin

lemma reserve_effect:
  assumes "0 \<le> counter R s k" "0 \<le> est" "limit < 2 ^ 53" "Reserve R net s k limit est = (s', r)"
  shows "counter R s' j =
     (if j = k \<and> net \<noteq> NotSent \<and> counter R s k + est \<le> limit then counter R s j + est else counter R s j)"
  and "net = Delivered \<Longrightarrow> \<exists>sp. r = Inr (counter R s k + est \<le> limit, sp)"
proof -
  have "counter R s' j =
     (if j = k \<and> net \<noteq> NotSent \<and> counter R s k + est \<le> limit then counter R s j + est else counter R s j)
     \<and> (net = Delivered \<longrightarrow> (\<exists>sp. r = Inr (counter R s k + est \<le> limit, sp)))"
  proof (cases "counter R s k + est \<le> limit")
    case True
    from script_allow [OF assms(1,2) True assms(3)] obtain t where
      "reserve_script R s k limit est = (Some [1, counter R s k + est], t)"
      "\<And>j. counter R t j = (if j = k then counter R s k + est else counter R s j)" by metis
    with assms(4) True show ?thesis by (auto simp: Reserve_def split: link.splits)
  next
    case False
    with script_deny [OF assms(1,2) _ assms(3)] assms(4) show ?thesis
      by (auto simp: Reserve_def split: link.splits)
  qed
  then show "counter R s' j =
     (if j = k \<and> net \<noteq> NotSent \<and> counter R s k + est \<le> limit then counter R s j + est else counter R s j)"
    and "net = Delivered \<Longrightarrow> \<exists>sp. r = Inr (counter R s k + est \<le> limit, sp)" by auto
qed

lemma reconcile_effect:
  assumes "Reconcile R net s k d = (s', res)"
  shows "counter R s' j =
     (if j = k \<and> net \<noteq> NotSent \<and> in_int64 (counter R s k + d) then counter R s j + d else counter R s j)"
  using assms incrby_cases [of s k d] counter_incrby [of s k d]
  by (auto simp: Reconcile_def split: link.splits if_splits)

lemma cap_intro: "x \<le> limit j \<Longrightarrow> x \<le> max 0 (limit j) + overrun j h"
  using overrun_nonneg [of j h] by (simp add: max_def add_increasing2)

lemma binv_step:
  assumes "bstep R limit s t" "binv R limit s" "\<And>k. limit k < 2 ^ 53"
  shows "binv R limit t"
  using assms(1)
proof cases
  case (admit k est r' spend)
  note eff = reserve_effect [OF binv_nonneg [OF assms(2)] admit(3) assms(3) admit(2)]
  then have "counter R r' j = (if j = k then counter R (rds s) j + est else counter R (rds s) j)" for j by auto
  moreover have "counter R (rds s) k + est \<le> limit k" using eff by auto
  ultimately show ?thesis using assms(2) admit(1,3) by (auto simp: binv_def intro: cap_intro)
next
  case (deny k est r' spend)
  note eff = reserve_effect [OF binv_nonneg [OF assms(2)] deny(3) assms(3) deny(2)]
  then have "counter R r' j = counter R (rds s) j" for j by auto
  then show ?thesis using assms(2) deny(1) by (auto simp: binv_def)
next
  case (fail net k est r' e)
  note eff = reserve_effect [OF binv_nonneg [OF assms(2)] fail(3) assms(3) fail(2)]
  show ?thesis
  proof (cases "net = ReplyLost \<and> counter R (rds s) k + est \<le> limit k")
    case True
    then have "counter R r' j = (if j = k then counter R (rds s) j + est else counter R (rds s) j)" for j
      using eff by auto
    with True show ?thesis using assms(2) fail(1,3) by (auto simp: binv_def intro: cap_intro)
  next
    case False
    then have "counter R r' j = counter R (rds s) j" for j using eff by (cases net) auto
    with False show ?thesis using assms(2) fail(1) by (auto simp: binv_def)
  qed
next
  case (settle k est actual net r' res kept)
  have "counter R r' j = counter R (rds s) j + (if j = k then kept - est else 0)" for j
    using reconcile_effect [OF settle(5), of j] settle(6) by auto
  moreover have "0 \<le> kept" using settle assms(2) by (auto simp: binv_def)
  moreover have "\<forall>x\<in>set (remove1 (k, est) (inflight s)). 0 \<le> snd x"
    using assms(2) by (auto simp: binv_def dest: notin_set_remove1 [rotated] set_remove1_subset [THEN subsetD])
  moreover have "counter R (rds s) j + (if j = k then kept - est else 0)
      \<le> max 0 (limit j) + overrun j ((k, est, kept) # settled s)" for j
    using binv_cap [OF assms(2), of j] max.cobounded2 [of 0 "kept - est"]
    by (auto simp del: max.cobounded2)
  ultimately show ?thesis using assms(2) settle(1,2)
    by (simp add: binv_def)
qed

lemma binv_start:
  "(\<And>k. counter R r k = 0) \<Longrightarrow> binv R limit \<lparr>rds = r, inflight = [], settled = [], leaked = []\<rparr>"
  by (simp add: binv_def)

lemma breach_binv:
  assumes "breach R limit s" "\<And>k. limit k < 2 ^ 53" shows "binv R limit s"
  using assms(1)
proof (induction rule: breach.induct)
  case (start r) then show ?case by (rule binv_start)
next
  case (step s t) then show ?case by (intro binv_step [OF step.hyps(2) step.IH assms(2)])
qed

end

text \<open>C12: however the reservations, lost replies, failures and reconciliations of any number of
  gateways interleave on one server, a counter never exceeds its cap by more than the amount by which settled
  requests cost more than they had reserved, and it covers everything settled and everything in flight.\<close>

theorem cap_exact_across_replicas:
  assumes "redis_server R" and "\<And>k. limit k < 2 ^ 53" and "breach R limit s"
  shows "counter R (rds s) k \<le> max 0 (limit k) + overrun k (settled s)
       \<and> counted k (settled s) + sum_key k (inflight s) \<le> counter R (rds s) k"
proof -
  have "binv R limit s" by (rule redis_server.breach_binv [OF assms(1,3,2)])
  then show ?thesis using binv_cap binv_covers by blast
qed

lemma run_example:
  "breach mem_redis (\<lambda>_. 1000) \<lparr>rds = [''k'' \<mapsto> (1100, ttlSeconds)], inflight = [],
     settled = [(''k'', 600, 1100)], leaked = []\<rparr>"
proof -
  let ?B = "\<lambda>r i h. \<lparr>rds = r, inflight = i, settled = h, leaked = []\<rparr> :: mem bsys"
  have 0: "breach mem_redis (\<lambda>_. 1000) (?B Map.empty [] [])" by (rule breach.start) simp
  have 1: "breach mem_redis (\<lambda>_. 1000) (?B [''k'' \<mapsto> (600, ttlSeconds)] [(''k'', 600)] [])"
    using breach.step [OF 0 bstep.admit [of mem_redis "?B Map.empty [] []", simplified bsys.simps,
        OF Reserve_mem_fresh]] by (simp add: fun_upd_def)
  have r: "Reconcile mem_redis Delivered [''k'' \<mapsto> (600, ttlSeconds)] ''k'' (1100 - 600)
      = ([''k'' \<mapsto> (1100, ttlSeconds)], Inr ())"
    by (simp add: Reconcile_def mem_redis_def int64_defs)
  show ?thesis
    using breach.step [OF 1 bstep.settle [of "''k''" 600 _ 1100 mem_redis Delivered, OF _ _ _ _ refl]] r
    by (simp add: int64_defs)
qed

theorem cap_exact_across_replicas_witness:
  "(1100 :: int) \<le> 1000 + overrun ''k'' [(''k'', 600, 1100)] \<and> counted ''k'' [(''k'', 600, 1100)] = 1100"
  using cap_exact_across_replicas [OF mem.redis_server_axioms _ run_example, of "''k''"] by simp

end
