(* ===== verification/Gateway.thy ===== *)
theory Gateway
  imports Proxy Replicas
begin

section \<open>Gateway: what one request does\<close>

text \<open>
  The properties of the hot path that \<open>Proxy\<close> models, from the budget gate to the response: who is
  refused, what is sent upstream, what is metered and charged, and what the client receives. They
  rest on the contract of the Redis server, the relay's refinement and the meter's \<open>Enqueue\<close>.
\<close>

subsection \<open>The budget gate\<close>

abbreviation request_tenant :: "Tenant Request \<Rightarrow> Tenant" where
  "request_tenant r \<equiv> (case rq_tenant r of Some t \<Rightarrow> t | None \<Rightarrow> zero_Tenant)"

definition outgoing_body :: "Provider \<Rightarrow> bytes \<Rightarrow> (bytes \<times> bool) option" where
  "outgoing_body pv body = (if pv_Name pv = ''openai'' then maybeInjectUsage body else Some (body, False))"

definition budget_key :: "weather \<Rightarrow> Tenant Request \<Rightarrow> bytes" where
  "budget_key E r = MonthKey (ID (request_tenant r)) (at_budget E)"

lemma write_json_status [simp]: "w_status w = None \<Longrightarrow> w_status (write_json w c v) = Some c"
  by (auto simp: write_json_def Let_def split: option.split)

lemma ServeHTTP_forward:
  "route (providers P) (Path r) = Some pv \<Longrightarrow> ServeHTTP P E w r g = forward P E w r pv g"
  by (simp add: ServeHTTP_def)

lemma forward_unfold:
  assumes "outgoing_body pv (rq_Body r) = Some (body, injected)"
    and "checkBudget P E w pv (request_tenant r) body (gw_redis g) = (w1, r1, res, go)"
  shows "forward P E w r pv g =
     (if \<not> go then (w1, g\<lparr>gw_redis := r1\<rparr>, Served)
      else case send_upstream P E w1 r pv (request_tenant r) body injected res (g\<lparr>gw_redis := r1\<rparr>) of
        (w2, g2) \<Rightarrow> (w2, g2, Served))"
  using assms by (auto simp: forward_def outgoing_body_def Let_def)

text \<open>C5: a request whose reservation would exceed the tenant's cap is answered with 429 and has no
  other effect: nothing is sent upstream, metered, or charged.\<close>

theorem over_budget_is_refused:
  assumes "redis_server R" and "px_budget P = Some R" and "reserve_link E = Delivered"
    and "MonthlyBudgetUSD (request_tenant r) = Some cap"
    and "route (providers P) (Path r) = Some pv" and "outgoing_body pv (rq_Body r) = Some (body, injected)"
    and "0 \<le> counter R (gw_redis g) (budget_key E r)" and "0 \<le> estimateMicro P pv body"
    and "toMicro (px_arch P) cap < 2 ^ 53"
    and "toMicro (px_arch P) cap < counter R (gw_redis g) (budget_key E r) + estimateMicro P pv body"
    and "w_status w = None"
  shows "\<exists>w'. ServeHTTP P E w r g = (w', g, Served) \<and> w_status w' = Some 429"
proof -
  obtain sp where deny: "Reserve R Delivered (gw_redis g) (budget_key E r) (toMicro (px_arch P) cap) (estimateMicro P pv body)
      = (gw_redis g, Inr (False, sp))"
    using redis_server.script_deny [OF assms(1,7,8,10,9)] by (simp add: Reserve_def)
  obtain w' where c: "checkBudget P E w pv (request_tenant r) body (gw_redis g) = (w', gw_redis g, no_reservation, False)"
    and "w_status w' = Some 429"
    using deny assms(2-4,11)
    by (auto simp: checkBudget_def Let_def budget_key_def writeBudgetExceeded_def)
  then show ?thesis using forward_unfold [OF assms(6) c] by (simp add: ServeHTTP_forward [OF assms(5)])
qed

lemma enqueue_inactive:
  "\<not> active res \<Longrightarrow> enqueue (P\<lparr>px_budget := None\<rparr>) E res = enqueue P E res"
  by (intro ext) (simp add: enqueue_def reconcile_def Let_def split: option.split)

lemma send_upstream_inactive:
  "\<not> active res \<Longrightarrow> send_upstream (P\<lparr>px_budget := None\<rparr>) E w r pv t body injected res g = send_upstream P E w r pv t body injected res g"
  unfolding send_upstream_def streamResponse_def bufferedResponse_def
  by (subst enqueue_inactive, assumption)+ (rule refl)

text \<open>C9: when Redis cannot be reached, a tenant that fails open is served exactly as if there were no
  budget enforcement, and a tenant that fails closed gets 503 and nothing else happens.\<close>

theorem redis_outage_policy:
  assumes "px_budget P = Some R" and "reserve_link E = NotSent"
    and "MonthlyBudgetUSD (request_tenant r) = Some cap" and "w_status w = None"
    and "route (providers P) (Path r) = Some pv" and "outgoing_body pv (rq_Body r) = Some (body, injected)"
  shows "if FailOpen (request_tenant r)
         then ServeHTTP P E w r g = ServeHTTP (P\<lparr>px_budget := None\<rparr>) E w r g
         else \<exists>w'. ServeHTTP P E w r g = (w', g, Served) \<and> w_status w' = Some 503"
proof -
  let ?t = "request_tenant r"
  let ?P = "P\<lparr>px_budget := None\<rparr>"
  have r: "route (providers ?P) (Path r) = Some pv" using assms(5) by simp
  have n: "checkBudget ?P E w pv ?t body (gw_redis g) = (w, gw_redis g, no_reservation, True)"
    by (simp add: checkBudget_def split: option.split)
  have i: "\<not> active no_reservation" by (simp add: no_reservation_def)
  show ?thesis
  proof (cases "FailOpen ?t")
    case True
    then have e: "checkBudget P E w pv ?t body (gw_redis g) = (w, gw_redis g, no_reservation, True)"
      using assms(1-3) by (simp add: checkBudget_def Let_def Reserve_def)
    with True show ?thesis
      unfolding ServeHTTP_forward [OF assms(5)] ServeHTTP_forward [OF r]
        forward_unfold [OF assms(6) e] forward_unfold [OF assms(6) n] send_upstream_inactive [OF i] by simp
  next
    case False
    then have e: "checkBudget P E w pv ?t body (gw_redis g) = (writeBudgetUnavailable w ?t, gw_redis g, no_reservation, False)"
      using assms(1-3) by (simp add: checkBudget_def Let_def Reserve_def)
    with False assms(4) show ?thesis
      unfolding ServeHTTP_forward [OF assms(5)] forward_unfold [OF assms(6) e]
      by (simp add: writeBudgetUnavailable_def)
  qed
qed

subsection \<open>One request, one event, one charge\<close>

text \<open>\<open>settles\<close>: what the end of a request does with the event it meters.\<close>

definition settles :: "'r Proxy \<Rightarrow> weather \<Rightarrow> reservation \<Rightarrow> Tenant Request \<Rightarrow> Provider \<Rightarrow> bytes \<Rightarrow> Event \<Rightarrow>
    ('r, 's) gateway \<Rightarrow> ResponseWriter \<times> ('r, 's) gateway \<Rightarrow> bool" where
  "settles P E res r pv body ev g = (\<lambda>(w', g').
     gw_redis g' = reconcile P E res (CostUSD ev) (gw_redis g)
   \<and> gw_writer g' = fst (Enqueue (gw_writer g) ev)
   \<and> gw_sent g' = gw_sent g @ (if url_ok E then [outbound_request r pv body] else [])
   \<and> TenantID ev = ID (request_tenant r) \<and> ev_Provider ev = pv_Name pv
   \<and> Feature ev = Header_Get (rq_Header r) ''X-Spendgate-Feature''
   \<and> CostUSD ev = fst (Cost (px_arch P) (px_prices P) (pv_Name pv) (ev_Model ev) (InputTokens ev) (OutputTokens ev))
   \<and> w_status w' = Some (ev_Status ev))"

lemma enqueue_settles:
  assumes "t = request_tenant r" "w_status w' = Some status"
    and "gw_sent g1 = gw_sent g @ (if url_ok E then [outbound_request r pv body] else [])"
    and "gw_redis g1 = gw_redis g" "gw_writer g1 = gw_writer g"
  shows "\<exists>ev. settles P E res r pv body ev g
     (w', enqueue P E res t (Header_Get (rq_Header r) ''X-Spendgate-Feature'') (pv_Name pv) model i n est status g1)"
  using assms by (auto simp: settles_def enqueue_def Let_def intro!: exI)

lemma relay_status: "w_status w = Some c \<Longrightarrow> w_status (fst (fst (relay_events Write ob drp evs w u))) = Some c"
proof (induction evs arbitrary: w u)
  case (Cons ev evs)
  obtain w1 ok where w: "Write w (concat ev) = (w1, ok)" by fastforce
  have "w_status (fst (Write w (concat ev))) = Some c" using Cons.prems by simp
  with w Cons show ?case by (cases ok) (simp_all add: Let_def)
qed simp

lemma streamSSE_status: "w_status w = Some c \<Longrightarrow> w_status (fst (fst (streamSSE Write w src eof ob u drp))) = Some c"
proof (cases "streamSSE Write w src eof ob u drp")
  case (Pair st e)
  assume "w_status w = Some c"
  then show ?thesis using sse_stream_events [OF Pair] relay_status [of w c ob drp "events_of src" u] Pair by auto
qed

lemma send_upstream_settles:
  assumes "w_status w = None"
  shows "\<exists>ev. settles P E res r pv body ev g (send_upstream P E w r pv (request_tenant r) body injected res g)"
proof (cases "url_ok E")
  case False
  then show ?thesis using assms
    by (simp add: send_upstream_def Let_def) (rule enqueue_settles; simp)
next
  case ok: True
  define g1 where "g1 = g\<lparr>gw_sent := gw_sent g @ [outbound_request r pv body]\<rparr>"
  have g1: "gw_sent g1 = gw_sent g @ (if url_ok E then [outbound_request r pv body] else [])"
    "gw_redis g1 = gw_redis g" "gw_writer g1 = gw_writer g" using ok by (simp_all add: g1_def)
  note es = enqueue_settles [OF refl _ g1]
  show ?thesis
  proof (cases "upstream E (outbound_request r pv body)")
    case (Inl e)
    then show ?thesis using ok assms
      by (simp add: send_upstream_def Let_def g1_def [symmetric]) (rule es; simp)
  next
    case (Inr resp)
    define w1 where "w1 = w\<lparr>w_header := copyResponseHeaders (w_header w) (up_Header resp)\<rparr>"
    have w1: "w_status w1 = None" using assms by (simp add: w1_def)
    have "\<exists>ev. settles P E res r pv body ev g
        (streamResponse P E w1 resp pv injected body (Header_Get (rq_Header r) ''X-Spendgate-Feature'') (request_tenant r) res g1)"
    proof -
      define drp where "drp = (if pv_Name pv = ''openai'' \<and> injected then Some usage_frame_filter else None)"
      obtain w' u e where st: "streamSSE Write (WriteHeader w1 (up_StatusCode resp)) (up_Body resp) (up_eof resp)
          (newExtractor (pv_Name pv)) zero_Usage drp = ((w', u), e)" by (metis prod_cases3 surj_pair)
      have "w_status w' = Some (up_StatusCode resp)"
        using streamSSE_status [of "WriteHeader w1 (up_StatusCode resp)" "up_StatusCode resp"] w1 st by (metis WriteHeader_fresh fst_conv)
      then show ?thesis unfolding streamResponse_def Let_def drp_def [symmetric] st
        by simp (rule es)
    qed
    moreover have "\<exists>ev. settles P E res r pv body ev g
        (bufferedResponse P E w1 resp pv body (Header_Get (rq_Header r) ''X-Spendgate-Feature'') (request_tenant r) res g1)"
      using w1 unfolding bufferedResponse_def Let_def by (auto intro!: es)
    ultimately show ?thesis
      using ok Inr by (simp add: send_upstream_def Let_def g1_def [symmetric] w1_def [symmetric])
  qed
qed

lemma checkBudget_go:
  "checkBudget P E w pv t body r = (w1, r1, res, True) \<Longrightarrow> w1 = w"
  by (auto simp: checkBudget_def Let_def split: option.splits prod.splits sum.splits if_splits)

lemma ServeHTTP_settles:
  assumes "ServeHTTP P E w r g = (w', g', out)" and "w_status w = None"
  shows "gw_sent g' = gw_sent g \<and> gw_writer g' = gw_writer g
    \<or> (\<exists>pv body injected ev res r1. route (providers P) (Path r) = Some pv
        \<and> outgoing_body pv (rq_Body r) = Some (body, injected) \<and> out = Served
        \<and> settles P E res r pv body ev (g\<lparr>gw_redis := r1\<rparr>) (w', g'))"
proof (cases "route (providers P) (Path r)")
  case None then show ?thesis using assms(1) by (simp add: ServeHTTP_def)
next
  case (Some pv)
  note fw = assms(1) [unfolded ServeHTTP_forward [OF Some]]
  show ?thesis
  proof (cases "outgoing_body pv (rq_Body r)")
    case None then show ?thesis using fw by (simp add: forward_def outgoing_body_def)
  next
    case ob: (Some bi)
    obtain body injected where bi: "bi = (body, injected)" by (cases bi)
    obtain w1 r1 res go where cb: "checkBudget P E w pv (request_tenant r) body (gw_redis g) = (w1, r1, res, go)"
      by (metis prod_cases4)
    note fu = fw [unfolded forward_unfold [OF ob [unfolded bi] cb]]
    show ?thesis
    proof (cases go)
      case False then show ?thesis using fu by auto
    next
      case True
      with cb have "w1 = w" by (simp add: checkBudget_go)
      with send_upstream_settles [OF assms(2), of P E res r pv body "g\<lparr>gw_redis := r1\<rparr>" injected] fu True Some ob bi
      show ?thesis by (fastforce split: prod.splits)
    qed
  qed
qed

text \<open>C8: every request either leaves the upstream and the meter alone, or it is sent upstream at most
  once, never retried, and hands exactly one event to the meter: for its tenant, feature and provider, with
  the status the client got and the cost of its tokens.\<close>

theorem one_request_one_event:
  assumes "ServeHTTP P E w r g = (w', g', out)" and "w_status w = None"
  shows "gw_sent g' = gw_sent g \<and> gw_writer g' = gw_writer g
    \<or> (\<exists>pv body injected ev. route (providers P) (Path r) = Some pv \<and> outgoing_body pv (rq_Body r) = Some (body, injected)
        \<and> out = Served \<and> w_status w' = Some (ev_Status ev)
        \<and> gw_sent g' = gw_sent g @ (if url_ok E then [outbound_request r pv body] else [])
        \<and> gw_writer g' = fst (Enqueue (gw_writer g) ev)
        \<and> TenantID ev = ID (request_tenant r) \<and> ev_Provider ev = pv_Name pv
        \<and> Feature ev = Header_Get (rq_Header r) ''X-Spendgate-Feature''
        \<and> CostUSD ev = fst (Cost (px_arch P) (px_prices P) (pv_Name pv) (ev_Model ev) (InputTokens ev) (OutputTokens ev)))"
  using ServeHTTP_settles [OF assms] by (fastforce simp: settles_def)

lemma ServeHTTP_admitted:
  assumes "route (providers P) (Path r) = Some pv" "outgoing_body pv (rq_Body r) = Some (body, injected)"
    and "checkBudget P E w pv (request_tenant r) body (gw_redis g) = (w, r1, res, True)"
    and "ServeHTTP P E w r g = (w', g', out)" "w_status w = None"
  shows "\<exists>ev. settles P E res r pv body ev (g\<lparr>gw_redis := r1\<rparr>) (w', g')"
proof -
  have "send_upstream P E w r pv (request_tenant r) body injected res (g\<lparr>gw_redis := r1\<rparr>) = (w', g')"
    using assms(4) unfolding ServeHTTP_forward [OF assms(1)] forward_unfold [OF assms(2,3)]
    by (simp split: prod.splits)
  with send_upstream_settles [OF assms(5), of P E res r pv body "g\<lparr>gw_redis := r1\<rparr>" injected] show ?thesis by simp
qed

text \<open>
  What an admitted request reserves, and that reconciling leaves exactly the metered cost of it on
  the counter.
\<close>

lemma admitted_reservation:
  assumes "redis_server R" and "px_budget P = Some R"
    and "reserve_link E = Delivered" and "reconcile_link E = Delivered"
    and "MonthlyBudgetUSD (request_tenant r) = Some cap"
    and "0 \<le> counter R rd (budget_key E r)" and "0 \<le> estimateMicro P pv body"
    and "toMicro (px_arch P) cap < 2 ^ 53"
    and "counter R rd (budget_key E r) + estimateMicro P pv body \<le> toMicro (px_arch P) cap"
  obtains r1 res where "checkBudget P E w pv (request_tenant r) body rd = (w, r1, res, True)"
    and "\<And>cost k. 0 \<le> toMicro (px_arch P) cost \<Longrightarrow> toMicro (px_arch P) cost < 2 ^ 62 \<Longrightarrow>
      counter R (reconcile P E res cost r1) k
        = counter R rd k + (if k = budget_key E r then toMicro (px_arch P) cost else 0)"
proof -
  let ?key = "budget_key E r" and ?est = "estimateMicro P pv body" and ?c = "counter R rd"
  from redis_server.script_allow [OF assms(1,6,7,9,8)] obtain r1 where
    script: "reserve_script R rd ?key (toMicro (px_arch P) cap) ?est = (Some [1, ?c ?key + ?est], r1)"
    and cnt: "\<And>j. counter R r1 j = (if j = ?key then ?c ?key + ?est else ?c j)" by metis
  define res where "res = \<lparr>active = True, res_key = ?key, estMicro = ?est\<rparr>"
  have cb: "checkBudget P E w pv (request_tenant r) body rd = (w, r1, res, True)"
    using script assms(2,3,5) by (simp add: checkBudget_def Let_def Reserve_def budget_key_def res_def)
  have "counter R (reconcile P E res cost r1) k = ?c k + (if k = ?key then toMicro (px_arch P) cost else 0)"
    if m: "0 \<le> toMicro (px_arch P) cost" "toMicro (px_arch P) cost < 2 ^ 62" for cost k
  proof -
    have b: "in_int64 (toMicro (px_arch P) cost - ?est)" "in_int64 (?c ?key + ?est + (toMicro (px_arch P) cost - ?est))"
      using m assms(6-9) by (simp_all add: int64_defs)
    obtain x where rc: "Reconcile R Delivered r1 ?key (toMicro (px_arch P) cost - ?est) = (reconcile P E res cost r1, x)"
      using assms(2,4) b(1)
      by (cases "Reconcile R Delivered r1 ?key (toMicro (px_arch P) cost - ?est)") (simp add: reconcile_def res_def)
    from redis_server.reconcile_effect [OF assms(1) rc, of k] b(2) show ?thesis by (simp add: cnt)
  qed
  with cb show ?thesis by (rule that)
qed

text \<open>C1: an admitted request charges its tenant's counter of the month exactly the metered cost of its
  event, whatever was estimated, and no other counter.\<close>

theorem settled_charge_is_metered_cost:
  assumes "redis_server R" and "px_budget P = Some R"
    and "reserve_link E = Delivered" and "reconcile_link E = Delivered"
    and "MonthlyBudgetUSD (request_tenant r) = Some cap"
    and "route (providers P) (Path r) = Some pv" and "outgoing_body pv (rq_Body r) = Some (body, injected)"
    and "0 \<le> counter R (gw_redis g) (budget_key E r)" and "0 \<le> estimateMicro P pv body"
    and "toMicro (px_arch P) cap < 2 ^ 53"
    and "counter R (gw_redis g) (budget_key E r) + estimateMicro P pv body \<le> toMicro (px_arch P) cap"
    and "ServeHTTP P E w r g = (w', g', out)" and "w_status w = None"
  shows "\<exists>ev. gw_writer g' = fst (Enqueue (gw_writer g) ev)
    \<and> gw_sent g' = gw_sent g @ (if url_ok E then [outbound_request r pv body] else [])
    \<and> (0 \<le> toMicro (px_arch P) (CostUSD ev) \<and> toMicro (px_arch P) (CostUSD ev) < 2 ^ 62 \<longrightarrow>
        (\<forall>k. counter R (gw_redis g') k = counter R (gw_redis g) k
           + (if k = budget_key E r then toMicro (px_arch P) (CostUSD ev) else 0)))"
proof -
  from admitted_reservation [OF assms(1-5,8-11), of w] obtain r1 res where
    cb: "checkBudget P E w pv (request_tenant r) body (gw_redis g) = (w, r1, res, True)"
    and settle: "\<And>cost k. 0 \<le> toMicro (px_arch P) cost \<Longrightarrow> toMicro (px_arch P) cost < 2 ^ 62 \<Longrightarrow>
      counter R (reconcile P E res cost r1) k
        = counter R (gw_redis g) k + (if k = budget_key E r then toMicro (px_arch P) cost else 0)" by blast
  from ServeHTTP_admitted [OF assms(6,7) cb assms(12,13)] obtain ev where
    ev: "settles P E res r pv body ev (g\<lparr>gw_redis := r1\<rparr>) (w', g')" by blast
  then have "gw_redis g' = reconcile P E res (CostUSD ev) r1" by (simp add: settles_def)
  with ev settle [of "CostUSD ev"] show ?thesis by (intro exI [of _ ev]) (auto simp: settles_def)
qed

text \<open>A response whose model has no price costs nothing, whatever was reserved.\<close>

lemma Cost_unpriced: "t (provider, model) = None \<Longrightarrow> fst (Cost A t provider model i n) = Fin 0"
  by (simp add: Cost_def)

subsection \<open>Buffered responses\<close>

definition event_stream :: "upstream_response \<Rightarrow> bool" where
  "event_stream resp \<longleftrightarrow> contains (Header_Get (up_Header resp) ''Content-Type'') ''text/event-stream''"

lemma send_upstream_response:
  assumes "url_ok E" "upstream E (outbound_request r pv body) = Inr resp"
  shows "send_upstream P E w r pv t body injected res g =
     (let w1 = w\<lparr>w_header := copyResponseHeaders (w_header w) (up_Header resp)\<rparr>;
          g1 = g\<lparr>gw_sent := gw_sent g @ [outbound_request r pv body]\<rparr>;
          feature = Header_Get (rq_Header r) ''X-Spendgate-Feature''
      in if event_stream resp then streamResponse P E w1 resp pv injected body feature t res g1
         else bufferedResponse P E w1 resp pv body feature t res g1)"
  using assms by (simp add: send_upstream_def Let_def event_stream_def)

lemma buffered_redis:
  "\<not> (up_StatusCode resp < 200 \<or> 300 \<le> up_StatusCode resp) \<Longrightarrow>
   \<exists>i n. gw_redis (snd (bufferedResponse P E w resp pv body feature t res g)) = reconcile P E res
     (fst (Cost (px_arch P) (px_prices P) (pv_Name pv) (modelOr (us_Model (parseUsage (pv_Name pv) (up_Body resp))) body) i n))
     (gw_redis g)"
  by (auto simp: bufferedResponse_def Let_def enqueue_def)

lemma buffered_writer:
  "fst (bufferedResponse P E w resp pv body feature t res g) = fst (Write (WriteHeader w (up_StatusCode resp)) (up_Body resp))"
  by (simp add: bufferedResponse_def Let_def)

text \<open>The same request after the upstream answered.\<close>

lemma ServeHTTP_answered:
  assumes "route (providers P) (Path r) = Some pv" "outgoing_body pv (rq_Body r) = Some (body, injected)"
    and "checkBudget P E w pv (request_tenant r) body (gw_redis g) = (w, r1, res, True)"
    and "url_ok E" "upstream E (outbound_request r pv body) = Inr resp"
    and "ServeHTTP P E w r g = (w', g', out)"
  obtains h g2 f where "gw_redis g2 = r1" "gw_writer g2 = gw_writer g"
    and "(if event_stream resp then streamResponse P E (w\<lparr>w_header := h\<rparr>) resp pv injected body f (request_tenant r) res g2
          else bufferedResponse P E (w\<lparr>w_header := h\<rparr>) resp pv body f (request_tenant r) res g2) = (w', g')"
proof -
  have "send_upstream P E w r pv (request_tenant r) body injected res (g\<lparr>gw_redis := r1\<rparr>) = (w', g')"
    using assms(6) unfolding ServeHTTP_forward [OF assms(1)] forward_unfold [OF assms(2,3)]
    by (simp split: prod.splits)
  then show ?thesis
    by (intro that [where h = "copyResponseHeaders (w_header w) (up_Header resp)"])
       (auto simp: send_upstream_response [OF assms(4,5)] Let_def)
qed

text \<open>C21: a successful response that names a model without a price releases the whole reservation: the
  counters are as they were before the request, although the request's own model may have a price.\<close>

theorem unpriced_response_is_free:
  assumes "redis_server R" and "px_budget P = Some R"
    and "reserve_link E = Delivered" and "reconcile_link E = Delivered"
    and "MonthlyBudgetUSD (request_tenant r) = Some cap"
    and "route (providers P) (Path r) = Some pv" and "outgoing_body pv (rq_Body r) = Some (body, injected)"
    and "0 \<le> counter R (gw_redis g) (budget_key E r)" and "0 \<le> estimateMicro P pv body"
    and "toMicro (px_arch P) cap < 2 ^ 53"
    and "counter R (gw_redis g) (budget_key E r) + estimateMicro P pv body \<le> toMicro (px_arch P) cap"
    and "url_ok E" and "upstream E (outbound_request r pv body) = Inr resp" and "\<not> event_stream resp"
    and "200 \<le> up_StatusCode resp" and "up_StatusCode resp < 300"
    and "us_Model (parseUsage (pv_Name pv) (up_Body resp)) = model" and "model \<noteq> []"
    and "px_prices P (pv_Name pv, model) = None"
    and "ServeHTTP P E w r g = (w', g', out)"
  shows "counter R (gw_redis g') k = counter R (gw_redis g) k"
proof -
  from admitted_reservation [OF assms(1-5,8-11), of w] obtain r1 res where
    cb: "checkBudget P E w pv (request_tenant r) body (gw_redis g) = (w, r1, res, True)"
    and settle: "\<And>cost k. 0 \<le> toMicro (px_arch P) cost \<Longrightarrow> toMicro (px_arch P) cost < 2 ^ 62 \<Longrightarrow>
      counter R (reconcile P E res cost r1) k
        = counter R (gw_redis g) k + (if k = budget_key E r then toMicro (px_arch P) cost else 0)" by blast
  from ServeHTTP_answered [OF assms(6,7) cb assms(12,13,20)] assms(14) obtain h g2 f where
    "gw_redis g2 = r1" "gw_writer g2 = gw_writer g" "bufferedResponse P E (w\<lparr>w_header := h\<rparr>) resp pv body f (request_tenant r) res g2 = (w', g')" by (simp only: if_False) blast
  moreover have "\<not> (up_StatusCode resp < 200 \<or> 300 \<le> up_StatusCode resp)" using assms(15,16) by simp
  ultimately have "gw_redis g' = reconcile P E res (Fin 0) r1"
    using buffered_redis [of resp P E "w\<lparr>w_header := h\<rparr>" pv body f "request_tenant r" res g2] assms(17,18)
      Cost_unpriced [of "px_prices P" "pv_Name pv" model, OF assms(19)] by (auto simp: modelOr_def)
  with settle [of "Fin 0" k] show ?thesis by simp
qed

subsection \<open>Streams without usage\<close>

abbreviation stream_filter :: "Provider \<Rightarrow> bool \<Rightarrow> (bytes list \<Rightarrow> bool) option" where
  "stream_filter pv injected \<equiv> (if pv_Name pv = ''openai'' \<and> injected then Some usage_frame_filter else None)"

lemma stream_event:
  assumes "streamResponse P E w resp pv injected body f t res g = (w', g')"
  obtains u e where
    "streamSSE Write (WriteHeader w (up_StatusCode resp)) (up_Body resp) (up_eof resp) (newExtractor (pv_Name pv))
       zero_Usage (stream_filter pv injected) = ((w', u), e)"
    and "g' = enqueue P E res t f (pv_Name pv) (modelOr (us_Model u) body) (us_InputTokens u) (us_OutputTokens u)
       (\<not> HasUsage u) (up_StatusCode resp) g"
proof -
  obtain x u e where st: "streamSSE Write (WriteHeader w (up_StatusCode resp)) (up_Body resp) (up_eof resp)
      (newExtractor (pv_Name pv)) zero_Usage (stream_filter pv injected) = ((x, u), e)"
    by (metis prod_cases3 surj_pair)
  with assms have "x = w'" by (simp add: streamResponse_def Let_def)
  with assms st show ?thesis by (intro that [of u e]) (simp_all add: streamResponse_def Let_def)
qed

lemma Cost_no_tokens:
  assumes "\<forall>k p. t k = Some p \<longrightarrow> price_ok p"
  shows "fst (Cost A t provider model 0 0) = Fin 0"
  using Cost_zero_tokens [of t provider model] assms Cost_unpriced [of t provider model]
  by (cases "t (provider, model)") auto

text \<open>C22: an OpenAI stream of which the relay has read no frame with the usage, because the provider sent
  none or the client left before it came, is metered with no tokens and no cost, and the whole
  reservation is released: the counters are as before the request.\<close>

theorem unreported_stream_is_free:
  assumes "redis_server R" and "px_budget P = Some R"
    and "reserve_link E = Delivered" and "reconcile_link E = Delivered"
    and "MonthlyBudgetUSD (request_tenant r) = Some cap"
    and "route (providers P) (Path r) = Some pv" and "outgoing_body pv (rq_Body r) = Some (body, injected)"
    and "0 \<le> counter R (gw_redis g) (budget_key E r)" and "0 \<le> estimateMicro P pv body"
    and "toMicro (px_arch P) cap < 2 ^ 53"
    and "counter R (gw_redis g) (budget_key E r) + estimateMicro P pv body \<le> toMicro (px_arch P) cap"
    and "url_ok E" and "upstream E (outbound_request r pv body) = Inr resp" and "event_stream resp"
    and "pv_Name pv = ''openai''" and "\<forall>k p. px_prices P k = Some p \<longrightarrow> price_ok p"
    and "\<forall>ev\<in>set (events_read (if injected then Some usage_frame_filter else None) (w_gone w) (up_Body resp)).
           \<forall>d\<in>set (payloads ev). \<not> openai_reports d"
    and "ServeHTTP P E w r g = (w', g', out)"
  shows "(\<exists>ev. gw_writer g' = fst (Enqueue (gw_writer g) ev) \<and> Estimated ev
        \<and> InputTokens ev = 0 \<and> OutputTokens ev = 0 \<and> CostUSD ev = Fin 0)
    \<and> (\<forall>k. counter R (gw_redis g') k = counter R (gw_redis g) k)"
proof -
  from admitted_reservation [OF assms(1-5,8,9,10,11), of w] obtain r1 res where
    cb: "checkBudget P E w pv (request_tenant r) body (gw_redis g) = (w, r1, res, True)"
    and settle: "\<And>cost k. 0 \<le> toMicro (px_arch P) cost \<Longrightarrow> toMicro (px_arch P) cost < 2 ^ 62 \<Longrightarrow>
      counter R (reconcile P E res cost r1) k
        = counter R (gw_redis g) k + (if k = budget_key E r then toMicro (px_arch P) cost else 0)" by blast
  from ServeHTTP_answered [OF assms(6,7) cb assms(12,13,18)] assms(14) obtain h g2 f where
    g2: "gw_redis g2 = r1" "gw_writer g2 = gw_writer g"
    and sr: "streamResponse P E (w\<lparr>w_header := h\<rparr>) resp pv injected body f (request_tenant r) res g2 = (w', g')" by (simp only: if_True) blast
  from stream_event [OF sr] obtain u e where
    st: "streamSSE Write (WriteHeader (w\<lparr>w_header := h\<rparr>) (up_StatusCode resp)) (up_Body resp) (up_eof resp) (newExtractor (pv_Name pv))
       zero_Usage (stream_filter pv injected) = ((w', u), e)"
    and g': "g' = enqueue P E res (request_tenant r) f (pv_Name pv) (modelOr (us_Model u) body)
       (us_InputTokens u) (us_OutputTokens u) (\<not> HasUsage u) (up_StatusCode resp) g2" by blast
  have "us_InputTokens u = 0 \<and> us_OutputTokens u = 0 \<and> \<not> HasUsage u"
    using openai.stream_silent [of "WriteHeader (w\<lparr>w_header := h\<rparr>) (up_StatusCode resp)" "up_Body resp" "up_eof resp" zero_Usage]
      st assms(15,17)
    by (auto simp: newExtractor_def zero_Usage_def)
  with g' g2 Cost_no_tokens [OF assms(16)] settle [of "Fin 0"] show ?thesis by (auto simp: enqueue_def Let_def)
qed


subsection \<open>Estimates that do not fit\<close>

lemma overflowed_not_denied:
  assumes "0 \<le> c" "in_int64 c" "0 \<le> limit"
  shows "\<not> flt (f64_of_int limit) (fadd (f64_of_int c) (f64_of_int min_int64))"
proof -
  have m: "f64_of_int min_int64 = Fin (- 9223372036854775808)"
    by (simp add: f64_of_int_def min_int64_def rnd64_minus go_eval)
  have "fle (f64_of_int c) (f64_of_int 9223372036854775808)" "fle (Fin 0) (f64_of_int c)" "fle (Fin 0) (f64_of_int limit)"
    using f64_of_int_mono [of c 9223372036854775808] f64_of_int_mono [of 0 c] f64_of_int_mono [of 0 limit] assms
    by (simp_all add: int64_defs f64_of_int_def)
  moreover have "f64_of_int 9223372036854775808 = Fin 9223372036854775808"
    by (simp add: f64_of_int_def go_eval)
  ultimately obtain x where x: "f64_of_int c = Fin x" "x \<le> 9223372036854775808"
    by (cases "f64_of_int c") auto
  have "fle (fadd (f64_of_int c) (f64_of_int min_int64)) (Fin 0)"
    using x(2) rnd64_mono [of "x - 9223372036854775808" 0] by (simp add: x(1) m)
  with \<open>fle (Fin 0) (f64_of_int limit)\<close> have "fle (fadd (f64_of_int c) (f64_of_int min_int64)) (f64_of_int limit)"
    by (rule fle_trans [rotated])
  then show ?thesis by (auto simp: flt_def dest: fle_antisym)
qed

text \<open>C23: a request of a fail-open tenant whose estimate does not fit an \<open>int64\<close>, so that the
  conversion on amd64 gives the least one, is sent upstream however far the tenant is over its cap and
  whatever Redis answers: a huge \<open>max_tokens\<close> passes the check that a moderate one does not.\<close>

theorem overflowing_estimate_is_sent:
  assumes "redis_server R" and "px_budget P = Some R"
    and "MonthlyBudgetUSD (request_tenant r) = Some cap" and "0 \<le> toMicro (px_arch P) cap"
    and "FailOpen (request_tenant r)"
    and "route (providers P) (Path r) = Some pv" and "outgoing_body pv (rq_Body r) = Some (body, injected)"
    and "estimateMicro P pv body = min_int64"
    and "0 \<le> counter R (gw_redis g) (budget_key E r)" and "in_int64 (counter R (gw_redis g) (budget_key E r))"
    and "url_ok E" and "ServeHTTP P E w r g = (w', g', out)" and "w_status w = None"
  shows "gw_sent g' = gw_sent g @ [outbound_request r pv body]"
proof -
  let ?lim = "toMicro (px_arch P) cap"
  have s: "fst (reserve_script R (gw_redis g) (budget_key E r) ?lim min_int64) = None
      \<or> (\<exists>n. fst (reserve_script R (gw_redis g) (budget_key E r) ?lim min_int64) = Some [1, n])"
    using overflowed_not_denied [OF assms(9,10,4)]
    by (simp add: reserve_script_def redis_server.get_counter [OF assms(1)] Let_def split: option.split)
  have "\<exists>r1 res. checkBudget P E w pv (request_tenant r) body (gw_redis g) = (w, r1, res, True)"
    using s assms(2,3,5,8)
    by (auto simp: checkBudget_def Let_def Reserve_def budget_key_def split: link.split prod.splits option.splits)
  then obtain r1 res where "checkBudget P E w pv (request_tenant r) body (gw_redis g) = (w, r1, res, True)" by blast
  from ServeHTTP_admitted [OF assms(6,7) this assms(12,13)] assms(11) show ?thesis by (auto simp: settles_def)
qed

subsection \<open>What passes through\<close>

lemma outgoing_unchanged: "outgoing_body pv b = Some (body, False) \<Longrightarrow> body = b"
  by (auto simp: outgoing_body_def maybeInjectUsage_def Let_def split: if_splits prod.splits bool.splits option.splits)

text \<open>C10: the client receives the provider's status and body byte for byte, buffered or streamed, and the
  provider receives the client's body, whenever the gateway did not inject the usage option.\<close>

theorem response_passthrough:
  assumes "route (providers P) (Path r) = Some pv" and "outgoing_body pv (rq_Body r) = Some (body, False)"
    and "checkBudget P E w pv (request_tenant r) body (gw_redis g) = (w, r1, res, True)"
    and "url_ok E" and "upstream E (outbound_request r pv body) = Inr resp"
    and "w_status w = None" and "w_gone w = None"
    and "ServeHTTP P E w r g = (w', g', out)"
  shows "w_status w' = Some (up_StatusCode resp)
    \<and> concat (w_body w') = concat (w_body w) @ up_Body resp
    \<and> gw_sent g' = gw_sent g @ [outbound_request r pv (rq_Body r)]"
proof -
  obtain h g2 f where "gw_redis g2 = r1" "gw_writer g2 = gw_writer g"
    and a: "(if event_stream resp then streamResponse P E (w\<lparr>w_header := h\<rparr>) resp pv False body f (request_tenant r) res g2
       else bufferedResponse P E (w\<lparr>w_header := h\<rparr>) resp pv body f (request_tenant r) res g2) = (w', g')"
    by (rule ServeHTTP_answered [OF assms(1-5,8)])
  define w1 where "w1 = WriteHeader (w\<lparr>w_header := h\<rparr>) (up_StatusCode resp)"
  have w1: "w_status w1 = Some (up_StatusCode resp)" "w_gone w1 = None" "w_body w1 = w_body w"
    using assms(6,7) by (simp_all add: w1_def)
  have "concat (w_body w') = concat (w_body w) @ up_Body resp \<and> w_status w' = Some (up_StatusCode resp)"
  proof (cases "event_stream resp")
    case False
    with a buffered_writer [of P E "w\<lparr>w_header := h\<rparr>" resp pv body f "request_tenant r" res g2]
    have "w' = fst (Write w1 (up_Body resp))" by (simp add: w1_def)
    then show ?thesis using w1 by (simp add: Write_def)
  next
    case True
    with a have "streamResponse P E (w\<lparr>w_header := h\<rparr>) resp pv False body f (request_tenant r) res g2 = (w', g')" by simp
    from stream_event [OF this] obtain u e where
      st: "streamSSE Write w1 (up_Body resp) (up_eof resp) (newExtractor (pv_Name pv)) zero_Usage None = ((w', u), e)"
      unfolding w1_def by (simp only: simp_thms if_False) blast
    from stream_whole [OF st w1(2)] streamSSE_status [OF w1(1)] st w1(3) show ?thesis by (metis fst_conv)
  qed
  moreover from ServeHTTP_admitted [OF assms(1-3,8,6)] outgoing_unchanged [OF assms(2)] assms(4)
  have "gw_sent g' = gw_sent g @ [outbound_request r pv (rq_Body r)]" by (auto simp: settles_def)
  ultimately show ?thesis by blast
qed

lemma forward_panic:
  "forward P E w r pv g = (w', g', Panicked) \<longleftrightarrow> w' = w \<and> g' = g \<and> outgoing_body pv (rq_Body r) = None"
proof (cases "outgoing_body pv (rq_Body r)")
  case None then show ?thesis by (auto simp: forward_def outgoing_body_def)
next
  case (Some bi)
  obtain body injected where bi: "bi = (body, injected)" by (cases bi)
  obtain w1 r1 res go where cb: "checkBudget P E w pv (request_tenant r) body (gw_redis g) = (w1, r1, res, go)"
    by (metis prod_cases4)
  show ?thesis unfolding forward_unfold [OF Some [unfolded bi] cb] Some by (simp split: prod.split)
qed


subsection \<open>A gateway in use\<close>

definition demo_openai :: Provider where
  "demo_openai = \<lparr>pv_Name = ''openai'', Prefix = ''/openai'', BaseURL = ''https://api.openai.com'', APIKey = ''sk-gw''\<rparr>"

definition demo_proxy :: "mem Proxy" where
  "demo_proxy = \<lparr>px_prices = BuildTable prices_yaml, px_budget = Some mem_redis,
     providers = [demo_openai], px_arch = amd64\<rparr>"

definition demo_body :: bytes where
  "demo_body = ''{\"model\":\"gpt-4o\",\"max_tokens\":100}''"

definition demo_tenant :: "bool \<Rightarrow> Tenant" where
  "demo_tenant fo = \<lparr>ID = 7, Name = ''acme'', FailOpen = fo, MonthlyBudgetUSD = Some (Fin 1)\<rparr>"

definition demo_request :: "bool \<Rightarrow> Tenant Request" where
  "demo_request fo = \<lparr>Method = ''POST'', Path = ''/openai/v1/chat/completions'', RawQuery = [],
     rq_Header = Map.empty, rq_Body = demo_body, rq_tenant = Some (demo_tenant fo)\<rparr>"

definition demo_response :: "bytes \<Rightarrow> upstream_response" where
  "demo_response model = \<lparr>up_StatusCode = 200, up_Header = Map.empty,
     up_Body = ''{\"model\":\"'' @ model @ ''\",\"usage\":{\"prompt_tokens\":9,\"completion_tokens\":16}}'', up_eof = None\<rparr>"

definition demo_weather :: "link \<Rightarrow> bytes \<Rightarrow> weather" where
  "demo_weather l model = \<lparr>at_start = 0, at_budget = 0, at_done = 5000000, at_created = 5000000, url_ok = True,
     upstream = (\<lambda>_. Inr (demo_response model)), reserve_link = l, reconcile_link = Delivered\<rparr>"

definition demo_gateway :: "int \<Rightarrow> (mem, unit) gateway" where
  "demo_gateway spent = \<lparr>gw_redis = [budget_key (demo_weather Delivered []) (demo_request True) \<mapsto> (spent, ttlSeconds)],
     gw_writer = New () 0 0, gw_sent = []\<rparr>"

lemma demo_route: "route (providers demo_proxy) (Path (demo_request fo)) = Some demo_openai"
  by (simp add: demo_proxy_def demo_request_def demo_openai_def has_prefix_def)

lemma demo_outgoing: "outgoing_body demo_openai (rq_Body (demo_request fo)) = Some (demo_body, False)"
proof -
  have "maybeInjectUsage demo_body = Some (demo_body, False)" by code_simp
  then show ?thesis by (simp add: outgoing_body_def demo_openai_def demo_request_def)
qed

lemma demo_reads: "requestMaxTokens demo_body = 100" "requestModel demo_body = ''gpt-4o''" "length demo_body = 35"
  by code_simp+

lemma demo_limit: "toMicro (px_arch demo_proxy) (Fin 1) = 1000000"
  by (simp add: demo_proxy_def toMicro_def go_eval int64_defs)

lemma demo_estimate: "estimateMicro demo_proxy demo_openai demo_body = 1020"
  by (simp add: estimateMicro_def demo_reads demo_proxy_def demo_openai_def Cost_def BuildTable_def prices_yaml_def
      price_key_def tokens_per_mtok_def fdot_def amd64_def toMicro_def go_eval int64_defs)

lemma demo_key: "budget_key (demo_weather l m) (demo_request fo) = budget_key (demo_weather Delivered []) (demo_request True)"
  by (simp add: budget_key_def demo_weather_def demo_request_def demo_tenant_def)

lemma demo_cap: "MonthlyBudgetUSD (request_tenant (demo_request fo)) = Some (Fin 1)"
  by (simp add: demo_request_def demo_tenant_def)

lemma demo_budget: "px_budget demo_proxy = Some mem_redis"
  by (simp add: demo_proxy_def)

lemma demo_links: "reserve_link (demo_weather l m) = l" "reconcile_link (demo_weather l m) = Delivered"
  "url_ok (demo_weather l m)" "upstream (demo_weather l m) x = Inr (demo_response m)"
  by (simp_all add: demo_weather_def)

lemma demo_counter: "counter mem_redis (gw_redis (demo_gateway c)) (budget_key (demo_weather l m) (demo_request fo)) = c"
  by (simp add: demo_gateway_def demo_key [of l m])

lemma demo_redis: "gw_redis (demo_gateway c) (budget_key (demo_weather l m) (demo_request fo)) = Some (c, ttlSeconds)"
  by (simp add: demo_gateway_def demo_key [of l m])

lemma demo_writer: "w_status (fresh_writer gone) = None" "w_gone (fresh_writer gone) = gone"
  by (simp_all add: fresh_writer_def)

lemmas demo_facts = demo_route demo_outgoing demo_cap demo_budget demo_links demo_counter demo_redis demo_writer
  demo_estimate demo_limit

theorem over_budget_is_refused_witness:
  "\<exists>w'. ServeHTTP demo_proxy (demo_weather Delivered []) (fresh_writer None) (demo_request True) (demo_gateway 999000)
     = (w', demo_gateway 999000, Served) \<and> w_status w' = Some 429"
  by (rule over_budget_is_refused [where R = mem_redis and pv = demo_openai and cap = "Fin 1"
        and body = demo_body and injected = False, OF mem.redis_server_axioms])
     (simp_all add: demo_facts)

theorem redis_outage_policy_witness:
  "ServeHTTP demo_proxy (demo_weather NotSent ''gpt-4o'') (fresh_writer None) (demo_request True) (demo_gateway 0)
     = ServeHTTP (demo_proxy\<lparr>px_budget := None\<rparr>) (demo_weather NotSent ''gpt-4o'') (fresh_writer None) (demo_request True) (demo_gateway 0)
   \<and> (\<exists>w'. ServeHTTP demo_proxy (demo_weather NotSent ''gpt-4o'') (fresh_writer None) (demo_request False) (demo_gateway 0)
     = (w', demo_gateway 0, Served) \<and> w_status w' = Some 503)"
proof -
  note p = redis_outage_policy [OF demo_budget _ demo_cap _ demo_route demo_outgoing,
      of "demo_weather NotSent ''gpt-4o''" "fresh_writer None" _ "demo_gateway 0"]
  from p [of True] p [of False] show ?thesis
    by (simp add: demo_links demo_writer) (simp add: demo_request_def demo_tenant_def)
qed

theorem one_request_one_event_witness:
  "length (gw_sent (fst (snd (ServeHTTP demo_proxy (demo_weather Delivered ''gpt-4o'') (fresh_writer None)
     (demo_request True) (demo_gateway 0))))) \<le> 1"
proof -
  obtain w' g' out where s: "ServeHTTP demo_proxy (demo_weather Delivered ''gpt-4o'') (fresh_writer None)
     (demo_request True) (demo_gateway 0) = (w', g', out)" by (metis prod_cases3)
  from one_request_one_event [OF s demo_writer(1)] have "length (gw_sent g') \<le> 1"
    by (auto simp: demo_gateway_def)
  then show ?thesis by (simp only: s fst_conv snd_conv)
qed

theorem settled_charge_is_metered_cost_witness:
  "\<exists>ev. gw_writer (fst (snd (ServeHTTP demo_proxy (demo_weather Delivered ''gpt-4o'') (fresh_writer None)
      (demo_request True) (demo_gateway 5)))) = fst (Enqueue (gw_writer (demo_gateway 5)) ev)"
proof -
  obtain w' g' out where s: "ServeHTTP demo_proxy (demo_weather Delivered ''gpt-4o'') (fresh_writer None)
     (demo_request True) (demo_gateway 5) = (w', g', out)" by (metis prod_cases3)
  have "\<exists>ev. gw_writer g' = fst (Enqueue (gw_writer (demo_gateway 5)) ev)"
    using settled_charge_is_metered_cost [OF mem.redis_server_axioms demo_budget _ _ demo_cap demo_route demo_outgoing _ _ _ _ s]
    by (auto simp: demo_facts)
  then show ?thesis by (simp only: s fst_conv snd_conv)
qed

theorem unpriced_response_is_free_witness:
  "counter mem_redis (gw_redis (fst (snd (ServeHTTP demo_proxy (demo_weather Delivered ''gpt-4o-2024-08-06'')
      (fresh_writer None) (demo_request True) (demo_gateway 5)))))
     (budget_key (demo_weather Delivered []) (demo_request True)) = 5"
proof -
  obtain w' g' out where s: "ServeHTTP demo_proxy (demo_weather Delivered ''gpt-4o-2024-08-06'') (fresh_writer None)
     (demo_request True) (demo_gateway 5) = (w', g', out)" by (metis prod_cases3)
  have u: "us_Model (parseUsage (pv_Name demo_openai) (up_Body (demo_response ''gpt-4o-2024-08-06''))) = ''gpt-4o-2024-08-06''"
    by code_simp
  have n: "px_prices demo_proxy (pv_Name demo_openai, ''gpt-4o-2024-08-06'') = None"
    by (simp add: demo_proxy_def demo_openai_def BuildTable_def prices_yaml_def price_key_def)
  have e: "\<not> event_stream (demo_response m)" for m
    by (simp add: event_stream_def demo_response_def Header_Get_def has_prefix_def)
  have "counter mem_redis (gw_redis g') k = counter mem_redis (gw_redis (demo_gateway 5)) k" for k
    using unpriced_response_is_free [OF mem.redis_server_axioms demo_budget _ _ demo_cap demo_route demo_outgoing _ _ _ _ _ _ _ _ _ u _ n s, of k]
    by (simp add: demo_facts e) (simp add: demo_response_def)
  then show ?thesis by (simp only: s fst_conv snd_conv) (simp add: demo_gateway_def)
qed

definition demo_stream_body :: bytes where
  "demo_stream_body = ''{\"model\":\"gpt-4o\",\"max_tokens\":100,\"stream\":true}''"

definition demo_stream_sent :: bytes where
  "demo_stream_sent = ''{\"max_tokens\":100,\"model\":\"gpt-4o\",\"stream\":true,\"stream_options\":{\"include_usage\":true}}''"

definition demo_stream_request :: "Tenant Request" where
  "demo_stream_request = demo_request True\<lparr>rq_Body := demo_stream_body\<rparr>"

definition demo_stream_response :: upstream_response where
  "demo_stream_response = \<lparr>up_StatusCode = 200,
     up_Header = [''Content-Type'' \<mapsto> [''text/event-stream'']], up_Body = sample_stream, up_eof = None\<rparr>"

definition demo_stream_weather :: weather where
  "demo_stream_weather = demo_weather Delivered []\<lparr>upstream := (\<lambda>_. Inr demo_stream_response)\<rparr>"

lemma demo_stream_outgoing: "outgoing_body demo_openai (rq_Body demo_stream_request) = Some (demo_stream_sent, True)"
proof -
  have "maybeInjectUsage demo_stream_body = Some (demo_stream_sent, True)" by code_simp
  then show ?thesis by (simp add: outgoing_body_def demo_openai_def demo_stream_request_def)
qed

lemma demo_stream_reads: "requestMaxTokens demo_stream_sent = 100" "requestModel demo_stream_sent = ''gpt-4o''"
  "length demo_stream_sent = 89"
  by code_simp+

lemma demo_stream_estimate: "estimateMicro demo_proxy demo_openai demo_stream_sent = 1055"
  by (simp add: estimateMicro_def demo_stream_reads demo_proxy_def demo_openai_def Cost_def BuildTable_def prices_yaml_def
      price_key_def tokens_per_mtok_def fdot_def amd64_def toMicro_def go_eval int64_defs)

lemma demo_stream_facts:
  "route (providers demo_proxy) (Path demo_stream_request) = Some demo_openai"
  "request_tenant demo_stream_request = demo_tenant True"
  "budget_key demo_stream_weather demo_stream_request = budget_key (demo_weather Delivered []) (demo_request True)"
  "reserve_link demo_stream_weather = Delivered" "reconcile_link demo_stream_weather = Delivered"
  "url_ok demo_stream_weather" "upstream demo_stream_weather x = Inr demo_stream_response"
  using demo_route [of True]
  by (simp_all add: demo_stream_request_def demo_stream_weather_def budget_key_def demo_request_def demo_weather_def)

lemma demo_event_stream: "event_stream demo_stream_response"
  by code_simp

lemma price_ok_yaml: "BuildTable prices_yaml k = Some p \<Longrightarrow> price_ok p"
proof -
  assume "BuildTable prices_yaml k = Some p"
  then have "p \<in> set prices_yaml" by (auto simp: BuildTable_def foldl_upd [where v = "\<lambda>p. p"] find_Some_iff split: option.splits)
    (metis nth_mem length_rev set_rev)
  moreover have "\<forall>p\<in>set prices_yaml. price_ok p"
    by (simp add: prices_yaml_def price_ok_def go_eval)
  ultimately show ?thesis by blast
qed

theorem unreported_stream_is_free_witness:
  "counter mem_redis (gw_redis (fst (snd (ServeHTTP demo_proxy demo_stream_weather (fresh_writer (Some 0))
      demo_stream_request (demo_gateway 5)))))
     (budget_key (demo_weather Delivered []) (demo_request True)) = 5"
proof -
  obtain w' g' out where s: "ServeHTTP demo_proxy demo_stream_weather (fresh_writer (Some 0)) demo_stream_request
      (demo_gateway 5) = (w', g', out)" by (metis prod_cases3)
  have rd: "events_read (Some usage_frame_filter) (Some 0) sample_stream = [sample_event_1]"
    using sample_forwards by (simp add: events_read_def sample_events split: if_splits)
  have pl: "\<forall>d\<in>set (payloads sample_event_1). \<not> openai_reports d" by code_simp
  have cap: "MonthlyBudgetUSD (request_tenant demo_stream_request) = Some (Fin 1)"
    by (simp add: demo_stream_facts demo_tenant_def)
  have pk: "\<forall>k p. px_prices demo_proxy k = Some p \<longrightarrow> price_ok p"
    using price_ok_yaml by (simp add: demo_proxy_def)
  have "\<forall>k. counter mem_redis (gw_redis g') k = counter mem_redis (gw_redis (demo_gateway 5)) k"
    using unreported_stream_is_free [OF mem.redis_server_axioms demo_budget _ _ cap demo_stream_facts(1) demo_stream_outgoing
        _ _ _ _ _ demo_stream_facts(7) demo_event_stream _ pk _ s]
    by (simp add: demo_stream_facts demo_counter demo_stream_estimate demo_limit demo_writer demo_redis demo_stream_response_def rd pl)
       (simp add: demo_openai_def)
  then show ?thesis by (simp only: s fst_conv snd_conv) (simp add: demo_gateway_def)
qed

definition demo_huge_body :: bytes where
  "demo_huge_body = ''{\"model\":\"gpt-4o\",\"max_tokens\":9000000000000000000}''"

definition demo_huge_request :: "Tenant Request" where
  "demo_huge_request = demo_request True\<lparr>rq_Body := demo_huge_body\<rparr>"

lemma demo_huge_outgoing: "outgoing_body demo_openai (rq_Body demo_huge_request) = Some (demo_huge_body, False)"
proof -
  have "maybeInjectUsage demo_huge_body = Some (demo_huge_body, False)" by code_simp
  then show ?thesis by (simp add: outgoing_body_def demo_openai_def demo_huge_request_def)
qed

lemma demo_huge_json: "parse_json demo_huge_body = Some (JObj
    [(''model'', ''\"gpt-4o\"'', JStr ''gpt-4o''), (''max_tokens'', ''9000000000000000000'', JNum ''9000000000000000000'')])"
  by code_simp

lemma demo_huge_names:
  "find_field max_tokens_fields (unquote ''model'') = None"
  "find_field max_tokens_fields (unquote ''max_tokens'')
     = Some (snd (field ''max_tokens'' MaxTokens (\<lambda>v c. c\<lparr>MaxTokens := v\<rparr>) dec_int))"
proof -
  have u: "unquote ''model'' = ''model''" "unquote ''max_tokens'' = ''max_tokens''" by code_simp+
  have n: "fold_key ''model'' \<noteq> fold_key ''max_tokens''" "fold_key ''model'' \<noteq> fold_key ''max_completion_tokens''"
    by code_simp+
  show "find_field max_tokens_fields (unquote ''model'') = None"
    using n by (simp add: u find_field_def max_tokens_fields_def field_def)
  show "find_field max_tokens_fields (unquote ''max_tokens'')
     = Some (snd (field ''max_tokens'' MaxTokens (\<lambda>v c. c\<lparr>MaxTokens := v\<rparr>) dec_int))"
    by (simp add: u find_field_def max_tokens_fields_def field_def)
qed

lemma demo_huge_int: "ParseInt ''9000000000000000000'' = Some 9000000000000000000"
  by (simp add: ParseInt_def undigits_def undigit_def is_digit_def int64_defs)

lemma demo_huge_reads: "requestMaxTokens demo_huge_body = 9000000000000000000" "requestModel demo_huge_body = ''gpt-4o''"
  "length demo_huge_body = 51"
proof -
  show "requestMaxTokens demo_huge_body = 9000000000000000000"
    by (simp add: requestMaxTokens_def Unmarshal_def demo_huge_json dec_struct_def dec_member_def demo_huge_names
        field_def dec_int_def demo_huge_int)
qed code_simp+

lemma demo_huge_cost:
  "fst (Cost amd64 (BuildTable prices_yaml) ''openai'' ''gpt-4o'' 12 9000000000000000000) = Fin 90000000000000"
proof -
  have t: "tokens_per_mtok 12 = rnd64 (12 / 1000000)" by (simp add: tokens_per_mtok_def f64_of_int_exact)
  have u: "tokens_per_mtok 9000000000000000000 = Fin 9000000000000"
    by (simp add: tokens_per_mtok_def go_eval f64_of_int_def)
  show ?thesis
    by (simp add: Cost_def BuildTable_def prices_yaml_def price_key_def t u fdot_def amd64_def go_eval)
qed

lemma demo_huge_micro: "toMicro amd64 (Fin 90000000000000) = min_int64"
proof -
  have f: "fmul (Fin 90000000000000) (Fin 1000000) = Fin 90000000000000000000" by (simp add: go_eval)
  have "round_away (of_int 90000000000000000000) = 90000000000000000000" by (rule round_away_of_int)
  then have "fround (fmul (Fin 90000000000000) (Fin 1000000)) = Fin 90000000000000000000"
    by (simp only: f fround.simps) simp
  then show ?thesis by (simp add: toMicro_def f64_to_int64_def amd64_def int64_defs)
qed

lemma demo_huge_estimate: "estimateMicro demo_proxy demo_openai demo_huge_body = min_int64"
  using demo_huge_cost demo_huge_micro
  by (simp add: estimateMicro_def demo_huge_reads demo_proxy_def demo_openai_def Let_def)

theorem overflowing_estimate_is_sent_witness:
  "length (gw_sent (fst (snd (ServeHTTP demo_proxy (demo_weather Delivered []) (fresh_writer None)
      demo_huge_request (demo_gateway 5000000))))) = 1"
proof -
  obtain w' g' out where s: "ServeHTTP demo_proxy (demo_weather Delivered []) (fresh_writer None)
      demo_huge_request (demo_gateway 5000000) = (w', g', out)" by (metis prod_cases3)
  have r: "route (providers demo_proxy) (Path demo_huge_request) = Some demo_openai"
    and t: "request_tenant demo_huge_request = demo_tenant True"
    and k: "budget_key (demo_weather Delivered []) demo_huge_request = budget_key (demo_weather Delivered []) (demo_request True)"
    using demo_route [of True] by (simp_all add: demo_huge_request_def budget_key_def demo_request_def)
  have c: "MonthlyBudgetUSD (request_tenant demo_huge_request) = Some (Fin 1)" "FailOpen (request_tenant demo_huge_request)"
    by (simp_all add: t demo_tenant_def)
  have "gw_sent g' = gw_sent (demo_gateway 5000000) @ [outbound_request demo_huge_request demo_openai demo_huge_body]"
    by (rule overflowing_estimate_is_sent [OF mem.redis_server_axioms demo_budget c(1) _ c(2) r demo_huge_outgoing
          demo_huge_estimate _ _ _ s])
       (simp_all add: k demo_facts demo_limit int64_defs)
  then show ?thesis by (simp only: s fst_conv snd_conv) (simp add: demo_gateway_def)
qed

theorem response_passthrough_witness:
  "\<exists>w'. fst (ServeHTTP (demo_proxy\<lparr>px_budget := None\<rparr>) (demo_weather Delivered ''gpt-4o'') (fresh_writer None)
      (demo_request True) (demo_gateway 0)) = w' \<and> concat (w_body w') = up_Body (demo_response ''gpt-4o'')"
proof -
  let ?P = "demo_proxy\<lparr>px_budget := None\<rparr>" and ?E = "demo_weather Delivered ''gpt-4o''"
  obtain w' g' out where s: "ServeHTTP ?P ?E (fresh_writer None) (demo_request True) (demo_gateway 0) = (w', g', out)"
    by (metis prod_cases3)
  have r: "route (providers ?P) (Path (demo_request True)) = Some demo_openai" using demo_route by simp
  have c: "checkBudget ?P ?E (fresh_writer None) demo_openai (request_tenant (demo_request True)) demo_body
      (gw_redis (demo_gateway 0)) = (fresh_writer None, gw_redis (demo_gateway 0), no_reservation, True)"
    by (simp add: checkBudget_def split: option.split)
  have "concat (w_body w') = concat (w_body (fresh_writer None)) @ up_Body (demo_response ''gpt-4o'')"
    using response_passthrough [OF r demo_outgoing c _ _ _ _ s] by (simp add: demo_links demo_writer)
  then show ?thesis by (simp add: s) (simp add: fresh_writer_def)
qed

lemma null_stream_options_panics:
  "ServeHTTP demo_proxy E w (demo_request True\<lparr>rq_Body := ''{\"stream\":true,\"stream_options\":null}''\<rparr>) g = (w, g, Panicked)"
proof -
  have "maybeInjectUsage ''{\"stream\":true,\"stream_options\":null}'' = None" by code_simp
  then show ?thesis
    by (simp add: ServeHTTP_def forward_def demo_proxy_def demo_request_def demo_openai_def has_prefix_def)
qed

end
