(* ===== verification/Mux.thy ===== *)
theory Mux
  imports GoStrings
begin

section \<open>Mux: cleaned paths\<close>

text \<open>
  What \<open>http.ServeMux\<close> does to the path of a request before it looks for a pattern: a path that
  is not clean is redirected to its cleaned form, so only clean paths reach a handler.
\<close>

fun split_slash :: "bytes \<Rightarrow> bytes list" where
  "split_slash [] = [[]]"
| "split_slash (c # s) =
     (if c = CHR ''/'' then [] # split_slash s
      else case split_slash s of [] \<Rightarrow> [[c]] | w # ws \<Rightarrow> (c # w) # ws)"

text \<open>\<open>path.Clean\<close> of a rooted path: the kept segments, innermost first.\<close>

fun clean_segments :: "bytes list \<Rightarrow> bytes list \<Rightarrow> bytes list" where
  "clean_segments acc [] = acc"
| "clean_segments acc (w # ws) =
     (if w = [] \<or> w = ''.'' then clean_segments acc ws
      else if w = ''..'' then clean_segments (tl acc) ws
      else clean_segments (w # acc) ws)"

definition join_slash :: "bytes list \<Rightarrow> bytes" where
  "join_slash ws = (if ws = [] then ''/'' else concat (map (\<lambda>w. CHR ''/'' # w) ws))"

definition clean_path :: "bytes \<Rightarrow> bytes" where
  "clean_path p =
     (let np = join_slash (rev (clean_segments [] (split_slash p)))
      in if p \<noteq> [] \<and> last p = CHR ''/'' \<and> np \<noteq> ''/'' then np @ ''/'' else np)"

text \<open>A cleaned path has no empty, \<open>.\<close> or \<open>..\<close> segment, except an empty last one.\<close>

definition dot_segment :: "bytes \<Rightarrow> bool" where
  "dot_segment w \<longleftrightarrow> w = ''.'' \<or> w = ''..''"

lemma clean_segments_all:
  assumes "list_all Q acc" "\<And>w. w \<in> set ws \<Longrightarrow> w \<noteq> [] \<Longrightarrow> \<not> dot_segment w \<Longrightarrow> Q w"
  shows "list_all Q (clean_segments acc ws)"
  using assms
proof (induction acc ws rule: clean_segments.induct)
  case (2 acc w ws)
  have "list_all Q (tl acc)" using "2.prems"(1) by (cases acc) simp_all
  with 2 show ?case by (simp add: dot_segment_def)
qed simp

lemma split_slash_no_slash: "\<forall>w\<in>set (split_slash s). CHR ''/'' \<notin> set w"
  by (induction s) (auto split: list.splits)

lemma split_slash_append: "split_slash (s @ CHR ''/'' # u) = split_slash s @ split_slash u"
proof (induction s)
  case (Cons c s)
  have "split_slash s \<noteq> []" by (cases s) (auto split: list.split)
  with Cons show ?case by (cases "split_slash s") auto
qed simp

lemma split_slash_word: "CHR ''/'' \<notin> set w \<Longrightarrow> split_slash w = [w]"
  by (induction w) auto

lemma split_slash_join:
  "CHR ''/'' \<notin> set w \<Longrightarrow> \<forall>v\<in>set ws. CHR ''/'' \<notin> set v \<Longrightarrow>
   split_slash (w @ concat (map (\<lambda>v. CHR ''/'' # v) ws)) = w # ws"
  by (induction ws arbitrary: w) (simp_all add: split_slash_word split_slash_append)

lemma split_slash_clean:
  assumes "w \<in> set (split_slash (clean_path p))"
  shows "\<not> dot_segment w"
proof -
  define ws where "ws = rev (clean_segments [] (split_slash p))"
  have ok: "\<forall>w\<in>set ws. \<not> dot_segment w \<and> CHR ''/'' \<notin> set w"
    using clean_segments_all [of "\<lambda>w. \<not> dot_segment w \<and> CHR ''/'' \<notin> set w" "[]" "split_slash p"]
      split_slash_no_slash [of p] by (simp add: ws_def list_all_iff)
  have j: "set (split_slash (join_slash ws)) \<subseteq> insert [] (set ws)"
    using ok split_slash_join [of "[]" ws] by (auto simp: join_slash_def)
  have "set (split_slash (clean_path p)) \<subseteq> insert [] (set ws)"
    using j split_slash_append [of "join_slash ws" "[]"] by (auto simp: clean_path_def Let_def ws_def [symmetric])
  with assms ok show ?thesis by (auto simp: dot_segment_def)
qed

end
