(* ===== verification/Server.thy ===== *)
theory Server
  imports Gateway Mux
begin

section \<open>Server: the mux and the health checks\<close>

text \<open>
  \<open>internal/server/server.go\<close>: the gateway's handler. The request multiplexer of \<open>net/http\<close>
  cleans the (escaped) path and redirects when that changes it or when only a trailing slash is missing; otherwise
  the most specific pattern decides, and a path that matches with another method is answered 405.
  \<open>GET\<close> patterns match \<open>HEAD\<close> too. The paths here are those without percent escapes, where
  the escaped path and \<open>URL.Path\<close> agree.
\<close>

datatype mux_result = ToProxy | Healthz | Readyz | Redirect bytes | MethodNotAllowed | NoRoute

definition mux :: "bytes \<Rightarrow> bytes \<Rightarrow> mux_result" where
  "mux meth path =
     (let p = clean_path path;
          get = (meth = ''GET'' \<or> meth = ''HEAD'')
      in if p = ''/openai'' \<or> p = ''/anthropic'' then Redirect (p @ ''/'')
         else if p \<noteq> path then Redirect p
         else if has_prefix p ''/openai/'' \<or> has_prefix p ''/anthropic/'' then ToProxy
         else if p = ''/healthz'' then (if get then Healthz else MethodNotAllowed)
         else if p = ''/readyz'' then (if get then Readyz else MethodNotAllowed)
         else NoRoute)"

text \<open>The pings of the readiness check: Postgres, and Redis unless there is no budget client.\<close>

definition readyz :: "bool \<Rightarrow> bool option \<Rightarrow> ResponseWriter \<Rightarrow> ResponseWriter" where
  "readyz pg redis w =
     (if \<not> pg then Error w ''postgres unavailable'' 503
      else if redis = Some False then Error w ''redis unavailable'' 503
      else fst (Write (WriteHeader w 200) ''ready''))"

definition healthz :: "ResponseWriter \<Rightarrow> ResponseWriter" where
  "healthz w = fst (Write (WriteHeader w 200) ''ok'')"

text \<open>The proxy as the handler behind the authentication middleware.\<close>

definition proxy_handler :: "'r Proxy \<Rightarrow> weather \<Rightarrow> (('r, 's) gateway \<times> outcome) handler" where
  "proxy_handler P E w r = (\<lambda>(g, _). ServeHTTP P E w r g)"

definition proxyH :: "lookup_fn \<Rightarrow> instant \<Rightarrow> instant \<Rightarrow> 'r Proxy \<Rightarrow> weather \<Rightarrow> ResponseWriter \<Rightarrow> Tenant Request \<Rightarrow>
    Authenticator \<Rightarrow> ('r, 's) gateway \<Rightarrow> ResponseWriter \<times> Authenticator \<times> ('r, 's) gateway \<times> outcome" where
  "proxyH lookup now1 now2 P E w r a g = Middleware lookup now1 now2 (proxy_handler P E) w r (a, g, Served)"

text \<open>What the server does with one request; redirects and 405 are written by \<open>net/http\<close>.\<close>

definition serve_request :: "lookup_fn \<Rightarrow> instant \<Rightarrow> instant \<Rightarrow> 'r Proxy \<Rightarrow> weather \<Rightarrow> bool \<Rightarrow> bool \<Rightarrow> ResponseWriter \<Rightarrow>
    Tenant Request \<Rightarrow> Authenticator \<Rightarrow> ('r, 's) gateway \<Rightarrow>
    (mux_result + ResponseWriter) \<times> Authenticator \<times> ('r, 's) gateway \<times> outcome" where
  "serve_request lookup now1 now2 P E pg redis w r a g =
     (case mux (Method r) (Path r) of
        ToProxy \<Rightarrow> (case proxyH lookup now1 now2 P E w r a g of (w', st) \<Rightarrow> (Inr w', st))
      | Healthz \<Rightarrow> (Inr (healthz w), a, g, Served)
      | Readyz \<Rightarrow> (Inr (readyz pg (map_option (\<lambda>_. redis) (px_budget P)) w), a, g, Served)
      | NoRoute \<Rightarrow> (Inr (NotFound w), a, g, Served)
      | m \<Rightarrow> (Inl m, a, g, Served))"

subsection \<open>Credentials\<close>

lemma canonical_keys:
  "CanonicalHeaderKey ''Authorization'' = ''Authorization''"
  "CanonicalHeaderKey ''X-Spendgate-Feature'' = ''X-Spendgate-Feature''"
  "CanonicalHeaderKey ''Accept-Encoding'' = ''Accept-Encoding''"
  "CanonicalHeaderKey ''x-api-key'' = ''X-Api-Key''"
  by code_simp+

lemma canonical_hop:
  "\<not> hopByHop (CanonicalHeaderKey ''Authorization'')" "\<not> hopByHop (CanonicalHeaderKey ''X-Api-Key'')"
  by code_simp+

lemma outbound_header:
  assumes "rq_Header r ''Authorization'' = None"
  shows "ob_Header (outbound_request r pv body) ''Authorization''
      = (if pv_Name pv = ''openai'' then Some [''Bearer '' @ APIKey pv] else None)"
    and "pv_Name pv = ''anthropic'' \<Longrightarrow> ob_Header (outbound_request r pv body) ''X-Api-Key'' = Some [APIKey pv]"
    and "ob_Header (outbound_request r pv body) ''X-Spendgate-Feature'' = None"
    and "ob_Header (outbound_request r pv body) ''Accept-Encoding'' = None"
    and "hopByHop (CanonicalHeaderKey k) \<Longrightarrow> ob_Header (outbound_request r pv body) k = None"
  using assms canonical_hop
  by (auto simp: outbound_request_def Let_def Header_Set_def Header_Del_def canonical_keys copyHeaders_def split: option.split)

lemma outbound_target: "ob_Target (outbound_request r pv body) = BaseURL pv @ trim_prefix (Path r) (Prefix pv)
    @ (if RawQuery r \<noteq> [] then CHR ''?'' # RawQuery r else [])"
  by (simp add: outbound_request_def Let_def)

lemma ServeHTTP_sent:
  assumes "ServeHTTP P E w r g = (w', g', out)" "w_status w = None"
  shows "gw_sent g' = gw_sent g \<or> (\<exists>pv body. route (providers P) (Path r) = Some pv
     \<and> gw_sent g' = gw_sent g @ [outbound_request r pv body])"
  using ServeHTTP_settles [OF assms] by (fastforce simp: settles_def)

lemma proxyH_cases:
  assumes "proxyH lookup now1 now2 P E w r a g = (w', a', g', out)" "w_status w = None"
  shows "g' = g \<and> out = Served \<or> (\<exists>t. ServeHTTP P E w
     (r\<lparr>rq_Header := (rq_Header r)(''Authorization'' := None), rq_tenant := Some t\<rparr>) g = (w', g', out))"
  using assms(1)
  by (auto simp: proxyH_def Middleware_def proxy_handler_def Header_Del_def canonical_keys
      split: option.splits prod.splits sum.splits)

text \<open>C7: the client's gateway key never leaves the gateway, and a provider only ever gets its own key: every
  request sent upstream goes to its provider's base URL, with the provider's credentials in place of the
  client's \<open>Authorization\<close>, and without the attribution, encoding and hop-by-hop headers.\<close>

theorem client_credentials_stay:
  assumes "proxyH lookup now1 now2 P E w r a g = (w', a', g', out)" and "w_status w = None"
    and "req \<in> set (drop (length (gw_sent g)) (gw_sent g'))"
  shows "\<exists>pv. route (providers P) (Path r) = Some pv
    \<and> ob_Target req = BaseURL pv @ trim_prefix (Path r) (Prefix pv) @ (if RawQuery r \<noteq> [] then CHR ''?'' # RawQuery r else [])
    \<and> ob_Header req ''Authorization'' = (if pv_Name pv = ''openai'' then Some [''Bearer '' @ APIKey pv] else None)
    \<and> (pv_Name pv = ''anthropic'' \<longrightarrow> ob_Header req ''X-Api-Key'' = Some [APIKey pv])
    \<and> ob_Header req ''X-Spendgate-Feature'' = None \<and> ob_Header req ''Accept-Encoding'' = None
    \<and> (\<forall>k. hopByHop (CanonicalHeaderKey k) \<longrightarrow> ob_Header req k = None)"
proof -
  from proxyH_cases [OF assms(1,2)] assms(3) obtain t where
    s: "ServeHTTP P E w (r\<lparr>rq_Header := (rq_Header r)(''Authorization'' := None), rq_tenant := Some t\<rparr>) g = (w', g', out)"
    (is "ServeHTTP P E w ?r g = _") by auto
  from ServeHTTP_sent [OF s assms(2)] assms(3) obtain pv body where
    pv: "route (providers P) (Path ?r) = Some pv" and req: "req = outbound_request ?r pv body" by auto
  have "rq_Header ?r ''Authorization'' = None" by simp
  from outbound_header [OF this] pv show ?thesis
    by (intro exI [of _ pv]) (simp add: req outbound_target)
qed

definition demo_client_request :: "Tenant Request" where
  "demo_client_request = (demo_request True)\<lparr>rq_Header := [''Authorization'' \<mapsto> [''Bearer sg_00'']], rq_tenant := None\<rparr>"

theorem client_credentials_stay_witness:
  "\<exists>req. gw_sent (fst (snd (snd (proxyH (\<lambda>_. Inr (Some (demo_tenant True))) 0 0 (demo_proxy\<lparr>px_budget := None\<rparr>)
      (demo_weather Delivered ''gpt-4o'') (fresh_writer None) demo_client_request (Auth_New 0) (demo_gateway 0))))) = [req]
    \<and> ob_Header req ''Authorization'' = Some [''Bearer sk-gw'']"
proof -
  let ?P = "demo_proxy\<lparr>px_budget := None\<rparr>" and ?E = "demo_weather Delivered ''gpt-4o''" and ?w = "fresh_writer None"
  let ?r = "demo_client_request\<lparr>rq_Header := (rq_Header demo_client_request)(''Authorization'' := None),
      rq_tenant := Some (demo_tenant True)\<rparr>"
  obtain w' a' g' out where p: "proxyH (\<lambda>_. Inr (Some (demo_tenant True))) 0 0 ?P ?E ?w demo_client_request
      (Auth_New 0) (demo_gateway 0) = (w', a', g', out)" by (metis prod_cases4)
  have k: "bearerKey (Header_Get (rq_Header demo_client_request) ''Authorization'') = Some ''sg_00''"
    by (simp add: demo_client_request_def Header_Get_def canonical_keys) code_simp
  have s: "ServeHTTP ?P ?E ?w ?r (demo_gateway 0) = (w', g', out)"
    using p by (simp add: proxyH_def Middleware_def k resolve_def cache_get_def Auth_New_def proxy_handler_def
        Header_Del_def canonical_keys split: prod.splits)
  have rt: "route (providers ?P) (Path ?r) = Some demo_openai"
    using demo_route [of True] by (simp add: demo_client_request_def)
  have ob: "outgoing_body demo_openai (rq_Body ?r) = Some (demo_body, False)"
    using demo_outgoing [of True] by (simp add: demo_client_request_def)
  have cb: "checkBudget ?P ?E ?w demo_openai (request_tenant ?r) demo_body (gw_redis (demo_gateway 0))
      = (?w, gw_redis (demo_gateway 0), no_reservation, True)"
    by (simp add: checkBudget_def split: option.split)
  from ServeHTTP_admitted [OF rt ob cb s demo_writer(1)]
  have sent: "gw_sent g' = [outbound_request ?r demo_openai demo_body]"
    by (auto simp: settles_def demo_links) (simp add: demo_gateway_def)
  then have "outbound_request ?r demo_openai demo_body \<in> set (drop (length (gw_sent (demo_gateway 0))) (gw_sent g'))"
    by (simp add: demo_gateway_def)
  from client_credentials_stay [OF p demo_writer(1) this] rt
  have "ob_Header (outbound_request ?r demo_openai demo_body) ''Authorization'' = Some [''Bearer sk-gw'']"
    by (auto simp: demo_client_request_def demo_openai_def)
  with sent show ?thesis by (simp only: p fst_conv snd_conv) blast
qed

subsection \<open>Paths\<close>


end
