(* ===== verification/Store.thy ===== *)
theory Store
  imports Tenant "HOL-Library.List_Lexorder" "HOL-Library.Char_ord"
begin

section \<open>Store: the migration runner\<close>

text \<open>
  \<open>internal/store/store.go\<close>. \<open>Migrate\<close> sends four kinds of statements; Postgres is not part
  of the repository, so the record \<open>migration_db\<close> holds them, and the locale
  \<open>migrations_table\<close> says what they do to the recorded versions and to the list of migration
  texts the database has executed. A statement that fails, or whose answer is lost because the connection or
  the process dies, may or may not have been executed. The embedded files are a list of names and contents.
\<close>

record 'db migration_db =
  ensure_table :: "'db \<Rightarrow> 'db \<times> (db_error + unit)"
  version_exists :: "'db \<Rightarrow> bytes \<Rightarrow> 'db \<times> (db_error + bool)"
  exec_sql :: "'db \<Rightarrow> bytes \<Rightarrow> 'db \<times> (db_error + unit)"
  insert_version :: "'db \<Rightarrow> bytes \<Rightarrow> 'db \<times> (db_error + unit)"

text \<open>\<open>Open\<close>: \<open>new_pool\<close> is the driver's, with the text of its error.\<close>

definition Open :: "(bytes \<Rightarrow> bytes + 'db) \<Rightarrow> bytes \<Rightarrow> bytes + 'db" where
  "Open new_pool databaseURL =
     (case new_pool databaseURL of
        Inl e \<Rightarrow> Inl (''connect postgres: '' @ e)
      | Inr pool \<Rightarrow> Inr pool)"

type_synonym migration_fs = "(bytes \<times> bytes) list"

datatype migrate_error = EnsureFailed | ExistsFailed | ReadFailed | ApplyFailed bytes | RecordFailed

fun migrate_loop :: "'db migration_db \<Rightarrow> migration_fs \<Rightarrow> 'db \<Rightarrow> bytes list \<Rightarrow> 'db \<times> (migrate_error + unit)" where
  "migrate_loop M fs db [] = (db, Inr ())"
| "migrate_loop M fs db (name # names) =
     (case version_exists M db name of
        (db1, Inl _) \<Rightarrow> (db1, Inl ExistsFailed)
      | (db1, Inr True) \<Rightarrow> migrate_loop M fs db1 names
      | (db1, Inr False) \<Rightarrow>
          (case map_of fs name of
             None \<Rightarrow> (db1, Inl ReadFailed)
           | Some sql \<Rightarrow>
               (case exec_sql M db1 sql of
                  (db2, Inl _) \<Rightarrow> (db2, Inl (ApplyFailed name))
                | (db2, Inr _) \<Rightarrow>
                    (case insert_version M db2 name of
                       (db3, Inl _) \<Rightarrow> (db3, Inl RecordFailed)
                     | (db3, Inr _) \<Rightarrow> migrate_loop M fs db3 names))))"

definition Migrate :: "'db migration_db \<Rightarrow> migration_fs \<Rightarrow> 'db \<Rightarrow> 'db \<times> (migrate_error + unit)" where
  "Migrate M fs db =
     (case ensure_table M db of
        (db', Inl _) \<Rightarrow> (db', Inl EnsureFailed)
      | (db', Inr _) \<Rightarrow> migrate_loop M fs db' (sort (map fst fs)))"

text \<open>Starting the gateway again and again, whatever each start returned.\<close>

definition starts :: "'db migration_db \<Rightarrow> migration_fs \<Rightarrow> nat \<Rightarrow> 'db \<Rightarrow> 'db" where
  "starts M fs n db = ((\<lambda>db. fst (Migrate M fs db)) ^^ n) db"

definition content :: "migration_fs \<Rightarrow> bytes \<Rightarrow> bytes" where
  "content fs name = (case map_of fs name of Some sql \<Rightarrow> sql | None \<Rightarrow> [])"

lemma sort_names:
  "distinct (map fst fs) \<Longrightarrow> distinct (sort (map fst fs))"
  "name \<in> set (sort (map fst fs)) \<Longrightarrow> map_of fs name = Some (content fs name)"
  by (auto simp: content_def map_of_eq_None_iff split: option.split)

subsection \<open>What Postgres promises\<close>

locale migrations_table =
  fixes M :: "'db migration_db" and versions :: "'db \<Rightarrow> bytes list" and applied :: "'db \<Rightarrow> bytes list"
  assumes ensure: "ensure_table M db = (db', r) \<Longrightarrow> versions db' = versions db \<and> applied db' = applied db"
    and exists: "version_exists M db n = (db', r') \<Longrightarrow> versions db' = versions db \<and> applied db' = applied db
      \<and> (\<forall>b. r' = Inr b \<longrightarrow> b = (n \<in> set (versions db)))"
    and exec: "exec_sql M db sql = (db', r) \<Longrightarrow> versions db' = versions db
      \<and> (applied db' = applied db \<and> r \<noteq> Inr () \<or> applied db' = applied db @ [sql])"
    and insert: "insert_version M db n = (db', r) \<Longrightarrow> applied db' = applied db
      \<and> (versions db' = versions db \<and> r \<noteq> Inr () \<or> versions db' = versions db @ [n])"

text \<open>A migration that creates tables cannot be executed twice: the second time it fails.\<close>

locale once_migrations = migrations_table +
  assumes once: "exec_sql M db sql = (db', r) \<Longrightarrow> sql \<in> set (applied db) \<Longrightarrow> applied db' = applied db \<and> r \<noteq> Inr ()"
begin

definition migrated :: "migration_fs \<Rightarrow> bytes list \<Rightarrow> 'a \<Rightarrow> nat \<Rightarrow> bool" where
  "migrated fs xs db k \<longleftrightarrow> k \<le> length xs \<and> versions db = take k xs
     \<and> (applied db = map (content fs) (take k xs) \<or> applied db = map (content fs) (take (Suc k) xs))"

lemma loop_migrated:
  assumes "migrate_loop M fs db ns = (db', r)" "migrated fs xs db k" "xs = pre @ ns" "length pre \<le> k"
    "distinct xs" "\<forall>n\<in>set xs. map_of fs n = Some (content fs n)"
  shows "\<exists>k'\<ge>k. migrated fs xs db' k' \<and> (r = Inr () \<longrightarrow> k' = length xs)"
  using assms
proof (induction ns arbitrary: db pre k)
  case Nil then show ?case by (auto simp: migrated_def)
next
  case (Cons n ns)
  note loop = Cons.prems(1) and inv = Cons.prems(2) and xs = Cons.prems(3) and d = Cons.prems(5)
  obtain db1 r1 where ex: "version_exists M db n = (db1, r1)" by fastforce
  from exists [OF ex] have s1: "versions db1 = versions db" "applied db1 = applied db"
    and b: "\<And>b. r1 = Inr b \<Longrightarrow> b = (n \<in> set (versions db))" by auto
  have inv1: "migrated fs xs db1 k" using inv by (simp add: migrated_def s1)
  have xs': "xs = (pre @ [n]) @ ns" using xs by simp
  show ?case
  proof (cases r1)
    case Inl
    with loop ex inv1 show ?thesis by auto
  next
    case (Inr e)
    show ?thesis
    proof (cases e)
      case True
      with b [OF Inr] inv have "n \<in> set (take k xs)" by (simp add: migrated_def)
      then have "length pre < k" using d Cons.prems(4) unfolding xs by (cases "length pre = k") auto
      moreover have "migrate_loop M fs db1 ns = (db', r)" using loop ex Inr True by simp
      ultimately show ?thesis using Cons.IH [OF _ inv1 xs' _ d Cons.prems(6)] by simp
    next
      case False
      with b [OF Inr] inv have "n \<notin> set (take k xs)" by (simp add: migrated_def)
      then have "\<not> length pre < k" unfolding xs by (auto simp: take_Cons')
      with Cons.prems(4) have k: "k = length pre" by simp
      have step: "take (Suc k) xs = take k xs @ [n]" "Suc k \<le> length xs" using k by (simp_all add: xs)
      obtain db2 r2 where e2: "exec_sql M db1 (content fs n) = (db2, r2)" by fastforce
      have mo: "map_of fs n = Some (content fs n)" using Cons.prems(6) xs by simp
      have inv2: "migrated fs xs db2 k \<and> (r2 = Inr () \<longrightarrow> applied db2 = map (content fs) (take (Suc k) xs))"
      proof (cases "applied db1 = map (content fs) (take k xs)")
        case True
        with exec [OF e2] inv1 step show ?thesis by (auto simp: migrated_def)
      next
        case False
        with inv1 have "applied db1 = map (content fs) (take (Suc k) xs)" by (simp add: migrated_def)
        with once [OF e2] exec [OF e2] inv1 step show ?thesis by (auto simp: migrated_def)
      qed
      show ?thesis
      proof (cases r2)
        case Inl
        with loop ex Inr False mo e2 inv2 \<open>r1 = Inr e\<close> show ?thesis by auto
      next
        case ok: (Inr u)
        obtain db3 r3 where i3: "insert_version M db2 n = (db3, r3)" by fastforce
        have ap: "applied db2 = map (content fs) (take (Suc k) xs)" "versions db2 = take k xs"
          using inv2 ok by (auto simp: migrated_def)
        have inv3: "migrated fs xs db3 k \<and> r3 \<noteq> Inr () \<or> migrated fs xs db3 (Suc k)"
          using insert [OF i3] ap step inv2 by (auto simp: migrated_def)
        show ?thesis
        proof (cases r3)
          case Inl
          with loop ex Inr False mo e2 i3 inv3 ok \<open>r1 = Inr e\<close> show ?thesis by (auto intro: exI [of _ k] exI [of _ "Suc k"])
        next
          case (Inr u')
          then have m3: "migrated fs xs db3 (Suc k)" using inv3 by simp
          have l3: "migrate_loop M fs db3 ns = (db', r)" using loop ex \<open>r1 = Inr e\<close> False mo e2 i3 Inr ok by simp
          from Cons.IH [OF l3 m3 xs' _ d Cons.prems(6)] k show ?thesis by (auto intro: Suc_leD)
        qed
      qed
    qed
  qed
qed

lemma Migrate_migrated:
  assumes "Migrate M fs db = (db', r)" "migrated fs (sort (map fst fs)) db k" "distinct (map fst fs)"
  shows "\<exists>k'\<ge>k. migrated fs (sort (map fst fs)) db' k' \<and> (r = Inr () \<longrightarrow> k' = length fs)"
proof -
  obtain db1 r1 where e: "ensure_table M db = (db1, r1)" by fastforce
  with ensure [OF e] assms(2) have inv: "migrated fs (sort (map fst fs)) db1 k" by (simp add: migrated_def)
  show ?thesis
  proof (cases r1)
    case Inl with assms(1) e inv show ?thesis by (auto simp: Migrate_def)
  next
    case (Inr u)
    with assms(1) e have l: "migrate_loop M fs db1 (sort (map fst fs)) = (db', r)" by (simp add: Migrate_def)
    from loop_migrated [OF l inv, of "[]"] sort_names [where fs = fs] assms(3) show ?thesis by simp
  qed
qed

lemma starts_migrated:
  assumes "migrated fs (sort (map fst fs)) db k" "distinct (map fst fs)"
  shows "\<exists>k'\<ge>k. migrated fs (sort (map fst fs)) (starts M fs n db) k'"
proof (induction n)
  case 0 then show ?case using assms by (auto simp: starts_def)
next
  case (Suc n)
  then obtain k' where k': "k \<le> k'" "migrated fs (sort (map fst fs)) (starts M fs n db) k'" by blast
  obtain db' r where m: "Migrate M fs (starts M fs n db) = (db', r)" by fastforce
  from Migrate_migrated [OF m k'(2) assms(2)] k'(1) m show ?case by (auto simp: starts_def intro: order_trans)
qed

lemma fresh_start:
  assumes "versions db = []" "applied db = []" "distinct (map fst fs)"
  obtains k where "migrated fs (sort (map fst fs)) (starts M fs n db) k"
  using starts_migrated [of fs db 0 n] assms by (auto simp: migrated_def)

lemma fresh_Migrate:
  assumes "versions db = []" "applied db = []" "distinct (map fst fs)" "Migrate M fs (starts M fs n db) = (db', r)"
  shows "\<exists>k\<le>length fs. versions db' = take k (sort (map fst fs))
     \<and> (applied db' = map (content fs) (take k (sort (map fst fs)))
        \<or> applied db' = map (content fs) (take (Suc k) (sort (map fst fs))))
     \<and> (r = Inr () \<longrightarrow> k = length fs)"
proof -
  from fresh_start [OF assms(1-3)] obtain k where "migrated fs (sort (map fst fs)) (starts M fs n db) k" by blast
  from Migrate_migrated [OF assms(4) this assms(3)] show ?thesis by (auto simp: migrated_def)
qed

lemma loop_stuck:
  assumes "migrate_loop M fs db ns = (db', r)" "xs = pre @ ns" "length pre \<le> k" "k < length xs"
    "versions db = take k xs" "applied db = map (content fs) (take (Suc k) xs)"
    "distinct xs" "\<forall>n\<in>set xs. map_of fs n = Some (content fs n)"
  shows "r \<noteq> Inr () \<and> versions db' = versions db \<and> applied db' = applied db"
  using assms
proof (induction ns arbitrary: db pre)
  case Nil then show ?case by simp
next
  case (Cons n ns)
  obtain db1 r1 where ex: "version_exists M db n = (db1, r1)" by fastforce
  from exists [OF ex] have s1: "versions db1 = versions db" "applied db1 = applied db"
    and b: "\<And>b. r1 = Inr b \<Longrightarrow> b = (n \<in> set (versions db))" by auto
  have xs: "xs = (pre @ [n]) @ ns" using Cons.prems(2) by simp
  consider (err) e where "r1 = Inl e" | (skip) "r1 = Inr True" | (todo) "r1 = Inr False"
    by (metis (full_types) sum.exhaust)
  then show ?case
  proof cases
    case err with Cons.prems(1) ex s1 show ?thesis by auto
  next
    case skip
    with b [of True] Cons.prems(5) have "n \<in> set (take k xs)" by simp
    then have "length pre < k" using Cons.prems(3,7) unfolding xs by (cases "length pre = k") auto
    moreover have "migrate_loop M fs db1 ns = (db', r)" using Cons.prems(1) ex skip by simp
    ultimately show ?thesis using Cons.IH [OF _ xs _ Cons.prems(4)] Cons.prems s1 by simp
  next
    case todo
    with b [of False] Cons.prems(5) have "n \<notin> set (take k xs)" by simp
    then have "\<not> length pre < k" unfolding xs by (auto simp: take_Cons')
    with Cons.prems(3) have "take (Suc k) xs = pre @ [n]" unfolding xs by simp
    then have "content fs n \<in> set (applied db1)" by (simp add: s1 Cons.prems(6))
    moreover have "map_of fs n = Some (content fs n)" using Cons.prems(8) xs by simp
    moreover obtain db2 r2 where e2: "exec_sql M db1 (content fs n) = (db2, r2)" by fastforce
    ultimately show ?thesis using Cons.prems(1) ex todo once [OF e2] exec [OF e2] s1
      by (cases r2) auto
  qed
qed

lemma Migrate_stuck:
  assumes "k < length fs" "versions db = take k (sort (map fst fs))"
    "applied db = map (content fs) (take (Suc k) (sort (map fst fs)))" "distinct (map fst fs)"
  shows "snd (Migrate M fs (starts M fs m db)) \<noteq> Inr ()"
proof -
  have step: "snd (Migrate M fs d) \<noteq> Inr () \<and> versions (fst (Migrate M fs d)) = versions db
      \<and> applied (fst (Migrate M fs d)) = applied db"
    if d: "versions d = versions db" "applied d = applied db" for d
  proof -
    obtain db1 r1 where e: "ensure_table M d = (db1, r1)" by fastforce
    obtain db' r where l: "migrate_loop M fs db1 (sort (map fst fs)) = (db', r)" by fastforce
    have "versions db1 = take k (sort (map fst fs))" "applied db1 = map (content fs) (take (Suc k) (sort (map fst fs)))"
      using ensure [OF e] d assms(2,3) by simp_all
    from loop_stuck [OF l _ _ _ this] assms sort_names [where fs = fs] ensure [OF e] d
    show ?thesis by (cases r1) (simp_all add: Migrate_def e l)
  qed
  have "versions (starts M fs m db) = versions db \<and> applied (starts M fs m db) = applied db"
    by (induction m) (simp_all add: starts_def step)
  with step show ?thesis by blast
qed

lemma fresh_stuck:
  assumes "versions db = []" "applied db = []" "distinct (map fst fs)"
    and "applied (starts M fs n db) \<noteq> map (content fs) (versions (starts M fs n db))"
  shows "snd (Migrate M fs (starts M fs m (starts M fs n db))) \<noteq> Inr ()"
proof -
  from fresh_start [OF assms(1-3)] obtain k where k: "migrated fs (sort (map fst fs)) (starts M fs n db) k" by blast
  with assms(4) have "k < length fs" by (cases "k = length fs") (auto simp: migrated_def)
  from Migrate_stuck [OF this _ _ assms(3)] k assms(4) show ?thesis by (auto simp: migrated_def)
qed

end

text \<open>While the database is up, every statement is executed; only a migration that was executed before fails.\<close>

locale migrations_up = once_migrations +
  fixes up :: "'a \<Rightarrow> bool"
  assumes up_ensure: "up db \<Longrightarrow> \<exists>db'. ensure_table M db = (db', Inr ()) \<and> up db'"
    and up_exists: "up db \<Longrightarrow> \<exists>db' b. version_exists M db n = (db', Inr b) \<and> up db'"
    and up_exec: "up db \<Longrightarrow> sql \<notin> set (applied db) \<Longrightarrow> \<exists>db'. exec_sql M db sql = (db', Inr ()) \<and> up db'"
    and up_insert: "up db \<Longrightarrow> n \<notin> set (versions db) \<Longrightarrow> \<exists>db'. insert_version M db n = (db', Inr ()) \<and> up db'"
begin

lemma loop_completes:
  assumes "up db" "set (applied db) = content fs ` set (versions db)" "distinct ns"
    "inj_on (content fs) (set ns \<union> set (versions db))" "\<forall>n\<in>set ns. map_of fs n = Some (content fs n)"
  shows "\<exists>db'. migrate_loop M fs db ns = (db', Inr ()) \<and> up db'"
  using assms
proof (induction ns arbitrary: db)
  case (Cons n ns)
  from up_exists [OF Cons.prems(1)] obtain db1 b where ex: "version_exists M db n = (db1, Inr b)" "up db1" by blast
  from exists [OF ex(1)] have s1: "versions db1 = versions db" "applied db1 = applied db" and b: "b = (n \<in> set (versions db))" by auto
  show ?case
  proof (cases b)
    case True
    then have "\<exists>db'. migrate_loop M fs db1 ns = (db', Inr ()) \<and> up db'"
      using Cons.IH [OF ex(2)] Cons.prems by (auto simp: s1 intro: inj_on_subset)
    with ex True show ?thesis by simp
  next
    case False
    with b have n: "n \<notin> set (versions db1)" by (simp add: s1)
    have "content fs n \<notin> set (applied db1)"
      using Cons.prems(2,4) n by (auto simp: s1 dest: inj_onD)
    from up_exec [OF ex(2) this] obtain db2 where e2: "exec_sql M db1 (content fs n) = (db2, Inr ())" "up db2" by blast
    from exec [OF e2(1)] have s2: "versions db2 = versions db" "applied db2 = applied db @ [content fs n]" by (simp_all add: s1)
    from up_insert [OF e2(2), of n] n obtain db3 where i3: "insert_version M db2 n = (db3, Inr ())" "up db3"
      by (auto simp: s1 s2)
    from insert [OF i3(1)] have s3: "versions db3 = versions db @ [n]" "applied db3 = applied db @ [content fs n]"
      by (simp_all add: s2)
    have "\<exists>db'. migrate_loop M fs db3 ns = (db', Inr ()) \<and> up db'"
      using Cons.IH [OF i3(2)] Cons.prems by (auto simp: s3)
    with ex e2 i3 False Cons.prems(5) show ?thesis by simp
  qed
qed simp

lemma Migrate_up:
  assumes "up db" "distinct (map fst fs)" "inj_on (content fs) (set (map fst fs))"
    and "versions db = take k (sort (map fst fs))" "applied db = map (content fs) (versions db)"
  shows "\<exists>db'. Migrate M fs db = (db', Inr ()) \<and> up db' \<and> versions db' = sort (map fst fs)
     \<and> applied db' = map (content fs) (versions db')"
proof -
  let ?xs = "sort (map fst fs)"
  from up_ensure [OF assms(1)] obtain db1 where e: "ensure_table M db = (db1, Inr ())" "up db1" by blast
  from ensure [OF e(1)] have s1: "versions db1 = versions db" "applied db1 = applied db" by simp_all
  have v: "set (versions db) \<subseteq> set (map fst fs)" using set_take_subset [of k ?xs] by (simp add: assms(4))
  then have "set ?xs \<union> set (versions db) = set (map fst fs)" by auto
  then have "\<exists>db'. migrate_loop M fs db1 ?xs = (db', Inr ()) \<and> up db'"
    using loop_completes [OF e(2), of fs ?xs] assms(2,3,5) sort_names [where fs = fs] by (simp add: s1)
  then obtain db' where l: "Migrate M fs db = (db', Inr ())" "up db'" by (auto simp: Migrate_def e(1))
  have "migrated fs ?xs db (length (versions db))" using assms(4,5) by (simp add: migrated_def min_def)
  from Migrate_migrated [OF l(1) this assms(2)] l show ?thesis by (auto simp: migrated_def)
qed

end

subsection \<open>A database in memory that meets the contract\<close>

text \<open>Its connection answers by a schedule: the statement runs, is refused, or runs and the answer is lost.\<close>

datatype answer = Done | Refused | ReplyLost

record mem_migrations =
  answers :: "answer list"
  mem_versions :: "bytes list"
  mem_applied :: "bytes list"

definition mem_statement :: "(mem_migrations \<Rightarrow> (mem_migrations \<times> 'x) option) \<Rightarrow> mem_migrations \<Rightarrow>
    mem_migrations \<times> (db_error + 'x)" where
  "mem_statement run db =
     (let a = (case answers db of [] \<Rightarrow> Done | a # _ \<Rightarrow> a);
          db = db\<lparr>answers := tl (answers db)\<rparr>
      in if a = Refused then (db, Inl DBError)
         else case run db of
             None \<Rightarrow> (db, Inl DBError)
           | Some (db', x) \<Rightarrow> (db', if a = Done then Inr x else Inl DBError))"

definition mem_migration_db :: "mem_migrations migration_db" where
  "mem_migration_db = \<lparr>
     ensure_table = mem_statement (\<lambda>db. Some (db, ())),
     version_exists = (\<lambda>db n. mem_statement (\<lambda>db. Some (db, n \<in> set (mem_versions db))) db),
     exec_sql = (\<lambda>db sql. mem_statement (\<lambda>db. if sql \<in> set (mem_applied db) then None
        else Some (db\<lparr>mem_applied := mem_applied db @ [sql]\<rparr>, ())) db),
     insert_version = (\<lambda>db n. mem_statement (\<lambda>db. if n \<in> set (mem_versions db) then None
        else Some (db\<lparr>mem_versions := mem_versions db @ [n]\<rparr>, ())) db)\<rparr>"

interpretation mem_migrations: migrations_up mem_migration_db mem_versions mem_applied "\<lambda>db. answers db = []"
  by unfold_locales
    (auto simp: mem_migration_db_def mem_statement_def Let_def split: if_splits option.splits list.splits)

subsection \<open>Every migration, in order, once\<close>


text \<open>C32: a start that dies after executing a migration and before recording it blocks the gateway for good: from
  then on every start fails on that migration, which the database refuses to execute a second time.\<close>

theorem unrecorded_migration_blocks:
  assumes "once_migrations M versions applied" "distinct (map fst fs)"
    and "versions db = []" "applied db = []"
    and "applied (starts M fs n db) \<noteq> map (content fs) (versions (starts M fs n db))"
  shows "snd (Migrate M fs (starts M fs m (starts M fs n db))) \<noteq> Inr ()"
  using once_migrations.fresh_stuck [OF assms(1,3,4,2,5)] .

text \<open>C33: while the database answers, a start records every migration, and the next starts find nothing to do.\<close>

theorem Migrate_completes:
  assumes "migrations_up M versions applied up" "up db" "distinct (map fst fs)" "inj_on (content fs) (set (map fst fs))"
    and "versions db = take k (sort (map fst fs))" "applied db = map (content fs) (versions db)"
  shows "\<exists>db'. Migrate M fs db = (db', Inr ()) \<and> versions db' = sort (map fst fs)
     \<and> applied db' = map (content fs) (sort (map fst fs))
     \<and> (\<exists>db''. Migrate M fs db' = (db'', Inr ()) \<and> versions db'' = versions db' \<and> applied db'' = applied db')"
proof -
  note run = migrations_up.Migrate_up [OF assms(1)]
  from run [OF assms(2-6)] obtain db' where d: "Migrate M fs db = (db', Inr ())" "up db'"
    "versions db' = sort (map fst fs)" "applied db' = map (content fs) (versions db')" by blast
  from run [OF d(2) assms(3,4) _ d(4), of "length fs"] d show ?thesis by (simp del: length_greater_0_conv) metis
qed

definition demo_fs :: migration_fs where
  "demo_fs = [(''002_more.sql'', ''ALTER''), (''001_init.sql'', ''CREATE'')]"

definition demo_migrations :: "answer list \<Rightarrow> mem_migrations" where
  "demo_migrations as = \<lparr>answers = as, mem_versions = [], mem_applied = []\<rparr>"

lemma demo_sort: "sort (map fst demo_fs) = [''001_init.sql'', ''002_more.sql'']"
  by code_simp

lemma demo_crash: "starts mem_migration_db demo_fs 1 (demo_migrations [Done, Done, Done, Refused])
    = \<lparr>answers = [], mem_versions = [], mem_applied = [''CREATE'']\<rparr>"
  by (simp add: starts_def Migrate_def demo_sort mem_migration_db_def mem_statement_def demo_migrations_def demo_fs_def)


theorem unrecorded_migration_blocks_witness:
  "snd (Migrate mem_migration_db demo_fs (starts mem_migration_db demo_fs 3
     (starts mem_migration_db demo_fs 1 (demo_migrations [Done, Done, Done, Refused])))) \<noteq> Inr ()"
  by (rule unrecorded_migration_blocks [OF mem_migrations.once_migrations_axioms], unfold demo_crash)
    (simp_all add: demo_fs_def demo_migrations_def)

theorem Migrate_completes_witness:
  "\<exists>db'. Migrate mem_migration_db demo_fs (demo_migrations []) = (db', Inr ())
    \<and> mem_versions db' = [''001_init.sql'', ''002_more.sql''] \<and> mem_applied db' = [''CREATE'', ''ALTER'']"
  using Migrate_completes [OF mem_migrations.migrations_up_axioms, of "demo_migrations []" demo_fs 0]
  unfolding demo_sort by (auto simp: demo_fs_def demo_migrations_def content_def)

end
