(* ===== verification/GoDuration.thy ===== *)
theory GoDuration
  imports GoTime GoFloat GoStrings GoJson
begin

section \<open>GoDuration: durations, query strings and timestamps\<close>

text \<open>
  What the dashboard uses of \<open>time\<close> and \<open>net/url\<close>: \<open>time.ParseDuration\<close> and
  \<open>Duration.String\<close> (a duration is an \<open>int64\<close> of nanoseconds), the first value of a key
  of a query string, and a time in RFC 3339 with the zone's offset in seconds.
\<close>

definition day :: int where
  "day = 86400000000000"

subsection \<open>Duration.String\<close>

text \<open>\<open>fmtFrac\<close>: \<open>v\<close> as a fraction of \<open>10^prec\<close>, without trailing zeros, and what is left.\<close>

fun frac_digits :: "nat \<Rightarrow> int \<Rightarrow> bool \<Rightarrow> bytes \<Rightarrow> bytes \<times> int \<times> bool" where
  "frac_digits 0 v print acc = (acc, v, print)"
| "frac_digits (Suc n) v print acc =
     (let print' = (print \<or> v mod 10 \<noteq> 0)
      in frac_digits n (v div 10) print' (if print' then digit (nat (v mod 10)) # acc else acc))"

definition fmtFrac :: "int \<Rightarrow> nat \<Rightarrow> bytes \<times> int" where
  "fmtFrac v prec = (case frac_digits prec v False [] of (ds, v', print) \<Rightarrow> (if print then CHR ''.'' # ds else [], v'))"

definition micro_sign :: bytes where
  "micro_sign = [CHR 0xC2, CHR 0xB5]"

definition Duration_String :: "int \<Rightarrow> bytes" where
  "Duration_String d =
     (let u = \<bar>d\<bar>;
          text =
            (if u = 0 then ''0s''
             else if u < 1000000000 then
               (let (prec, suffix) =
                  (if u < 1000 then (0, ''ns'') else if u < 1000000 then (3, micro_sign @ ''s'') else (6, ''ms''))
                in case fmtFrac u prec of (f, v) \<Rightarrow> digits (nat v) @ f @ suffix)
             else case fmtFrac u 9 of (f, v) \<Rightarrow>
               (if v div 60 = 0 then []
                else (if v div 3600 = 0 then [] else digits (nat (v div 3600)) @ ''h'')
                  @ digits (nat (v div 60 mod 60)) @ ''m'')
               @ digits (nat (v mod 60)) @ f @ ''s'')
      in if d < 0 then CHR ''-'' # text else text)"

subsection \<open>ParseDuration\<close>

fun leadingInt :: "int \<Rightarrow> bytes \<Rightarrow> (int \<times> bytes) option" where
  "leadingInt x [] = Some (x, [])"
| "leadingInt x (c # s) =
     (if \<not> is_digit c then Some (x, c # s)
      else if 2 ^ 63 div 10 < x then None
      else let y = x * 10 + int (undigit c)
           in if 2 ^ 63 < y then None else leadingInt y s)"

text \<open>The digits of a fraction and ten to the number of digits kept; further digits are dropped.\<close>

fun leadingFraction :: "int \<Rightarrow> int \<Rightarrow> bool \<Rightarrow> bytes \<Rightarrow> int \<times> int \<times> bytes" where
  "leadingFraction x scale full [] = (x, scale, [])"
| "leadingFraction x scale full (c # s) =
     (if \<not> is_digit c then (x, scale, c # s)
      else if full \<or> (2 ^ 63 - 1) div 10 < x \<or> 2 ^ 63 < x * 10 + int (undigit c) then leadingFraction x scale True s
      else leadingFraction (x * 10 + int (undigit c)) (scale * 10) False s)"

definition unitMap :: "bytes \<Rightarrow> int option" where
  "unitMap u =
     map_of [(''ns'', 1), (''us'', 1000), (micro_sign @ ''s'', 1000), ([CHR 0xCE, CHR 0xBC] @ ''s'', 1000),
       (''ms'', 1000000), (''s'', 1000000000), (''m'', 60000000000), (''h'', 3600000000000)] u"

definition number_start :: "char \<Rightarrow> bool" where
  "number_start c \<longleftrightarrow> c = CHR ''.'' \<or> is_digit c"

text \<open>\<open>uint64(float64(f) * (float64(unit) / scale))\<close>.\<close>

definition fraction_part :: "int \<Rightarrow> int \<Rightarrow> int \<Rightarrow> int" where
  "fraction_part f unit scale =
     (case fmul (f64_of_int f) (rnd64 (of_int unit / of_int scale)) of Fin q \<Rightarrow> \<lfloor>q\<rfloor> | _ \<Rightarrow> 0)"

datatype duration_error = InvalidDuration | MissingUnit | UnknownUnit bytes

text \<open>One number with its unit: its nanoseconds and the rest of the text.\<close>

definition parse_group :: "bytes \<Rightarrow> duration_error + int \<times> bytes" where
  "parse_group s =
     (if s = [] \<or> \<not> number_start (hd s) then Inl InvalidDuration
      else case leadingInt 0 s of
        None \<Rightarrow> Inl InvalidDuration
      | Some (v, s1) \<Rightarrow>
          (let pre = length s1 \<noteq> length s;
               dot = s1 \<noteq> [] \<and> hd s1 = CHR ''.'';
               (f, scale, s2) = (if dot then leadingFraction 0 1 False (tl s1) else (0, 1, s1));
               post = dot \<and> length s2 \<noteq> length (tl s1);
               u = takeWhile (\<lambda>c. \<not> number_start c) s2;
               s3 = dropWhile (\<lambda>c. \<not> number_start c) s2
           in if \<not> pre \<and> \<not> post then Inl InvalidDuration
              else if u = [] then Inl MissingUnit
              else case unitMap u of
                None \<Rightarrow> Inl (UnknownUnit u)
              | Some unit \<Rightarrow>
                  (if 2 ^ 63 div unit < v then Inl InvalidDuration
                   else let w = v * unit + (if 0 < f then fraction_part f unit scale else 0)
                        in if 2 ^ 63 < w then Inl InvalidDuration else Inr (w, s3))))"

lemma leadingInt_rest: "leadingInt x s = Some (v, r) \<Longrightarrow> length r \<le> length s"
  by (induction s arbitrary: x) (auto simp: Let_def split: if_splits intro: le_SucI)

lemma leadingFraction_rest: "leadingFraction x sc fl s = (f, sc', r) \<Longrightarrow> length r \<le> length s"
  by (induction x sc fl s rule: leadingFraction.induct) (auto simp: Let_def split: if_splits intro: le_SucI)

lemma parse_group_rest:
  assumes "parse_group s = Inr (w, r)"
  shows "length r < length s"
proof -
  obtain v s1 where v: "leadingInt 0 s = Some (v, s1)"
    using assms by (auto simp: parse_group_def split: if_splits option.splits)
  let ?dot = "s1 \<noteq> [] \<and> hd s1 = CHR ''.''"
  obtain f scale s2 where f: "(if ?dot then leadingFraction 0 1 False (tl s1) else (0, 1, s1)) = (f, scale, s2)"
    using prod_cases3 by blast
  have "length s1 \<le> length s" using leadingInt_rest [OF v] .
  moreover have "length s2 \<le> length s1"
    using f leadingFraction_rest [of 0 1 False "tl s1" f scale s2] by (auto split: if_splits)
  moreover have r: "r = dropWhile (\<lambda>c. \<not> number_start c) s2" "takeWhile (\<lambda>c. \<not> number_start c) s2 \<noteq> []"
    using assms by (auto simp: parse_group_def v f Let_def split: if_splits option.splits)
  moreover have "length s2 = length (takeWhile (\<lambda>c. \<not> number_start c) s2) + length r"
    unfolding r(1) length_append [symmetric] by simp
  ultimately show ?thesis by (metis add_less_same_cancel2 le_trans length_0_conv less_add_same_cancel2 neq0_conv order_less_le_trans)
qed

function parse_groups :: "int \<Rightarrow> bytes \<Rightarrow> duration_error + int" where
  "parse_groups d s =
     (if s = [] then Inr d
      else case parse_group s of
        Inl e \<Rightarrow> Inl e
      | Inr (w, r) \<Rightarrow> if 2 ^ 63 < d + w then Inl InvalidDuration else parse_groups (d + w) r)"
  by pat_completeness auto
termination
  by (relation "measure (\<lambda>(d, s). length s)") (auto dest: parse_group_rest)

declare parse_groups.simps [simp del]

definition ParseDuration :: "bytes \<Rightarrow> duration_error + int" where
  "ParseDuration orig =
     (let neg = (orig \<noteq> [] \<and> hd orig = CHR ''-'');
          s = (if orig \<noteq> [] \<and> (hd orig = CHR ''-'' \<or> hd orig = CHR ''+'') then tl orig else orig)
      in if s = ''0'' then Inr 0
         else if s = [] then Inl InvalidDuration
         else case parse_groups 0 s of
           Inl e \<Rightarrow> Inl e
         | Inr d \<Rightarrow> if neg then Inr (- d) else if 2 ^ 63 - 1 < d then Inl InvalidDuration else Inr d)"

text \<open>The text of the error; bytes that are not printable ASCII are escaped.\<close>

definition quote_byte :: "char \<Rightarrow> bytes" where
  "quote_byte c =
     (let n = (of_char c :: nat)
      in if n < 32 \<or> 128 \<le> n then [CHR 0x5C, CHR ''x'', hex_digit (n div 16), hex_digit (n mod 16)]
         else if c = CHR 0x22 \<or> c = CHR 0x5C then [CHR 0x5C, c] else [c])"

definition time_quote :: "bytes \<Rightarrow> bytes" where
  "time_quote s = CHR 0x22 # concat (map quote_byte s) @ [CHR 0x22]"

fun duration_error_text :: "bytes \<Rightarrow> duration_error \<Rightarrow> bytes" where
  "duration_error_text orig InvalidDuration = ''time: invalid duration '' @ time_quote orig"
| "duration_error_text orig MissingUnit = ''time: missing unit in duration '' @ time_quote orig"
| "duration_error_text orig (UnknownUnit u) = ''time: unknown unit '' @ time_quote u @ '' in duration '' @ time_quote orig"

subsection \<open>Query strings\<close>

fun QueryUnescape :: "bytes \<Rightarrow> bytes option" where
  "QueryUnescape [] = Some []"
| "QueryUnescape (c # s) =
     (if c = CHR ''%'' then
        (case s of
           h # l # r \<Rightarrow> if is_hex h \<and> is_hex l
             then map_option (\<lambda>t. char_of (hex_val h * 16 + hex_val l) # t) (QueryUnescape r) else None
         | _ \<Rightarrow> None)
      else map_option (\<lambda>t. (if c = CHR ''+'' then CHR '' '' else c) # t) (QueryUnescape s))"

fun split_amp :: "bytes \<Rightarrow> bytes list" where
  "split_amp [] = [[]]"
| "split_amp (c # s) =
     (if c = CHR ''&'' then [] # split_amp s
      else case split_amp s of [] \<Rightarrow> [[c]] | w # ws \<Rightarrow> (c # w) # ws)"

definition query_pair :: "bytes \<Rightarrow> (bytes \<times> bytes) option" where
  "query_pair p =
     (if p = [] \<or> CHR '';'' \<in> set p then None
      else case (QueryUnescape (takeWhile (\<lambda>c. c \<noteq> CHR ''='') p), QueryUnescape (tl (dropWhile (\<lambda>c. c \<noteq> CHR ''='') p))) of
        (Some k, Some v) \<Rightarrow> Some (k, v)
      | _ \<Rightarrow> None)"

text \<open>A query with more than 10000 parameters is not parsed.\<close>

definition Query_Get :: "bytes \<Rightarrow> bytes \<Rightarrow> bytes" where
  "Query_Get q key = (if 10000 < int (length (split_amp q)) then []
     else case map_of (List.map_filter query_pair (split_amp q)) key of Some v \<Rightarrow> v | None \<Rightarrow> [])"

subsection \<open>RFC 3339\<close>

text \<open>\<open>Time.MarshalJSON\<close> without its quotes; it fails outside the years 0 to 9999.\<close>

definition zone_text :: "int \<Rightarrow> bytes" where
  "zone_text off =
     (let m = \<bar>off\<bar> div 60
      in if off = 0 then ''Z''
         else (if off < 0 then CHR ''-'' else CHR ''+'') # pad_int 2 (m div 60) @ '':'' @ pad_int 2 (m mod 60))"

definition format_rfc3339 :: "int \<Rightarrow> instant \<Rightarrow> bytes option" where
  "format_rfc3339 off t =
     (let lt = t + off * 1000000000;
          (y, yd) = civil_year 1970 (lt div ns_per_day);
          (m, md) = civil_month (month_lens y) 1 yd;
          ns = lt mod ns_per_day;
          (frac, secs) = fmtFrac ns 9
      in if y < 0 \<or> 9999 < y then None
         else Some (pad_int 4 y @ ''-'' @ pad_int 2 m @ ''-'' @ pad_int 2 (md + 1) @ ''T''
           @ pad_int 2 (secs div 3600) @ '':'' @ pad_int 2 (secs div 60 mod 60) @ '':'' @ pad_int 2 (secs mod 60)
           @ frac @ zone_text off))"

end
