(* ===== verification/SummaryQueries.thy ===== *)
theory SummaryQueries
  imports GoDuration Tenant "HOL-Library.Multiset"
begin

section \<open>SummaryQueries: the figures of the spend summary\<close>

text \<open>
  \<open>internal/dashboard/summary.go\<close>. \<open>Summarize\<close> sends four queries, each answered from the tables as they
  are when it runs; the record \<open>summary_queries\<close> holds the four statements, \<open>total_of\<close>,
  \<open>tenant_groups\<close>, \<open>feature_groups\<close> and \<open>model_groups\<close> say what their SQL computes, and
  the locale \<open>requests_view\<close> that Postgres answers so: in any order of rows with equal spend, over tables
  that other connections may extend between two queries. Amounts are \<open>NUMERIC(12,6)\<close>: whole micro-USD,
  read as the nearest double.
\<close>

subsection \<open>The tables and the queries\<close>

record request_row =
  rr_tenant_id :: int
  rr_feature :: bytes
  rr_provider :: bytes
  rr_model :: bytes
  rr_cost :: int
  rr_estimated :: bool
  rr_created :: instant

record tables =
  tb_tenants :: "(int \<times> bytes) list"
  tb_requests :: "request_row list"

definition in_window :: "instant \<Rightarrow> tables \<Rightarrow> request_row list" where
  "in_window since T = filter (\<lambda>r. since \<le> rr_created r) (tb_requests T)"

definition spend :: "request_row list \<Rightarrow> int" where
  "spend rs = sum_list (map rr_cost rs)"

definition total_of :: "instant \<Rightarrow> tables \<Rightarrow> int \<times> int" where
  "total_of since T = (spend (in_window since T), int (length (in_window since T)))"

type_synonym tenant_answer = "int \<times> bytes \<times> int \<times> int \<times> int"

definition tenant_groups :: "instant \<Rightarrow> tables \<Rightarrow> tenant_answer list" where
  "tenant_groups since T =
     map (\<lambda>(i, name). let rs = filter (\<lambda>r. rr_tenant_id r = i) (in_window since T)
            in (i, name, spend rs, int (length rs), spend (filter rr_estimated rs)))
       (filter (\<lambda>(i, _). \<exists>r\<in>set (in_window since T). rr_tenant_id r = i) (tb_tenants T))"

type_synonym feature_answer = "int \<times> bytes \<times> bytes \<times> int \<times> int"

definition feature_groups :: "instant \<Rightarrow> tables \<Rightarrow> feature_answer list" where
  "feature_groups since T =
     concat (map (\<lambda>(i, name). let rs = filter (\<lambda>r. rr_tenant_id r = i) (in_window since T)
            in map (\<lambda>f. let fs = filter (\<lambda>r. rr_feature r = f) rs in (i, name, f, spend fs, int (length fs)))
                 (remdups (map rr_feature rs)))
       (tb_tenants T))"

type_synonym model_answer = "bytes \<times> bytes \<times> int \<times> int"

definition model_groups :: "instant \<Rightarrow> tables \<Rightarrow> model_answer list" where
  "model_groups since T =
     map (\<lambda>(p, m). let rs = filter (\<lambda>r. (rr_provider r, rr_model r) = (p, m)) (in_window since T)
            in (p, m, spend rs, int (length rs)))
       (remdups (map (\<lambda>r. (rr_provider r, rr_model r)) (in_window since T)))"

text \<open>A query with rows fails, or yields rows and then whether the iteration ended without an error.\<close>

record 'db summary_queries =
  q_total :: "'db \<Rightarrow> instant \<Rightarrow> 'db \<times> (db_error + int \<times> int)"
  q_tenants :: "'db \<Rightarrow> instant \<Rightarrow> 'db \<times> (db_error + tenant_answer list \<times> bool)"
  q_features :: "'db \<Rightarrow> instant \<Rightarrow> 'db \<times> (db_error + feature_answer list \<times> bool)"
  q_models :: "'db \<Rightarrow> instant \<Rightarrow> 'db \<times> (db_error + model_answer list \<times> bool)"

subsection \<open>Summarize\<close>

record TenantSpend =
  ts_TenantID :: int
  ts_Name :: bytes
  ts_SpendUSD :: f64
  ts_Requests :: int
  ts_EstimatedShare :: f64

record FeatureSpend =
  fs_TenantID :: int
  fs_Tenant :: bytes
  fs_Feature :: bytes
  fs_SpendUSD :: f64
  fs_Requests :: int

record ModelSpend =
  ms_Provider :: bytes
  ms_Model :: bytes
  ms_SpendUSD :: f64
  ms_Requests :: int

record Summary =
  Window :: bytes
  TotalSpendUSD :: f64
  TotalRequests :: int
  Tenants :: "TenantSpend list"
  Features :: "FeatureSpend list"
  Models :: "ModelSpend list"
  GeneratedAt :: instant

definition usd :: "int \<Rightarrow> f64" where
  "usd micro = rnd64 (of_int micro / 1000000)"

definition fdiv :: "f64 \<Rightarrow> f64 \<Rightarrow> f64" where
  "fdiv x y = (case y of Fin q \<Rightarrow> if q = 0 then (if x = Fin 0 \<or> x = NaN then NaN else finf (fsign x)) else fdiv_const x q
     | NaN \<Rightarrow> NaN
     | _ \<Rightarrow> (case x of Fin _ \<Rightarrow> Fin 0 | _ \<Rightarrow> NaN))"

definition tenant_spend :: "tenant_answer \<Rightarrow> TenantSpend" where
  "tenant_spend = (\<lambda>(i, name, s, n, e).
     \<lparr>ts_TenantID = i, ts_Name = name, ts_SpendUSD = usd s, ts_Requests = n,
      ts_EstimatedShare = (if flt (Fin 0) (usd s) then fdiv (usd e) (usd s) else Fin 0)\<rparr>)"

definition feature_spend :: "feature_answer \<Rightarrow> FeatureSpend" where
  "feature_spend = (\<lambda>(i, name, f, s, n).
     \<lparr>fs_TenantID = i, fs_Tenant = name, fs_Feature = f, fs_SpendUSD = usd s, fs_Requests = n\<rparr>)"

definition model_spend :: "model_answer \<Rightarrow> ModelSpend" where
  "model_spend = (\<lambda>(p, m, s, n). \<lparr>ms_Provider = p, ms_Model = m, ms_SpendUSD = usd s, ms_Requests = n\<rparr>)"

definition collect_rows :: "('a \<Rightarrow> 'b) \<Rightarrow> db_error + 'a list \<times> bool \<Rightarrow> db_error + 'b list" where
  "collect_rows scan a = (case a of
     Inl e \<Rightarrow> Inl e | Inr (rows, ok) \<Rightarrow> if ok then Inr (map scan rows) else Inl DBError)"

text \<open>The two clock readings, and the time the window starts at.\<close>

definition Summarize :: "'db summary_queries \<Rightarrow> instant \<Rightarrow> instant \<Rightarrow> 'db \<Rightarrow> int \<Rightarrow> 'db \<times> (db_error + Summary)" where
  "Summarize Q now1 now2 db window =
     (let since = now1 - window
      in case q_total Q db since of
          (db1, Inl e) \<Rightarrow> (db1, Inl e)
        | (db1, Inr (tot, n)) \<Rightarrow>
      (case q_tenants Q db1 since of (db2, ta) \<Rightarrow>
      (case collect_rows tenant_spend ta of
          Inl e \<Rightarrow> (db2, Inl e)
        | Inr ts \<Rightarrow>
      (case q_features Q db2 since of (db3, fa) \<Rightarrow>
      (case collect_rows feature_spend fa of
          Inl e \<Rightarrow> (db3, Inl e)
        | Inr fs \<Rightarrow>
      (case q_models Q db3 since of (db4, ma) \<Rightarrow>
      (case collect_rows model_spend ma of
          Inl e \<Rightarrow> (db4, Inl e)
        | Inr ms \<Rightarrow>
          (db4, Inr \<lparr>Window = Duration_String window, TotalSpendUSD = usd tot, TotalRequests = n,
            Tenants = ts, Features = fs, Models = ms, GeneratedAt = now2\<rparr>))))))))"

subsection \<open>What Postgres promises\<close>

definition tables_ok :: "tables \<Rightarrow> bool" where
  "tables_ok T \<longleftrightarrow> distinct (map fst (tb_tenants T))
     \<and> (\<forall>r\<in>set (tb_requests T). rr_tenant_id r \<in> set (map fst (tb_tenants T)))"

text \<open>Rows are only ever added to the requests table, and the foreign key stays satisfied.\<close>

definition grows :: "tables \<Rightarrow> tables \<Rightarrow> bool" where
  "grows T T' \<longleftrightarrow> (\<exists>more. tb_requests T' = tb_requests T @ more) \<and> (tables_ok T \<longrightarrow> tables_ok T')"

definition answers_by :: "('a \<Rightarrow> int) \<Rightarrow> 'a list \<Rightarrow> 'a list \<Rightarrow> bool" where
  "answers_by key gs rows \<longleftrightarrow> mset rows = mset gs \<and> sorted_wrt (\<lambda>a b. key b \<le> key a) rows"

fun tenant_key :: "tenant_answer \<Rightarrow> int" where
  "tenant_key (i, name, s, n, e) = s"

fun feature_key :: "feature_answer \<Rightarrow> int" where
  "feature_key (i, name, f, s, n) = s"

fun model_key :: "model_answer \<Rightarrow> int" where
  "model_key (p, m, s, n) = s"

locale requests_view =
  fixes Q :: "'db summary_queries" and view :: "'db \<Rightarrow> tables"
  assumes total_law: "q_total Q db since = (db', r) \<Longrightarrow> grows (view db) (view db')
      \<and> (\<forall>a. r = Inr a \<longrightarrow> a = total_of since (view db'))"
    and tenants_law: "q_tenants Q db since = (db', rt) \<Longrightarrow> grows (view db) (view db')
      \<and> (\<forall>rows. rt = Inr (rows, True) \<longrightarrow> answers_by tenant_key (tenant_groups since (view db')) rows)"
    and features_law: "q_features Q db since = (db', rf) \<Longrightarrow> grows (view db) (view db')
      \<and> (\<forall>rows. rf = Inr (rows, True) \<longrightarrow> answers_by feature_key (feature_groups since (view db')) rows)"
    and models_law: "q_models Q db since = (db', rm) \<Longrightarrow> grows (view db) (view db')
      \<and> (\<forall>rows. rm = Inr (rows, True) \<longrightarrow> answers_by model_key (model_groups since (view db')) rows)"
begin

text \<open>The four snapshots a successful summary was computed from.\<close>

lemma Summarize_views:
  assumes "Summarize Q now1 now2 db window = (db', Inr s)" "tables_ok (view db)"
  obtains T1 T2 T3 ts fs ms where
    "grows (view db) T1" "grows T1 T2" "grows T2 T3" "grows T3 (view db')"
    "tables_ok T1" "tables_ok T2" "tables_ok T3" "tables_ok (view db')"
    "(TotalSpendUSD s, TotalRequests s) = map_prod usd id (total_of (now1 - window) T1)"
    "answers_by tenant_key (tenant_groups (now1 - window) T2) ts" "Tenants s = map tenant_spend ts"
    "answers_by feature_key (feature_groups (now1 - window) T3) fs" "Features s = map feature_spend fs"
    "answers_by model_key (model_groups (now1 - window) (view db')) ms" "Models s = map model_spend ms"
    "Window s = Duration_String window" "GeneratedAt s = now2"
proof -
  let ?since = "now1 - window"
  obtain db1 r1 where q1: "q_total Q db ?since = (db1, r1)" by fastforce
  with assms obtain t n where r1: "r1 = Inr (t, n)"
    by (cases r1) (auto simp: Summarize_def Let_def)
  obtain db2 r2 where q2: "q_tenants Q db1 ?since = (db2, r2)" by fastforce
  with assms q1 r1 obtain ts where r2: "r2 = Inr (ts, True)"
    by (cases r2) (auto simp: Summarize_def Let_def collect_rows_def split: if_splits)
  obtain db3 r3 where q3: "q_features Q db2 ?since = (db3, r3)" by fastforce
  with assms q1 r1 q2 r2 obtain fs where r3: "r3 = Inr (fs, True)"
    by (cases r3) (auto simp: Summarize_def Let_def collect_rows_def split: if_splits)
  obtain db4 r4 where q4: "q_models Q db3 ?since = (db4, r4)" by fastforce
  with assms q1 r1 q2 r2 q3 r3 obtain ms where r4: "r4 = Inr (ms, True)"
    by (cases r4) (auto simp: Summarize_def Let_def collect_rows_def split: if_splits)
  have s: "db4 = db'" "s = \<lparr>Window = Duration_String window, TotalSpendUSD = usd t, TotalRequests = n,
      Tenants = map tenant_spend ts, Features = map feature_spend fs, Models = map model_spend ms, GeneratedAt = now2\<rparr>"
    using assms by (simp_all add: Summarize_def Let_def collect_rows_def q1 r1 q2 r2 q3 r3 q4 r4)
  from total_law [OF q1] tenants_law [OF q2] features_law [OF q3] models_law [OF q4] r1 r2 r3 r4 s(1)
  show ?thesis
    by (intro that [of "view db1" "view db2" "view db3" ts fs ms]) (auto simp: s(2) grows_def assms(2) map_prod_def split: prod.splits)
qed

end

subsection \<open>Counting by group\<close>

lemma sum_one_key: "distinct ks \<Longrightarrow> sum_list (map (\<lambda>k. if x = k then c else 0) ks) = (if x \<in> set ks then c else (0::int))"
  by (induction ks) auto

lemma sum_groups:
  assumes "distinct ks" "\<And>r. r \<in> set rs \<Longrightarrow> f r \<in> set ks"
  shows "sum_list (map (\<lambda>k. sum_list (map g (filter (\<lambda>r. f r = k) rs))) ks) = (sum_list (map g rs) :: int)"
  using assms(2)
proof (induction rs)
  case (Cons r rs)
  have "sum_list (map (\<lambda>k. sum_list (map g (filter (\<lambda>x. f x = k) (r # rs)))) ks)
      = sum_list (map (\<lambda>k. (if f r = k then g r else 0) + sum_list (map g (filter (\<lambda>x. f x = k) rs))) ks)"
    by (rule arg_cong [where f = sum_list], rule map_cong) auto
  also have "\<dots> = sum_list (map (\<lambda>k. if f r = k then g r else 0) ks)
      + sum_list (map (\<lambda>k. sum_list (map g (filter (\<lambda>x. f x = k) rs))) ks)" by (simp add: sum_list_addf)
  also have "sum_list (map (\<lambda>k. if f r = k then g r else 0) ks) = g r"
    using Cons.prems [of r] by (simp add: sum_one_key [OF assms(1)])
  finally show ?case using Cons by simp
qed (simp add: sum_list_0)

lemma length_as_sum: "int (length rs) = sum_list (map (\<lambda>_. 1) rs)"
  by (induction rs) simp_all

lemma sum_filter_groups:
  "(\<And>x. x \<in> set xs \<Longrightarrow> \<not> P x \<Longrightarrow> h x = 0) \<Longrightarrow> sum_list (map h (filter P xs)) = (sum_list (map h xs) :: int)"
  by (induction xs) auto

fun tenant_count :: "tenant_answer \<Rightarrow> int" where
  "tenant_count (i, name, s, n, e) = n"

fun feature_count :: "feature_answer \<Rightarrow> int" where
  "feature_count (i, name, f, s, n) = n"

fun model_count :: "model_answer \<Rightarrow> int" where
  "model_count (p, m, s, n) = n"

lemma tenant_groups_sum:
  assumes "tables_ok T"
    and "\<And>i name rs. h (i, name, spend rs, int (length rs), spend (filter rr_estimated rs)) = sum_list (map g rs)"
  shows "sum_list (map h (tenant_groups since T)) = (sum_list (map g (in_window since T)) :: int)"
proof -
  let ?rs = "in_window since T" and ?P = "\<lambda>k. \<exists>r\<in>set (in_window since T). rr_tenant_id r = k"
  let ?w = "\<lambda>k. sum_list (map g (filter (\<lambda>r. rr_tenant_id r = k) ?rs))"
  have "map h (tenant_groups since T) = map (\<lambda>x. ?w (fst x)) (filter (\<lambda>x. ?P (fst x)) (tb_tenants T))"
    by (simp add: tenant_groups_def case_prod_unfold Let_def assms(2) comp_def del: filter_filter)
  also have "sum_list \<dots> = sum_list (map (\<lambda>x. ?w (fst x)) (tb_tenants T))"
    by (rule sum_filter_groups) (auto simp: filter_empty_conv intro!: arg_cong [where f = sum_list, of _ "[]", simplified])
  also have "\<dots> = sum_list (map ?w (map fst (tb_tenants T)))" by (simp add: comp_def)
  also have "\<dots> = sum_list (map g ?rs)"
    using assms(1) by (intro sum_groups) (auto simp: tables_ok_def in_window_def)
  finally show ?thesis .
qed

lemma feature_groups_sum:
  assumes "tables_ok T" and "\<And>i name f rs. h (i, name, f, spend rs, int (length rs)) = sum_list (map g rs)"
  shows "sum_list (map h (feature_groups since T)) = (sum_list (map g (in_window since T)) :: int)"
proof -
  let ?of = "\<lambda>k. filter (\<lambda>r. rr_tenant_id r = k) (in_window since T)"
  have one: "sum_list (map (\<lambda>f. sum_list (map g (filter (\<lambda>r. rr_feature r = f) rs))) (remdups (map rr_feature rs)))
      = sum_list (map g rs)" for rs
    by (rule sum_groups) simp_all
  have sc: "sum_list (map h (concat xss)) = sum_list (map (\<lambda>xs. sum_list (map h xs)) xss)" for xss
    by (induction xss) simp_all
  have "sum_list (map h (feature_groups since T)) = sum_list (map (\<lambda>k. sum_list (map g (?of k))) (map fst (tb_tenants T)))"
    by (simp add: feature_groups_def sc comp_def case_prod_unfold Let_def assms(2) one del: filter_filter)
  also have "\<dots> = sum_list (map g (in_window since T))"
    using assms(1) by (intro sum_groups) (auto simp: tables_ok_def in_window_def)
  finally show ?thesis .
qed

lemma model_groups_sum:
  assumes "\<And>p m rs. h (p, m, spend rs, int (length rs)) = sum_list (map g rs)"
  shows "sum_list (map h (model_groups since T)) = (sum_list (map g (in_window since T)) :: int)"
proof -
  let ?f = "\<lambda>r. (rr_provider r, rr_model r)"
  have "map h (model_groups since T) = map (\<lambda>k. sum_list (map g (filter (\<lambda>r. ?f r = k) (in_window since T))))
      (remdups (map ?f (in_window since T)))"
    by (simp add: model_groups_def split_beta Let_def assms)
  moreover have "sum_list \<dots> = sum_list (map g (in_window since T))" by (rule sum_groups) simp_all
  ultimately show ?thesis by simp
qed

lemma mset_sum: "mset xs = mset ys \<Longrightarrow> sum_list (map h xs) = (sum_list (map h ys) :: int)"
  by (metis mset_map sum_mset_sum_list)

subsection \<open>The figures of a summary\<close>

lemma grows_window: "grows T T' \<Longrightarrow> \<exists>more. in_window since T' = in_window since T @ more"
  by (auto simp: grows_def in_window_def)

lemma grows_length: "grows T T' \<Longrightarrow> length (in_window since T) \<le> length (in_window since T')"
  using grows_window [of T T' since] by auto

lemma usd_mono: "a \<le> b \<Longrightarrow> fle (usd a) (usd b)"
  unfolding usd_def by (intro rnd64_mono divide_right_mono) simp_all

lemma spend_fields [simp]:
  "ts_Requests (tenant_spend t) = tenant_count t" "ts_SpendUSD (tenant_spend t) = usd (tenant_key t)"
  "fs_Requests (feature_spend f) = feature_count f" "fs_SpendUSD (feature_spend f) = usd (feature_key f)"
  "ms_Requests (model_spend m) = model_count m" "ms_SpendUSD (model_spend m) = usd (model_key m)"
  by (cases t; cases f; cases m; simp add: tenant_spend_def feature_spend_def model_spend_def)+

lemma answers_sum: "answers_by key gs rows \<Longrightarrow> sum_list (map h rows) = (sum_list (map h gs) :: int)"
  by (auto simp: answers_by_def intro: mset_sum)

lemma answers_sorted:
  "answers_by key gs rows \<Longrightarrow> sorted_wrt (\<lambda>a b. fle (usd (key b)) (usd (key a))) rows"
  unfolding answers_by_def by (elim conjE sorted_wrt_mono_rel [rotated]) (rule usd_mono)

definition accounts :: "Summary \<Rightarrow> bool" where
  "accounts s \<longleftrightarrow> (\<exists>ts fs ms. map ts_SpendUSD (Tenants s) = map usd ts \<and> map fs_SpendUSD (Features s) = map usd fs
     \<and> map ms_SpendUSD (Models s) = map usd ms \<and> TotalSpendUSD s = usd (sum_list ts)
     \<and> sum_list fs = sum_list ts \<and> sum_list ms = sum_list ts)"

text \<open>C34: a summary accounts for every request of its window: the request counts of the tenants, features and
  models add up to no fewer than the total, each table to no fewer than the one before, because later queries
  can only see more requests; when nothing was metered in between they agree exactly, the total is the number
  of requests in the window, and the amounts of each table are the roundings of amounts that add up to the
  total. Every table is sorted by decreasing spend.\<close>

theorem summary_accounts_for_every_request:
  assumes "requests_view Q view" "tables_ok (view db)" "Summarize Q now1 now2 db window = (db', Inr s)"
  shows "int (length (in_window (now1 - window) (view db))) \<le> TotalRequests s
    \<and> TotalRequests s \<le> sum_list (map ts_Requests (Tenants s))
    \<and> sum_list (map ts_Requests (Tenants s)) \<le> sum_list (map fs_Requests (Features s))
    \<and> sum_list (map fs_Requests (Features s)) \<le> sum_list (map ms_Requests (Models s))
    \<and> sum_list (map ms_Requests (Models s)) = int (length (in_window (now1 - window) (view db')))
    \<and> (view db' = view db \<longrightarrow> accounts s)
    \<and> sorted_wrt (\<lambda>a b. fle (ts_SpendUSD b) (ts_SpendUSD a)) (Tenants s)
    \<and> sorted_wrt (\<lambda>a b. fle (fs_SpendUSD b) (fs_SpendUSD a)) (Features s)
    \<and> sorted_wrt (\<lambda>a b. fle (ms_SpendUSD b) (ms_SpendUSD a)) (Models s)"
proof -
  let ?since = "now1 - window"
  from requests_view.Summarize_views [OF assms(1,3,2)] obtain T1 T2 T3 ts fs ms where
    g: "grows (view db) T1" "grows T1 T2" "grows T2 T3" "grows T3 (view db')"
    and ok: "tables_ok T2" "tables_ok T3"
    and t: "(TotalSpendUSD s, TotalRequests s) = map_prod usd id (total_of ?since T1)"
    and a: "answers_by tenant_key (tenant_groups ?since T2) ts" "Tenants s = map tenant_spend ts"
      "answers_by feature_key (feature_groups ?since T3) fs" "Features s = map feature_spend fs"
      "answers_by model_key (model_groups ?since (view db')) ms" "Models s = map model_spend ms"
    by metis
  have n: "TotalRequests s = int (length (in_window ?since T1))" "TotalSpendUSD s = usd (spend (in_window ?since T1))"
    using t by (simp_all add: total_of_def)
  have counts: "sum_list (map ts_Requests (Tenants s)) = int (length (in_window ?since T2))"
      "sum_list (map fs_Requests (Features s)) = int (length (in_window ?since T3))"
      "sum_list (map ms_Requests (Models s)) = int (length (in_window ?since (view db')))"
    using answers_sum [OF a(1), of tenant_count] answers_sum [OF a(3), of feature_count] answers_sum [OF a(5), of model_count]
      tenant_groups_sum [OF ok(1), of tenant_count "\<lambda>_. 1" ?since] feature_groups_sum [OF ok(2), of feature_count "\<lambda>_. 1" ?since]
      model_groups_sum [of model_count "\<lambda>_. 1" ?since "view db'"]
    by (simp_all add: a(2,4,6) comp_def length_as_sum)
  have spends: "sum_list (map tenant_key ts) = spend (in_window ?since T2)"
      "sum_list (map feature_key fs) = spend (in_window ?since T3)"
      "sum_list (map model_key ms) = spend (in_window ?since (view db'))"
    using answers_sum [OF a(1), of tenant_key] answers_sum [OF a(3), of feature_key] answers_sum [OF a(5), of model_key]
      tenant_groups_sum [OF ok(1), of tenant_key rr_cost ?since] feature_groups_sum [OF ok(2), of feature_key rr_cost ?since]
      model_groups_sum [of model_key rr_cost ?since "view db'"]
    by (simp_all add: spend_def)
  have quiet: "accounts s" if "view db' = view db"
  proof -
    have "tb_requests T1 = tb_requests (view db)" "tb_requests T2 = tb_requests (view db)"
      "tb_requests T3 = tb_requests (view db)" using g that by (auto simp: grows_def)
    then have "in_window ?since T1 = in_window ?since (view db)" "in_window ?since T2 = in_window ?since (view db)"
      "in_window ?since T3 = in_window ?since (view db)" by (simp_all add: in_window_def)
    with spends n(2) that show ?thesis unfolding accounts_def
      by (intro exI [of _ "map tenant_key ts"] exI [of _ "map feature_key fs"] exI [of _ "map model_key ms"])
         (simp add: a(2,4,6) comp_def)
  qed
  from grows_length [OF g(1), of ?since] grows_length [OF g(2), of ?since] grows_length [OF g(3), of ?since]
    grows_length [OF g(4), of ?since] quiet answers_sorted [OF a(1)] answers_sorted [OF a(3)] answers_sorted [OF a(5)]
  show ?thesis by (simp add: counts n(1)) (simp add: a(2,4,6) sorted_wrt_map)
qed

lemma spend_bounds:
  "\<forall>r\<in>set rs. 0 \<le> rr_cost r \<and> rr_cost r < 10 ^ 12 \<Longrightarrow> 0 \<le> spend rs \<and> spend rs \<le> 10 ^ 12 * int (length rs)"
  by (induction rs) (auto simp: spend_def)

lemma spend_filter_le: "\<forall>r\<in>set rs. 0 \<le> rr_cost r \<Longrightarrow> spend (filter P rs) \<le> spend rs"
  by (induction rs) (auto simp: spend_def)

lemma usd_Fin:
  assumes "0 \<le> n" "n \<le> 10 ^ 12 * 2 ^ 63"
  obtains q where "usd n = Fin q" "0 \<le> q"
proof -
  have "(of_int n :: rat) \<le> of_int (10 ^ 12 * 2 ^ 63)" using assms(2) by (simp only: of_int_le_iff)
  also have "(of_int (10 ^ 12 * 2 ^ 63) :: rat) < 2 powi 120 * 1000000" by simp
  finally have "of_int n / 1000000 < (2 powi 120 :: rat)" by (simp add: field_simps)
  from rnd64_Fin [OF _ this] assms(1) that show ?thesis by (auto simp: usd_def)
qed

lemma share_bounds:
  assumes "0 \<le> e" "e \<le> n" "n \<le> 10 ^ 12 * 2 ^ 63" "flt (Fin 0) (usd n)"
  shows "fle (Fin 0) (fdiv (usd e) (usd n)) \<and> fle (fdiv (usd e) (usd n)) (Fin 1)"
proof -
  obtain q where q: "usd n = Fin q" "0 \<le> q" using usd_Fin [of n] assms by auto
  obtain p where p: "usd e = Fin p" "0 \<le> p" using usd_Fin [of e] assms by auto
  have "0 < q" using assms(4) q by (auto simp: flt_def)
  have "p \<le> q" using usd_mono [OF assms(2)] by (simp add: p q)
  then have "p / q \<le> 1" "0 \<le> p / q" using \<open>0 < q\<close> p by simp_all
  moreover have "rnd64 1 = Fin 1" using f64_of_int_exact [of 1] by (simp add: f64_of_int_def)
  ultimately show ?thesis
    using rnd64_mono [of "p / q" 1] rnd64_nonneg [of "p / q"] \<open>0 < q\<close> by (simp add: fdiv_def p q)
qed

text \<open>The estimated share of a tenant is always between 0 and 1, and 0 for a tenant that has spent nothing,
  when the costs in the table are amounts of the column's type and none is negative.\<close>

theorem estimated_share_is_fraction:
  assumes "requests_view Q view" "tables_ok (view db)" "Summarize Q now1 now2 db window = (db', Inr s)"
    and "\<forall>r\<in>set (tb_requests (view db')). 0 \<le> rr_cost r \<and> rr_cost r < 10 ^ 12"
    and "length (tb_requests (view db')) < 2 ^ 63" and "t \<in> set (Tenants s)"
  shows "fle (Fin 0) (ts_EstimatedShare t) \<and> fle (ts_EstimatedShare t) (Fin 1)
    \<and> (ts_SpendUSD t = Fin 0 \<longrightarrow> ts_EstimatedShare t = Fin 0)"
proof -
  let ?since = "now1 - window"
  from requests_view.Summarize_views [OF assms(1,3,2)] obtain T2 T3 ts where
    g: "grows T2 T3" "grows T3 (view db')"
    and a: "answers_by tenant_key (tenant_groups ?since T2) ts" "Tenants s = map tenant_spend ts"
    by metis
  from assms(6) a obtain x where x: "x \<in> set (tenant_groups ?since T2)" "t = tenant_spend x"
    by (auto simp: answers_by_def dest: mset_eq_setD)
  then obtain i name where x': "x = (i, name, spend (filter (\<lambda>r. rr_tenant_id r = i) (in_window ?since T2)),
      int (length (filter (\<lambda>r. rr_tenant_id r = i) (in_window ?since T2))),
      spend (filter rr_estimated (filter (\<lambda>r. rr_tenant_id r = i) (in_window ?since T2))))"
    (is "_ = (_, _, spend ?rs, _, _)") by (auto simp: tenant_groups_def Let_def simp del: filter_filter)
  obtain more where more: "tb_requests (view db') = tb_requests T2 @ more"
    using g by (auto simp: grows_def)
  have "length ?rs \<le> length (tb_requests T2)"
    by (rule order_trans [OF length_filter_le]) (simp add: in_window_def)
  then have len: "int (length ?rs) \<le> 2 ^ 63" using assms(5) by (simp add: more)
  have rs: "\<forall>r\<in>set ?rs. 0 \<le> rr_cost r \<and> rr_cost r < 10 ^ 12"
    using assms(4) by (auto simp: in_window_def more)
  from spend_bounds [OF rs] len have sp: "0 \<le> spend ?rs" "spend ?rs \<le> 10 ^ 12 * 2 ^ 63" by auto
  have e: "0 \<le> spend (filter rr_estimated ?rs)" "spend (filter rr_estimated ?rs) \<le> spend ?rs"
    using spend_bounds [of "filter rr_estimated ?rs"] spend_filter_le [of ?rs rr_estimated] rs by auto
  show ?thesis using share_bounds [OF e sp(2)]
    by (auto simp: x(2) x' tenant_spend_def flt_def)
qed

subsection \<open>Tables in memory that meet the contract\<close>

text \<open>Before each query new requests may arrive, or the query fails.\<close>

record mem_stats =
  arrivals :: "request_row list option list"
  mem_tables :: tables

definition add_requests :: "request_row list \<Rightarrow> tables \<Rightarrow> tables" where
  "add_requests rs T = T\<lparr>tb_requests := tb_requests T @ filter (\<lambda>r. rr_tenant_id r \<in> set (map fst (tb_tenants T))) rs\<rparr>"

definition mem_query :: "(tables \<Rightarrow> 'x) \<Rightarrow> mem_stats \<Rightarrow> mem_stats \<times> (db_error + 'x)" where
  "mem_query f db =
     (case arrivals db of
        [] \<Rightarrow> (db, Inr (f (mem_tables db)))
      | None # as \<Rightarrow> (db\<lparr>arrivals := as\<rparr>, Inl DBError)
      | Some rs # as \<Rightarrow>
          (let T = add_requests rs (mem_tables db) in (db\<lparr>arrivals := as, mem_tables := T\<rparr>, Inr (f T))))"

definition mem_summary_queries :: "mem_stats summary_queries" where
  "mem_summary_queries = \<lparr>
     q_total = (\<lambda>db since. mem_query (total_of since) db),
     q_tenants = (\<lambda>db since. mem_query (\<lambda>T. (sort_key (\<lambda>x. - tenant_key x) (tenant_groups since T), True)) db),
     q_features = (\<lambda>db since. mem_query (\<lambda>T. (sort_key (\<lambda>x. - feature_key x) (feature_groups since T), True)) db),
     q_models = (\<lambda>db since. mem_query (\<lambda>T. (sort_key (\<lambda>x. - model_key x) (model_groups since T), True)) db)\<rparr>"

lemma answers_by_sort: "answers_by key gs (sort_key (\<lambda>x. - key x) gs)"
proof -
  have "sorted (map (\<lambda>x. - key x) (sort_key (\<lambda>x. - key x) gs))" by simp
  then show ?thesis by (simp add: answers_by_def sorted_map)
qed

lemma mem_query_view:
  "mem_query f db = (db', r) \<Longrightarrow> grows (mem_tables db) (mem_tables db') \<and> (\<forall>x. r = Inr x \<longrightarrow> x = f (mem_tables db'))"
  by (auto simp: mem_query_def grows_def tables_ok_def add_requests_def Let_def split: list.splits option.splits)

interpretation mem_stats: requests_view mem_summary_queries mem_tables
  by unfold_locales
    (unfold mem_summary_queries_def summary_queries.select_convs, (drule mem_query_view, use answers_by_sort in auto)+)

definition demo_row :: "int \<Rightarrow> bytes \<Rightarrow> bytes \<Rightarrow> bytes \<Rightarrow> int \<Rightarrow> bool \<Rightarrow> instant \<Rightarrow> request_row" where
  "demo_row t f p m c e ns = \<lparr>rr_tenant_id = t, rr_feature = f, rr_provider = p, rr_model = m, rr_cost = c,
     rr_estimated = e, rr_created = ns\<rparr>"

definition demo_stats :: mem_stats where
  "demo_stats = \<lparr>arrivals = [], mem_tables = \<lparr>tb_tenants = [(1, ''acme''), (2, ''globex'')], tb_requests = [
     demo_row 1 ''chatbot'' ''openai'' ''gpt-4o-mini'' 1000000 False 5, demo_row 1 ''chatbot'' ''openai'' ''gpt-4o-mini'' 500000 True 5,
     demo_row 1 ''summarizer'' ''anthropic'' ''claude-haiku-4-5'' 2000000 False 5,
     demo_row 2 ''chatbot'' ''openai'' ''gpt-4o-mini'' 3000000 False 5,
     demo_row 2 ''chatbot'' ''openai'' ''gpt-4o-mini'' 999000000 False (- day)]\<rparr>\<rparr>"

lemma mem_summarize:
  assumes "arrivals db = []"
  obtains s where "Summarize mem_summary_queries now1 now2 db window = (db, Inr s)"
  using assms by (auto simp: Summarize_def mem_summary_queries_def mem_query_def collect_rows_def Let_def total_of_def)

lemma demo_stats_ok: "tables_ok (mem_tables demo_stats)" "arrivals demo_stats = []"
  "length (in_window (10 - day) (mem_tables demo_stats)) = 4" "length (tb_requests (mem_tables demo_stats)) = 5"
  "\<forall>r\<in>set (tb_requests (mem_tables demo_stats)). 0 \<le> rr_cost r \<and> rr_cost r < 10 ^ 12"
  by (simp_all add: demo_stats_def demo_row_def tables_ok_def in_window_def day_def)

theorem summary_accounts_for_every_request_witness:
  "\<exists>s. Summarize mem_summary_queries 10 10 demo_stats day = (demo_stats, Inr s) \<and> accounts s
    \<and> sum_list (map ts_Requests (Tenants s)) = 4 \<and> sum_list (map ms_Requests (Models s)) = 4"
proof -
  obtain s where s: "Summarize mem_summary_queries 10 10 demo_stats day = (demo_stats, Inr s)"
    using mem_summarize [OF demo_stats_ok(2)] by blast
  from summary_accounts_for_every_request [OF mem_stats.requests_view_axioms demo_stats_ok(1) s] s demo_stats_ok(3)
  show ?thesis by auto
qed

theorem estimated_share_is_fraction_witness:
  "\<exists>s. Summarize mem_summary_queries 10 10 demo_stats day = (demo_stats, Inr s) \<and> length (Tenants s) = 2
    \<and> list_all (\<lambda>t. fle (Fin 0) (ts_EstimatedShare t) \<and> fle (ts_EstimatedShare t) (Fin 1)) (Tenants s)"
proof -
  obtain s where s: "Summarize mem_summary_queries 10 10 demo_stats day = (demo_stats, Inr s)"
    using mem_summarize [OF demo_stats_ok(2)] by blast
  have "length (Tenants s) = length (tenant_groups (10 - day) (mem_tables demo_stats))"
    using s by (auto simp: Summarize_def mem_summary_queries_def mem_query_def collect_rows_def Let_def total_of_def demo_stats_ok(2))
  moreover have "length (tenant_groups (10 - day) (mem_tables demo_stats)) = 2"
    by (simp add: tenant_groups_def demo_stats_def demo_row_def in_window_def day_def)
  moreover have "length (tb_requests (mem_tables demo_stats)) < 2 ^ 63" by (simp add: demo_stats_ok(4))
  ultimately show ?thesis
    using estimated_share_is_fraction [OF mem_stats.requests_view_axioms demo_stats_ok(1) s demo_stats_ok(5)] s
    by (auto simp: list_all_iff)
qed

end
