(* ===== verification/Dashboard.thy ===== *)
theory Dashboard
  imports SummaryQueries GoFmt Http Mux
begin

section \<open>Dashboard: the summary endpoint and the live stream\<close>

text \<open>
  \<open>internal/dashboard/dashboard.go\<close>: the JSON text of a summary, the two endpoints and the index page.
  The zone of the process is its offset from UTC in seconds; the loop of the live stream is driven by the list
  of what its \<open>select\<close> receives.
\<close>

subsection \<open>The JSON text\<close>

text \<open>An empty list is a nil slice, encoded as \<open>null\<close>.\<close>

definition json_object :: "(bytes \<times> bytes option) list \<Rightarrow> bytes option" where
  "json_object fs =
     (if list_all (\<lambda>(_, v). v \<noteq> None) fs
      then Some (CHR ''{'' # join_comma (map (\<lambda>(k, v). quote_string k @ CHR '':'' # the v) fs) @ [CHR ''}''])
      else None)"

definition json_slice :: "('a \<Rightarrow> bytes option) \<Rightarrow> 'a list \<Rightarrow> bytes option" where
  "json_slice enc xs =
     (if xs = [] then Some ''null''
      else if list_all (\<lambda>x. enc x \<noteq> None) xs
      then Some (CHR ''['' # join_comma (map (\<lambda>x. the (enc x)) xs) @ [CHR '']'']) else None)"

definition encode_tenant :: "TenantSpend \<Rightarrow> bytes option" where
  "encode_tenant t = json_object [
     (''tenant_id'', Some (itoa (ts_TenantID t))), (''name'', Some (quote_string (ts_Name t))),
     (''spend_usd'', encode_float (ts_SpendUSD t)), (''requests'', Some (itoa (ts_Requests t))),
     (''estimated_share'', encode_float (ts_EstimatedShare t))]"

definition encode_feature :: "FeatureSpend \<Rightarrow> bytes option" where
  "encode_feature f = json_object [
     (''tenant_id'', Some (itoa (fs_TenantID f))), (''tenant'', Some (quote_string (fs_Tenant f))),
     (''feature'', Some (quote_string (fs_Feature f))),
     (''spend_usd'', encode_float (fs_SpendUSD f)), (''requests'', Some (itoa (fs_Requests f)))]"

definition encode_model :: "ModelSpend \<Rightarrow> bytes option" where
  "encode_model m = json_object [
     (''provider'', Some (quote_string (ms_Provider m))), (''model'', Some (quote_string (ms_Model m))),
     (''spend_usd'', encode_float (ms_SpendUSD m)), (''requests'', Some (itoa (ms_Requests m)))]"

definition encode_summary :: "int \<Rightarrow> Summary \<Rightarrow> bytes option" where
  "encode_summary zone s = json_object [
     (''window'', Some (quote_string (Window s))),
     (''total_spend_usd'', encode_float (TotalSpendUSD s)), (''total_requests'', Some (itoa (TotalRequests s))),
     (''tenants'', json_slice encode_tenant (Tenants s)), (''features'', json_slice encode_feature (Features s)),
     (''models'', json_slice encode_model (Models s)),
     (''generated_at'', map_option (\<lambda>t. CHR 0x22 # t @ [CHR 0x22]) (format_rfc3339 zone (GeneratedAt s)))]"

subsection \<open>The handlers\<close>

definition parseWindow :: "'t Request \<Rightarrow> duration_error + int" where
  "parseWindow r =
     (let v = Query_Get (RawQuery r) ''window''
      in if v = [] then Inr day else ParseDuration v)"

definition window_text :: "'t Request \<Rightarrow> duration_error \<Rightarrow> bytes" where
  "window_text r e = duration_error_text (Query_Get (RawQuery r) ''window'') e"

definition summaryHandler :: "'db summary_queries \<Rightarrow> int \<Rightarrow> instant \<Rightarrow> instant \<Rightarrow> ResponseWriter \<Rightarrow> 't Request \<Rightarrow> 'db \<Rightarrow>
    ResponseWriter \<times> 'db" where
  "summaryHandler Q zone now1 now2 w r db =
     (case parseWindow r of
        Inl e \<Rightarrow> (Error w (''invalid window: '' @ window_text r e) 400, db)
      | Inr window \<Rightarrow>
          (case Summarize Q now1 now2 db window of
             (db', Inl _) \<Rightarrow> (Error w ''summary query failed'' 500, db')
           | (db', Inr s) \<Rightarrow>
               (let w1 = w\<lparr>w_header := Header_Set (w_header w) ''Content-Type'' ''application/json''\<rparr>
                in case encode_summary zone s of
                    None \<Rightarrow> (w1, db')
                  | Some t \<Rightarrow> (fst (Write w1 (t @ [CHR 0x0A])), db'))))"

definition live_event :: "bytes \<Rightarrow> bytes" where
  "live_event body = ''event: summary'' @ [CHR 0x0A] @ ''data: '' @ body @ [CHR 0x0A, CHR 0x0A]"

definition live_send :: "'db summary_queries \<Rightarrow> int \<Rightarrow> int \<Rightarrow> instant \<Rightarrow> instant \<Rightarrow> ResponseWriter \<Rightarrow> 'db \<Rightarrow>
    ResponseWriter \<times> 'db \<times> bool" where
  "live_send Q zone window now1 now2 w db =
     (case Summarize Q now1 now2 db window of
        (db', Inl _) \<Rightarrow> (w, db', True)
      | (db', Inr s) \<Rightarrow>
          (case encode_summary zone s of
             None \<Rightarrow> (w, db', True)
           | Some body \<Rightarrow> (case Write w (live_event body) of (w', ok) \<Rightarrow> (w', db', ok))))"

text \<open>What the loop's \<open>select\<close> receives: a tick, with the clock readings of its summary, or the end of the request.\<close>

datatype live_input = LiveTick instant instant | LiveDone

fun live_loop :: "'db summary_queries \<Rightarrow> int \<Rightarrow> int \<Rightarrow> live_input list \<Rightarrow> ResponseWriter \<Rightarrow> 'db \<Rightarrow>
    ResponseWriter \<times> 'db \<times> bool" where
  "live_loop Q zone window [] w db = (w, db, True)"
| "live_loop Q zone window (LiveDone # evs) w db = (w, db, False)"
| "live_loop Q zone window (LiveTick now1 now2 # evs) w db =
     (case live_send Q zone window now1 now2 w db of
        (w', db', True) \<Rightarrow> live_loop Q zone window evs w' db'
      | (w', db', False) \<Rightarrow> (w', db', False))"

text \<open>The first summary, then the loop; the last component tells whether the handler is still running.\<close>

definition liveHandler :: "'db summary_queries \<Rightarrow> int \<Rightarrow> bool \<Rightarrow> instant \<Rightarrow> instant \<Rightarrow> live_input list \<Rightarrow>
    ResponseWriter \<Rightarrow> 't Request \<Rightarrow> 'db \<Rightarrow> ResponseWriter \<times> 'db \<times> bool" where
  "liveHandler Q zone flusher now1 now2 evs w r db =
     (case parseWindow r of
        Inl e \<Rightarrow> (Error w (''invalid window: '' @ window_text r e) 400, db, False)
      | Inr window \<Rightarrow>
          if \<not> flusher then (Error w ''streaming unsupported'' 500, db, False)
          else
            (let h = Header_Set (Header_Set (Header_Set (w_header w) ''Content-Type'' ''text/event-stream'')
                       ''Cache-Control'' ''no-cache'') ''Connection'' ''keep-alive'';
                 w1 = WriteHeader (w\<lparr>w_header := h\<rparr>) 200
             in case live_send Q zone window now1 now2 w1 db of
                 (w2, db', True) \<Rightarrow> live_loop Q zone window evs w2 db'
               | (w2, db', False) \<Rightarrow> (w2, db', False)))"

definition DefaultTickInterval :: int where
  "DefaultTickInterval = 2 * 1000000000"

definition tick_interval :: "int \<Rightarrow> int" where
  "tick_interval tick = (if tick \<le> 0 then DefaultTickInterval else tick)"

text \<open>The routes, behind the path cleaning of the mux; \<open>GET /\<close> matches every other path, and then only
  \<open>/\<close> is served.\<close>

datatype page = SummaryPage | LivePage | IndexPage | NotFoundPage | NoMethodPage | RedirectPage bytes

definition dashboard_route :: "bytes \<Rightarrow> bytes \<Rightarrow> page" where
  "dashboard_route meth path =
     (if clean_path path \<noteq> path then RedirectPage (clean_path path)
      else if meth \<noteq> ''GET'' \<and> meth \<noteq> ''HEAD'' then NoMethodPage
      else if path = ''/api/summary'' then SummaryPage
      else if path = ''/api/live'' then LivePage
      else if path \<noteq> ''/'' then NotFoundPage
      else IndexPage)"

definition indexHandler :: "bytes \<Rightarrow> ResponseWriter \<Rightarrow> ResponseWriter" where
  "indexHandler indexHTML w =
     fst (Write (w\<lparr>w_header := Header_Set (w_header w) ''Content-Type'' ''text/html; charset=utf-8''\<rparr>) indexHTML)"

text \<open>One request to the dashboard. The redirect and the 405 are answered by the mux (\<open>None\<close>).\<close>

definition Handler :: "'db summary_queries \<Rightarrow> int \<Rightarrow> bytes \<Rightarrow> bool \<Rightarrow> instant \<Rightarrow> instant \<Rightarrow> live_input list \<Rightarrow>
    ResponseWriter \<Rightarrow> 't Request \<Rightarrow> 'db \<Rightarrow> (ResponseWriter \<times> 'db) option" where
  "Handler Q zone indexHTML flusher now1 now2 evs w r db =
     (case dashboard_route (Method r) (Path r) of
        SummaryPage \<Rightarrow> Some (summaryHandler Q zone now1 now2 w r db)
      | LivePage \<Rightarrow> (case liveHandler Q zone flusher now1 now2 evs w r db of (w', db', _) \<Rightarrow> Some (w', db'))
      | IndexPage \<Rightarrow> Some (indexHandler indexHTML w, db)
      | NotFoundPage \<Rightarrow> Some (NotFound w, db)
      | _ \<Rightarrow> None)"

subsection \<open>No encoded text holds a control character\<close>

definition printable :: "char \<Rightarrow> bool" where
  "printable c \<longleftrightarrow> 32 \<le> (of_char c :: nat)"

definition one_line :: "bytes \<Rightarrow> bool" where
  "one_line s \<longleftrightarrow> list_all printable s"

lemma one_line_simps [simp]:
  "one_line []" "one_line (c # s) \<longleftrightarrow> printable c \<and> one_line s" "one_line (s @ t) \<longleftrightarrow> one_line s \<and> one_line t"
  "one_line (replicate k c) \<longleftrightarrow> k = 0 \<or> printable c"
  by (auto simp: one_line_def list_all_iff)

lemma one_line_part: "one_line s \<Longrightarrow> set t \<subseteq> set s \<Longrightarrow> one_line t"
  by (auto simp: one_line_def list_all_iff)

lemma printable_ascii [simp]: "printable (Char b0 b1 b2 b3 b4 True b6 b7)"
  "printable (Char b0 b1 b2 b3 b4 b5 True b7)" "printable (Char b0 b1 b2 b3 b4 b5 b6 True)"
  by (simp_all add: printable_def of_char_def)

lemma one_line_digits [simp]: "one_line (digits n)"
  using set_digits [of _ n] by (force simp: one_line_def list_all_iff printable_def is_digit_def)

lemma one_line_itoa [simp]: "one_line (itoa n)"
  by (simp add: itoa_def)

lemma one_line_pad_int [simp]: "one_line (pad_int w n)"
  by (simp add: pad_int_def Let_def)

lemma one_line_digit: "n < 10 \<Longrightarrow> printable (digit n)"
  using is_digit_digit [of n] by (simp add: printable_def is_digit_def)

lemma visible_printable: "visible c \<Longrightarrow> printable c"
  by (simp add: visible_def printable_def)

lemma one_line_u_escape: "n < 65536 \<Longrightarrow> one_line (u_escape n)"
  by (simp add: u_escape_def visible_printable hex_digit_visible less_mult_imp_div_less)

lemma in_range_printable:
  "in_range 0x80 b c \<Longrightarrow> printable c" "in_range 0x90 b c \<Longrightarrow> printable c" "in_range 0xA0 b c \<Longrightarrow> printable c"
  by (simp_all add: in_range_def printable_def)

lemma one_line_utf8:
  assumes "128 \<le> (of_char c :: nat)"
  shows "one_line (take (utf8_len (c # s)) (c # s))"
proof -
  have c: "printable c" using assms by (simp add: printable_def)
  have lead: "\<not> in_range 0 0x7F c" using assms by (simp add: in_range_def)
  have A: "one_line (take (case s of b # _ \<Rightarrow> if in_range 0x80 0xBF b then 2 else 0 | _ \<Rightarrow> 0) (c # s))"
    by (auto simp: c split: list.split dest: in_range_printable)
  have B: "one_line (take (case s of x # y # _ \<Rightarrow>
               if in_range (if p then 0xA0 else 0x80) u x \<and> in_range 0x80 0xBF y then 3 else 0
             | _ \<Rightarrow> 0) (c # s))" for p u
    by (cases p) (auto simp: c split: list.split dest: in_range_printable)
  have C: "one_line (take (case s of x # y # z # _ \<Rightarrow>
               if in_range (if p then 0x90 else 0x80) u x \<and> in_range 0x80 0xBF y \<and> in_range 0x80 0xBF z then 4 else 0
             | _ \<Rightarrow> 0) (c # s))" for p u
    by (cases p) (auto simp: c split: list.split dest: in_range_printable)
  show ?thesis
    unfolding utf8_len_def list.case if_not_P [OF lead]
    using A B C by (simp split: if_split)
qed
lemma one_line_escape: "one_line (escape_string s)"
proof (induction s rule: escape_string.induct)
  case (1 s)
  show ?case
  proof (cases s)
    case Nil then show ?thesis by (simp add: escape_string.simps)
  next
    case (Cons c s1)
    show ?thesis
    proof (cases "(of_char c :: nat) < 128")
      case True
      have "one_line (escape_ascii c)"
        using one_line_u_escape [of "of_char c"] True
        by (auto simp: escape_ascii_def) (simp add: printable_def)
      with 1(1) [OF Cons True] show ?thesis by (simp add: escape_string.simps [of "c # s1"] Cons True)
    next
      case False
      have esc: "one_line (case line_sep (c # s1) of Some r \<Rightarrow> u_escape r | None \<Rightarrow> take (utf8_len (c # s1)) (c # s1))"
        using one_line_utf8 [of c s1] False one_line_u_escape [of 8232] one_line_u_escape [of 8233]
        by (auto simp: line_sep_def split: option.splits if_splits)
      with 1(2,3) [OF Cons False refl] False one_line_u_escape [of 65533] Cons
      show ?thesis by (simp add: Cons escape_string.simps [of "c # s1"] Let_def)
    qed
  qed
qed

lemma one_line_quote [simp]: "one_line (quote_string s)"
  by (simp add: quote_string_def one_line_escape)

lemma one_line_format: "one_line (format_f d k)" "one_line (format_e d k)"
proof -
  have ds: "one_line (digits n)" for n by simp
  have "one_line (take m (digits n))" "one_line (drop m (digits n))" "one_line (tl (digits n))" for m n
    using one_line_part [OF ds [of n]] set_take_subset set_drop_subset list.set_sel(2) by (metis digits_not_Nil subsetI)+
  moreover have "printable (hd (digits n))" for n
    using ds [of n] by (cases "digits n") simp_all
  ultimately show "one_line (format_f d k)" "one_line (format_e d k)"
    by (simp_all add: format_f_def format_e_def Let_def)
qed

lemma one_line_float: "encode_float f = Some t \<Longrightarrow> one_line t"
  by (auto simp: encode_float_def Let_def one_line_format split: f64.splits if_splits prod.splits)

lemma one_line_join: "\<forall>t\<in>set ts. one_line t \<Longrightarrow> one_line (join_comma ts)"
  by (induction ts rule: join_comma.induct) simp_all

lemma one_line_object:
  "json_object fs = Some t \<Longrightarrow> (\<And>k v. (k, Some v) \<in> set fs \<Longrightarrow> one_line v) \<Longrightarrow> one_line t"
  by (fastforce simp: json_object_def list_all_iff split: if_splits intro!: one_line_join)

lemma one_line_slice:
  "json_slice enc xs = Some t \<Longrightarrow> (\<And>x v. x \<in> set xs \<Longrightarrow> enc x = Some v \<Longrightarrow> one_line v) \<Longrightarrow> one_line t"
  by (fastforce simp: json_slice_def list_all_iff split: if_splits intro!: one_line_join)

lemma one_line_frac: "fmtFrac v p = (f, v') \<Longrightarrow> one_line f"
proof -
  have "one_line acc \<Longrightarrow> one_line (fst (frac_digits n u b acc))" for n u b acc
    by (induction n u b acc rule: frac_digits.induct) (simp_all add: Let_def one_line_digit nat_less_iff)
  from this [of "[]" p v False] show "fmtFrac v p = (f, v') \<Longrightarrow> one_line f"
    by (auto simp: fmtFrac_def split: prod.splits if_splits)
qed

lemma one_line_time: "format_rfc3339 zone t = Some s \<Longrightarrow> one_line s"
  by (auto simp: format_rfc3339_def zone_text_def Let_def dest: one_line_frac split: prod.splits if_splits)

lemma one_line_summary:
  assumes "encode_summary zone s = Some t"
  shows "one_line t"
proof -
  have 1: "encode_tenant x = Some v \<Longrightarrow> one_line v" for x v
    by (auto simp: encode_tenant_def dest!: one_line_object dest: one_line_float [OF sym])
  have 2: "encode_feature x = Some v \<Longrightarrow> one_line v" for x v
    by (auto simp: encode_feature_def dest!: one_line_object dest: one_line_float [OF sym])
  have 3: "encode_model x = Some v \<Longrightarrow> one_line v" for x v
    by (auto simp: encode_model_def dest!: one_line_object dest: one_line_float [OF sym])
  show ?thesis using assms unfolding encode_summary_def
    by (rule one_line_object)
      (auto simp: eq_commute [of "Some _" "map_option _ _"] dest: one_line_float [OF sym] one_line_time one_line_slice [OF sym 1] one_line_slice [OF sym 2] one_line_slice [OF sym 3])
qed

subsection \<open>The live stream\<close>

definition sends_events :: "ResponseWriter \<Rightarrow> ResponseWriter \<Rightarrow> bytes list \<Rightarrow> bool" where
  "sends_events w w' bodies \<longleftrightarrow> w_status w' = w_status w \<and> w_header w' = w_header w
     \<and> w_body w' = w_body w @ map live_event bodies \<and> list_all one_line bodies
     \<and> (w_gone w = None \<longrightarrow> w_gone w' = None)"

lemma live_send_events:
  assumes "live_send Q zone window now1 now2 w db = (w', db', ok)" "w_status w = Some 200"
  shows "\<exists>bodies. length bodies \<le> 1 \<and> sends_events w w' bodies
    \<and> (\<not> ok \<longrightarrow> bodies = [] \<and> w_gone w \<noteq> None)
    \<and> (w_gone w = None \<and> (\<exists>s b. Summarize Q now1 now2 db window = (db', Inr s) \<and> encode_summary zone s = Some b) \<longrightarrow> length bodies = 1)"
proof -
  obtain db1 r where s: "Summarize Q now1 now2 db window = (db1, r)" by fastforce
  show ?thesis
  proof (cases "\<exists>x b. r = Inr x \<and> encode_summary zone x = Some b")
    case False
    with assms s show ?thesis
      by (intro exI [of _ "[]"]) (auto simp: live_send_def sends_events_def split: sum.splits option.splits)
  next
    case True
    then obtain x b where x: "r = Inr x" "encode_summary zone x = Some b" by blast
    with one_line_summary assms s show ?thesis
      by (intro exI [of _ "if ok then [b] else []"])
        (auto simp: live_send_def Write_def WriteHeader_def Let_def sends_events_def split: option.splits nat.splits)
  qed
qed

lemma sends_events_trans:
  "sends_events w w1 xs \<Longrightarrow> sends_events w1 w2 ys \<Longrightarrow> sends_events w w2 (xs @ ys)"
  by (auto simp: sends_events_def)

lemma live_loop_events:
  assumes "live_loop Q zone window evs w db = (w', db', running)" "w_status w = Some 200"
  shows "\<exists>bodies. sends_events w w' bodies \<and> length bodies \<le> length evs
    \<and> (w_gone w = None \<longrightarrow> running = (LiveDone \<notin> set evs))"
  using assms
proof (induction evs arbitrary: w db)
  case Nil then show ?case by (intro exI [of _ "[]"]) (simp add: sends_events_def)
next
  case (Cons e evs)
  show ?case
  proof (cases e)
    case LiveDone
    with Cons.prems show ?thesis by (intro exI [of _ "[]"]) (auto simp: sends_events_def)
  next
    case (LiveTick now1 now2)
    obtain w1 db1 ok where s: "live_send Q zone window now1 now2 w db = (w1, db1, ok)" by (metis prod_cases3)
    from live_send_events [OF s Cons.prems(2)] obtain b where
      b: "length b \<le> 1" "sends_events w w1 b" "\<not> ok \<Longrightarrow> b = [] \<and> w_gone w \<noteq> None" by blast
    show ?thesis
    proof (cases ok)
      case False
      with Cons.prems s LiveTick b show ?thesis by (intro exI [of _ "[]"]) auto
    next
      case True
      then have l: "live_loop Q zone window evs w1 db1 = (w', db', running)" using Cons.prems s LiveTick by simp
      have "w_status w1 = Some 200" "w_gone w = None \<Longrightarrow> w_gone w1 = None"
        using b(2) Cons.prems(2) by (simp_all add: sends_events_def)
      moreover from Cons.IH [OF l this(1)] obtain bs where bs: "sends_events w1 w' bs" "length bs \<le> length evs"
        "w_gone w1 = None \<longrightarrow> running = (LiveDone \<notin> set evs)" by metis
      ultimately have "w_gone w = None \<longrightarrow> running = (LiveDone \<notin> set evs)" by simp
      with sends_events_trans [OF b(2) bs(1)] b(1) bs(2) LiveTick
      show ?thesis by (intro exI [of _ "b @ bs"]) auto
    qed
  qed
qed


subsection \<open>An empty window\<close>

text \<open>When no request lies in the window, as on a new installation, the summary's lists are encoded as
  \<open>null\<close>, not as empty arrays.\<close>

theorem empty_summary_has_null_lists:
  assumes "requests_view Q view" "tables_ok (view db)" "Summarize Q now1 now2 db window = (db', Inr s)"
    and "in_window (now1 - window) (view db') = []" "format_rfc3339 zone now2 = Some ts"
  shows "encode_summary zone s = Some (''{'' @ quote_string ''window'' @ '':'' @ quote_string (Duration_String window)
    @ '','' @ quote_string ''total_spend_usd'' @ '':0,'' @ quote_string ''total_requests'' @ '':0,''
    @ quote_string ''tenants'' @ '':null,'' @ quote_string ''features'' @ '':null,'' @ quote_string ''models'' @ '':null,''
    @ quote_string ''generated_at'' @ '':'' @ [CHR 0x22] @ ts @ [CHR 0x22] @ ''}'')"
proof -
  let ?since = "now1 - window"
  from requests_view.Summarize_views [OF assms(1,3,2)] obtain T1 T2 T3 ts fs ms where
    g: "grows T1 T2" "grows T2 T3" "grows T3 (view db')"
    and t: "(TotalSpendUSD s, TotalRequests s) = map_prod usd id (total_of ?since T1)"
    and a: "answers_by tenant_key (tenant_groups ?since T2) ts" "Tenants s = map tenant_spend ts"
      "answers_by feature_key (feature_groups ?since T3) fs" "Features s = map feature_spend fs"
      "answers_by model_key (model_groups ?since (view db')) ms" "Models s = map model_spend ms"
    and w: "Window s = Duration_String window" "GeneratedAt s = now2"
    by metis
  have T3: "in_window ?since T3 = []" using grows_window [OF g(3), of ?since] assms(4) by auto
  then have T2: "in_window ?since T2 = []" using grows_window [OF g(2), of ?since] by auto
  then have T1: "in_window ?since T1 = []" using grows_window [OF g(1), of ?since] by auto
  have "tenant_groups ?since T2 = []" "feature_groups ?since T3 = []" "model_groups ?since (view db') = []"
    by (simp_all add: tenant_groups_def feature_groups_def model_groups_def T2 T3 assms(4) split_beta)
  then have "Tenants s = []" "Features s = []" "Models s = []" using a by (simp_all add: answers_by_def)
  moreover have "TotalSpendUSD s = Fin 0" "TotalRequests s = 0"
    using t by (simp_all add: total_of_def T1 spend_def usd_def)
  moreover have "itoa 0 = ''0''" by code_simp
  ultimately show ?thesis
    by (simp add: encode_summary_def json_object_def json_slice_def encode_float_def w assms(5))
qed

definition demo_live_request :: "unit Request" where
  "demo_live_request = \<lparr>Method = ''GET'', Path = ''/api/live'', RawQuery = ''window=1h'', rq_Header = Map.empty,
     rq_Body = [], rq_tenant = None\<rparr>"


theorem empty_summary_has_null_lists_witness:
  "\<exists>s t. Summarize mem_summary_queries (2 * day) (2 * day) demo_stats day = (demo_stats, Inr s)
    \<and> encode_summary 0 s = Some t \<and> (\<exists>a b. t = a @ quote_string ''tenants'' @ '':null'' @ b)"
proof -
  obtain s where s: "Summarize mem_summary_queries (2 * day) (2 * day) demo_stats day = (demo_stats, Inr s)"
    using mem_summarize [OF demo_stats_ok(2)] by blast
  have "in_window (2 * day - day) (mem_tables demo_stats) = []"
    by (simp add: demo_stats_def demo_row_def in_window_def day_def)
  moreover have "format_rfc3339 0 (2 * day) = Some ''1970-01-03T00:00:00Z''" by code_simp
  ultimately have "encode_summary 0 s = Some ((''{'' @ quote_string ''window'' @ '':'' @ quote_string (Duration_String day)
      @ '','' @ quote_string ''total_spend_usd'' @ '':0,'' @ quote_string ''total_requests'' @ '':0,'')
      @ quote_string ''tenants'' @ '':null'' @ ('','' @ quote_string ''features'' @ '':null,'' @ quote_string ''models'' @ '':null,''
      @ quote_string ''generated_at'' @ '':'' @ [CHR 0x22] @ ''1970-01-03T00:00:00Z'' @ [CHR 0x22] @ ''}''))"
    using empty_summary_has_null_lists [OF mem_stats.requests_view_axioms demo_stats_ok(1) s, of 0] by simp
  with s show ?thesis by blast
qed

end
