(* ===== verification/Serve.thy ===== *)
theory Serve
  imports Server Config Store Dashboard
begin

section \<open>Serve: the commands, the wiring and the shutdown\<close>

text \<open>
  \<open>cmd/spendgate/main.go\<close>. First the subcommands and how \<open>serve\<close> builds the gateway from the
  configuration; then the life of the process: requests, the signal, the two HTTP shutdowns under one
  deadline of ten seconds, and the metering writer, whose goroutine is the \<open>mstep\<close> of \<open>Meter\<close>.
  The driver's pool, the Redis client, the file system and the YAML library are not part of the repository:
  what they answer is the record \<open>externals\<close>.
\<close>

subsection \<open>The subcommands\<close>

datatype command = Usage | ServeCmd | MigrateCmd | CreateTenantCmd "bytes list"

definition usage_text :: bytes where
  "usage_text = ''usage: spendgate <serve|migrate|create-tenant> [args]'' @ [CHR 0x0A]"

text \<open>\<open>os.Args\<close>, the program's name first.\<close>

definition parse_command :: "bytes list \<Rightarrow> command" where
  "parse_command argv =
     (case argv of
        _ # cmd # args \<Rightarrow>
          if cmd = ''serve'' then ServeCmd
          else if cmd = ''migrate'' then MigrateCmd
          else if cmd = ''create-tenant'' then CreateTenantCmd args
          else Usage
      | _ \<Rightarrow> Usage)"

datatype start_error =
    OpenFailed bytes | MigrateFailed migrate_error | PricesFailed bytes | SeedFailed | RedisURLInvalid bytes
  | TenantUsage | TenantFailed

record ('db, 'r, 'o) externals =
  new_pool :: "bytes \<Rightarrow> bytes + 'db"
  redis_ParseURL :: "bytes \<Rightarrow> bytes + 'o"
  redis_NewClient :: "'o \<Rightarrow> 'r redis"
  os_ReadFile :: "bytes \<Rightarrow> bytes + bytes"
  yaml_prices :: "bytes \<Rightarrow> bytes + Price list"
  pg_migration :: "'db migration_db"
  pg_upsert :: "'db \<Rightarrow> Price \<Rightarrow> 'db option"
  pg_tenants :: "'db tenant_db"
  embedded :: migration_fs

definition migrate_cmd :: "('db, 'r, 'o) externals \<Rightarrow> Config \<Rightarrow> (start_error + 'db) \<times> (start_error + unit)" where
  "migrate_cmd X cfg =
     (case Open (new_pool X) (DatabaseURL cfg) of
        Inl e \<Rightarrow> (Inl (OpenFailed e), Inl (OpenFailed e))
      | Inr db \<Rightarrow>
          (case Migrate (pg_migration X) (embedded X) db of
             (db', Inl e) \<Rightarrow> (Inr db', Inl (MigrateFailed e))
           | (db', Inr _) \<Rightarrow> (Inr db', Inr ())))"

text \<open>\<open>createTenant\<close>: the result is the key it prints.\<close>

definition createTenant :: "('db, 'r, 'o) externals \<Rightarrow> Config \<Rightarrow> bytes option \<Rightarrow> bytes list \<Rightarrow>
    (start_error + 'db) \<times> (start_error + bytes)" where
  "createTenant X cfg rand args =
     (if args = [] \<or> hd args = [] then (Inl TenantUsage, Inl TenantUsage)
      else case Open (new_pool X) (DatabaseURL cfg) of
        Inl e \<Rightarrow> (Inl (OpenFailed e), Inl (OpenFailed e))
      | Inr db \<Rightarrow>
          (case Create (pg_tenants X) db rand (hd args) of
             (db', Inl _) \<Rightarrow> (Inr db', Inl TenantFailed)
           | (db', Inr key) \<Rightarrow> (Inr db', Inr key)))"

subsection \<open>Wiring\<close>

record ('db, 'r) deployment =
  dp_db :: 'db
  dp_proxy :: "'r Proxy"
  dp_auth :: Authenticator
  dp_addr :: bytes
  dp_dashboard :: "bytes option"
  dp_tick :: int

definition openai_provider :: "Config \<Rightarrow> Provider" where
  "openai_provider cfg = \<lparr>pv_Name = ''openai'', Prefix = ''/openai'', BaseURL = OpenAIBaseURL cfg, APIKey = OpenAIKey cfg\<rparr>"

definition anthropic_provider :: "Config \<Rightarrow> Provider" where
  "anthropic_provider cfg = \<lparr>pv_Name = ''anthropic'', Prefix = ''/anthropic'', BaseURL = AnthropicBaseURL cfg,
     APIKey = AnthropicKey cfg\<rparr>"

definition serve_start :: "('db, 'r, 'o) externals \<Rightarrow> arch \<Rightarrow> Config \<Rightarrow> start_error + ('db, 'r) deployment" where
  "serve_start X A cfg =
     (case Open (new_pool X) (DatabaseURL cfg) of
        Inl e \<Rightarrow> Inl (OpenFailed e)
      | Inr db0 \<Rightarrow>
     (case Migrate (pg_migration X) (embedded X) db0 of
        (_, Inl e) \<Rightarrow> Inl (MigrateFailed e)
      | (db1, Inr _) \<Rightarrow>
     (case prices_Load (os_ReadFile X) (yaml_prices X) ''prices.yaml'' of
        Inl e \<Rightarrow> Inl (PricesFailed e)
      | Inr priceList \<Rightarrow>
     (case Seed (pg_upsert X) db1 priceList of
        (_, Inl _) \<Rightarrow> Inl SeedFailed
      | (db2, Inr _) \<Rightarrow>
     (case budget_New (redis_ParseURL X) (redis_NewClient X) (RedisURL cfg) of
        Inl e \<Rightarrow> Inl (RedisURLInvalid e)
      | Inr bud \<Rightarrow>
          Inr \<lparr>dp_db = db2,
            dp_proxy = \<lparr>px_prices = BuildTable priceList, px_budget = Some bud,
              providers = [openai_provider cfg, anthropic_provider cfg], px_arch = A\<rparr>,
            dp_auth = Auth_New (30 * 1000000000),
            dp_addr = CHR '':'' # Port cfg,
            dp_dashboard = (if DashboardAddr cfg = [] then None else Some (DashboardAddr cfg)),
            dp_tick = tick_interval 0\<rparr>)))))"

text \<open>C16: a gateway that starts charges what the database says. Its price table has an entry exactly for the
  models of \<open>prices.yaml\<close>, and the row the database holds for each of them was written from the same entry, the
  last one listed; requests go to the two configured providers by the prefix of their path.\<close>

theorem serve_charges_seeded_prices:
  assumes start: "serve_start X A cfg = Inr d"
    and upsert: "\<And>db p db'. pg_upsert X db p = Some db' \<Longrightarrow> rows db' = (rows db)(price_key p \<mapsto> row p)"
  shows "\<exists>prices. prices_Load (os_ReadFile X) (yaml_prices X) ''prices.yaml'' = Inr prices
    \<and> (\<forall>k. px_prices (dp_proxy d) k = find (\<lambda>p. price_key p = k) (rev prices))
    \<and> (\<forall>k p. px_prices (dp_proxy d) k = Some p \<longrightarrow> rows (dp_db d) k = Some (row p))
    \<and> route (providers (dp_proxy d)) (''/openai/'' @ path) = Some (openai_provider cfg)
    \<and> route (providers (dp_proxy d)) (''/anthropic/'' @ path) = Some (anthropic_provider cfg)"
proof -
  from start obtain db1 prices db2 bud where
    s: "prices_Load (os_ReadFile X) (yaml_prices X) ''prices.yaml'' = Inr prices" "Seed (pg_upsert X) db1 prices = (db2, Inr ())"
      "dp_db d = db2" "px_prices (dp_proxy d) = BuildTable prices" "providers (dp_proxy d) = [openai_provider cfg, anthropic_provider cfg]"
    by (auto simp: serve_start_def split: sum.splits prod.splits)
  have seeded: "seed_loop (pg_upsert X) db prices = Some db' \<Longrightarrow> rows db' = foldl (\<lambda>t p. t(price_key p \<mapsto> row p)) (rows db) prices" for db db'
    by (induction prices arbitrary: db) (auto dest: upsert split: option.splits)
  from s(2) have "seed_loop (pg_upsert X) db1 prices = Some db2" by (auto simp: Seed_def split: option.splits)
  from seeded [OF this] have r: "rows db2 = foldl (\<lambda>t p. t(price_key p \<mapsto> row p)) (rows db1) prices" .
  have t: "BuildTable prices k = find (\<lambda>p. price_key p = k) (rev prices)" for k
    by (simp add: BuildTable_def foldl_upd [where v = "\<lambda>p. p"] split: option.splits)
  have "\<forall>k p. BuildTable prices k = Some p \<longrightarrow> rows db2 k = Some (row p)" by (simp add: r foldl_upd t)
  moreover have "route [openai_provider cfg, anthropic_provider cfg] (''/openai/'' @ path) = Some (openai_provider cfg)"
    "route [openai_provider cfg, anthropic_provider cfg] (''/anthropic/'' @ path) = Some (anthropic_provider cfg)"
    by (simp_all add: openai_provider_def anthropic_provider_def has_prefix_def)
  ultimately show ?thesis using s(1) t by (simp add: s(3-5))
qed

subsection \<open>The life of the process\<close>

text \<open>
  \<open>Serving\<close> is the \<open>select\<close>; the next two stages are the calls of \<open>Shutdown\<close>, \<open>Flushing\<close> is
  \<open>writer.Wait\<close>. \<open>inflight\<close> counts the gateway's handlers, \<open>streams\<close> the dashboard's;
  \<open>expired\<close> is the end of the shutdown context, \<open>clean\<close> that the gateway's \<open>Shutdown\<close> returned
  without an error. \<open>Shutdown\<close> closes the listener first and does not cancel the requests it waits for.
\<close>

datatype exit_status = ExitOk | ListenError

datatype stage = Serving | HTTPShutdown | DashShutdown | Flushing | Exited exit_status

record 's process =
  stage :: stage
  inflight :: nat
  streams :: nat
  expired :: bool
  clean :: bool
  mt :: "'s metering"

text \<open>A handler's call of \<open>Enqueue\<close>.\<close>

definition offer :: "'s metering \<Rightarrow> Event \<Rightarrow> 's metering" where
  "offer m e = (case Enqueue m e of
     (m', True) \<Rightarrow> m'\<lparr>accepted := accepted m @ [e]\<rparr>
   | (m', False) \<Rightarrow> m'\<lparr>refused := refused m @ [e]\<rparr>)"

definition stop_writer :: "'s process \<Rightarrow> 's process" where
  "stop_writer p = p\<lparr>mt := (mt p)\<lparr>ctx_done := True\<rparr>\<rparr>"

definition after_http :: "bool \<Rightarrow> 's process \<Rightarrow> 's process" where
  "after_http dash p = (if dash then p\<lparr>stage := DashShutdown\<rparr> else stop_writer (p\<lparr>stage := Flushing\<rparr>))"

inductive pstep :: "'s write_op \<Rightarrow> bool \<Rightarrow> 's process \<Rightarrow> 's process \<Rightarrow> bool" for W dash where
  accept: "stage p = Serving \<Longrightarrow> pstep W dash p (p\<lparr>inflight := Suc (inflight p)\<rparr>)"
| enqueue: "0 < inflight p \<Longrightarrow> (\<forall>x. stage p \<noteq> Exited x) \<Longrightarrow> pstep W dash p (p\<lparr>mt := offer (mt p) e\<rparr>)"
| handled: "0 < inflight p \<Longrightarrow> pstep W dash p (p\<lparr>inflight := inflight p - 1\<rparr>)"
| stream_open: "stage p = Serving \<Longrightarrow> dash \<Longrightarrow> pstep W dash p (p\<lparr>streams := Suc (streams p)\<rparr>)"
| stream_done: "0 < streams p \<Longrightarrow> pstep W dash p (p\<lparr>streams := streams p - 1\<rparr>)"
| writer: "writer_step W (mt p) m' \<Longrightarrow> (\<forall>x. stage p \<noteq> Exited x) \<Longrightarrow> pstep W dash p (p\<lparr>mt := m'\<rparr>)"
| listen_error: "stage p = Serving \<Longrightarrow> pstep W dash p (stop_writer (p\<lparr>stage := Exited ListenError\<rparr>))"
| signal: "stage p = Serving \<Longrightarrow> pstep W dash p (p\<lparr>stage := HTTPShutdown\<rparr>)"
| deadline: "stage p = HTTPShutdown \<or> stage p = DashShutdown \<Longrightarrow> pstep W dash p (p\<lparr>expired := True\<rparr>)"
| http_idle: "stage p = HTTPShutdown \<Longrightarrow> inflight p = 0 \<Longrightarrow> pstep W dash p (after_http dash (p\<lparr>clean := True\<rparr>))"
| http_timeout: "stage p = HTTPShutdown \<Longrightarrow> expired p \<Longrightarrow> pstep W dash p (after_http dash p)"
| dash_idle: "stage p = DashShutdown \<Longrightarrow> streams p = 0 \<Longrightarrow> pstep W dash p (stop_writer (p\<lparr>stage := Flushing\<rparr>))"
| dash_timeout: "stage p = DashShutdown \<Longrightarrow> expired p \<Longrightarrow> pstep W dash p (stop_writer (p\<lparr>stage := Flushing\<rparr>))"
| wait: "stage p = Flushing \<Longrightarrow> Wait (mt p) \<Longrightarrow> pstep W dash p (p\<lparr>stage := Exited ExitOk\<rparr>)"

definition process_start :: "'s \<Rightarrow> 's process" where
  "process_start snk = \<lparr>stage = Serving, inflight = 0, streams = 0, expired = False, clean = False,
     mt = start_run (New snk DefaultBatchSize DefaultInterval)\<rparr>"

inductive preach :: "'s write_op \<Rightarrow> bool \<Rightarrow> 's \<Rightarrow> 's process \<Rightarrow> bool" for W dash snk where
  start: "preach W dash snk (process_start snk)"
| step: "preach W dash snk p \<Longrightarrow> pstep W dash p q \<Longrightarrow> preach W dash snk q"

lemma offer_step: "mstep W m (offer m e)"
  by (cases "Enqueue m e"; cases "snd (Enqueue m e)") (auto simp: offer_def intro: mstep.enqueue_ok mstep.enqueue_full)

text \<open>The writer of a running process is a run of \<open>Meter\<close>'s writer.\<close>

lemma preach_meter: "preach W dash snk p \<Longrightarrow> mreach W (New snk DefaultBatchSize DefaultInterval) (mt p)"
proof (induction rule: preach.induct)
  case start show ?case by (simp add: process_start_def mreach.start)
next
  case (step p q)
  note s = mreach.step [OF step.IH]
  from step.hyps(2) show ?case
    by cases (auto simp: stop_writer_def after_http_def writer_step_def step.IH
        intro: s offer_step s [OF mstep.cancel])
qed

subsection \<open>Invariant\<close>

text \<open>
  The writer's context is cancelled exactly when the process is about to wait for it; a clean shutdown means
  that no handler runs any more, so that the channel is empty once the goroutine is past its drain loop; a
  dashboard stream outlives its server's shutdown only when the deadline has passed.
\<close>

definition stopping :: "stage \<Rightarrow> bool" where
  "stopping st \<longleftrightarrow> st = Flushing \<or> (\<exists>x. st = Exited x)"

definition pinv :: "bool \<Rightarrow> 's process \<Rightarrow> bool" where
  "pinv dash p \<longleftrightarrow>
     (ctx_done (mt p) \<longleftrightarrow> stopping (stage p))
   \<and> (clean p \<longrightarrow> inflight p = 0 \<and> stage p \<noteq> Serving \<and> stage p \<noteq> HTTPShutdown
        \<and> (phase (mt p) = Final \<or> phase (mt p) = Stopped \<longrightarrow> ch (mt p) = []))
   \<and> (stage p = Exited ListenError \<longrightarrow> \<not> clean p)
   \<and> (stage p = Exited ExitOk \<longrightarrow> Wait (mt p))
   \<and> (stage p = Flushing \<or> stage p = Exited ExitOk \<longrightarrow> 0 < streams p \<longrightarrow> expired p)
   \<and> (\<not> dash \<longrightarrow> streams p = 0 \<and> stage p \<noteq> DashShutdown)"

lemma offer_keeps [simp]: "ctx_done (offer m e) = ctx_done m" "phase (offer m e) = phase m" "Wait (offer m e) = Wait m"
  by (simp_all add: offer_def Enqueue_def Wait_def)

lemma writer_channel:
  assumes "writer_step W m m'" "phase m' = Final \<or> phase m' = Stopped"
    "phase m = Final \<or> phase m = Stopped \<longrightarrow> ch m = []"
  shows "ch m' = []"
proof -
  have "mstep W m m'" using assms(1) by (simp add: writer_step_def)
  then show ?thesis
    by cases (use assms in \<open>auto simp: writer_step_def Enqueue_def split: if_splits\<close>)
qed

lemma writer_waits: "writer_step W m m' \<Longrightarrow> Wait m \<Longrightarrow> Wait m'"
  unfolding writer_step_def
  by (elim conjE mstepE) (auto simp: Wait_def Enqueue_def recv_event_def Let_def split: if_splits)

lemma pinv_step:
  assumes "pstep W dash p q" "pinv dash p" "phase (mt p) \<noteq> Running \<longrightarrow> ctx_done (mt p)"
  shows "pinv dash q"
  using assms(1)
proof cases
  case (writer m')
  then show ?thesis using assms(2) writer_channel [OF writer(2)] writer_waits [OF writer(2)]
    by (auto simp: pinv_def writer_step_def)
qed (use assms(2,3) in \<open>auto simp: pinv_def stopping_def stop_writer_def after_http_def Wait_def\<close>)

lemma preach_pinv: "preach W dash snk p \<Longrightarrow> pinv dash p"
proof (induction rule: preach.induct)
  case start
  show ?case by (simp add: pinv_def process_start_def stopping_def start_run_def Writer.extend_def)
next
  case (step p q)
  from mreach_minv [OF preach_meter [OF step.hyps(1)]] have "phase (mt p) \<noteq> Running \<longrightarrow> ctx_done (mt p)"
    by (simp add: minv_def)
  with step show ?case by (blast intro: pinv_step)
qed

subsection \<open>Shutting down\<close>

text \<open>C38: a graceful shutdown loses no metering. When the process has exited after the gateway's handlers finished
  within the deadline, every event they ever enqueued has been handed to the sink, in order.\<close>

theorem graceful_shutdown_meters_everything:
  assumes "preach W dash snk p" "stage p = Exited ExitOk" "clean p"
  shows "attempted (mt p) = accepted (mt p) \<and> inflight p = 0"
proof -
  have m: "minv (New snk DefaultBatchSize DefaultInterval) (mt p)" using mreach_minv [OF preach_meter [OF assms(1)]] .
  have "phase (mt p) = Stopped" "ch (mt p) = []" "inflight p = 0"
    using preach_pinv [OF assms(1)] assms(2,3) m by (auto simp: pinv_def Wait_def minv_def)
  with m show ?thesis by (auto simp: minv_def)
qed

text \<open>C40: an open dashboard stream holds up the shutdown: while one is connected the process gets past the
  dashboard's \<open>Shutdown\<close>, to the flush of the metering writer, only when the whole deadline of the
  shutdown has passed.\<close>

theorem open_stream_holds_shutdown:
  assumes "preach W dash snk p" "0 < streams p" "stage p = Flushing \<or> stage p = Exited ExitOk"
  shows "dash \<and> expired p"
  using preach_pinv [OF assms(1)] assms(2,3) by (auto simp: pinv_def)

lemma writer_psteps:
  assumes "(writer_step W)\<^sup>*\<^sup>* m m'" "mt p = m" "\<forall>x. stage p \<noteq> Exited x"
  shows "(pstep W dash)\<^sup>*\<^sup>* p (p\<lparr>mt := m'\<rparr>)"
  using assms(1)
proof induction
  case base then show ?case using assms(2) by (simp flip: assms(2))
next
  case (step y z)
  have "pstep W dash (p\<lparr>mt := y\<rparr>) ((p\<lparr>mt := y\<rparr>)\<lparr>mt := z\<rparr>)"
    using step.hyps(2) assms(3) by (intro pstep.writer) simp_all
  with step.IH show ?case by simp
qed

lemma writer_finishes:
  assumes "ctx_done m"
  shows "\<exists>m'. (writer_step W)\<^sup>*\<^sup>* m m' \<and> phase m' = Stopped \<and> (phase m \<noteq> Stopped \<longrightarrow> done_closed m')"
proof (cases "phase m")
  case Running
  have "writer_step W m (m\<lparr>phase := Draining\<rparr>)"
    using mstep.ctx_done [OF Running assms, of W] by (simp add: writer_step_def)
  moreover have "(writer_step W)\<^sup>*\<^sup>* (m\<lparr>phase := Draining\<rparr>) ((drain W (m\<lparr>phase := Draining\<rparr>))\<lparr>phase := Stopped, done_closed := True\<rparr>)"
    by (rule writer_shutdown_run) simp
  ultimately show ?thesis
    by (intro exI [of _ "(drain W (m\<lparr>phase := Draining\<rparr>))\<lparr>phase := Stopped, done_closed := True\<rparr>"])
      (auto intro: converse_rtranclp_into_rtranclp)
next
  case Draining
  from writer_shutdown_run [OF this, of W] show ?thesis by (intro exI conjI) auto
next
  case Final
  have "writer_step W m ((flush W m)\<lparr>phase := Stopped, done_closed := True\<rparr>)"
    using mstep.final_flush [OF Final, of W] by (simp add: writer_step_def)
  then show ?thesis
    by (intro exI [of _ "(flush W m)\<lparr>phase := Stopped, done_closed := True\<rparr>"]) auto
next
  case Stopped then show ?thesis by auto
qed

lemma flushing_run:
  assumes "preach W dash snk p" "stage p = Flushing"
  shows "\<exists>m'. (pstep W dash)\<^sup>*\<^sup>* p (p\<lparr>mt := m', stage := Exited ExitOk\<rparr>) \<and> accepted m' = accepted (mt p)"
proof -
  have m: "minv (New snk DefaultBatchSize DefaultInterval) (mt p)" using mreach_minv [OF preach_meter [OF assms(1)]] .
  have c: "ctx_done (mt p)" using preach_pinv [OF assms(1)] assms(2) by (simp add: pinv_def stopping_def)
  obtain m' where m': "(writer_step W)\<^sup>*\<^sup>* (mt p) m'" "phase m' = Stopped" "phase (mt p) \<noteq> Stopped \<longrightarrow> done_closed m'"
    using writer_finishes [OF c, of W] by blast
  from m'(1) have "accepted m' = accepted (mt p)"
    by (induction rule: rtranclp_induct) (auto simp: writer_step_def)
  moreover have "done_closed m'"
  proof (cases "phase (mt p) = Stopped")
    case True
    then have "Wait (mt p)" using m by (simp add: minv_def Wait_def)
    with m'(1) have "Wait m'" by (induction rule: rtranclp_induct) (auto intro: writer_waits)
    then show ?thesis by (simp add: Wait_def)
  qed (use m' in simp)
  then have "pstep W dash (p\<lparr>mt := m'\<rparr>) ((p\<lparr>mt := m'\<rparr>)\<lparr>stage := Exited ExitOk\<rparr>)"
    using assms(2) by (intro pstep.wait) (simp_all add: Wait_def)
  moreover have "(pstep W dash)\<^sup>*\<^sup>* p (p\<lparr>mt := m'\<rparr>)" using writer_psteps [OF m'(1)] assms(2) by simp
  ultimately show ?thesis by (blast intro: rtranclp.rtrancl_into_rtrancl)
qed

lemma flushing_exits:
  "preach W dash snk p \<Longrightarrow> stage p = Flushing \<Longrightarrow> \<exists>q. (pstep W dash)\<^sup>*\<^sup>* p q \<and> stage q = Exited ExitOk"
  using flushing_run [of W dash snk p] by fastforce

lemma preach_steps: "(pstep W dash)\<^sup>*\<^sup>* p q \<Longrightarrow> preach W dash snk p \<Longrightarrow> preach W dash snk q"
  by (induction rule: rtranclp_induct) (auto intro: preach.step)

lemma exit_after:
  assumes "preach W dash snk p" "(pstep W dash)\<^sup>*\<^sup>* p q" "stage q = Flushing"
  shows "\<exists>r. (pstep W dash)\<^sup>*\<^sup>* p r \<and> stage r = Exited ExitOk"
  using flushing_exits [OF preach_steps [OF assms(2,1)] assms(3)] assms(2) by (meson rtranclp_trans)


subsection \<open>Concrete runs\<close>

abbreviation demo_sink :: "mem_db write_op" where
  "demo_sink \<equiv> PGSink_Write mem_copy"

lemmas demo_process = process_start_def start_run_def Writer.extend_def New_def DefaultBatchSize_def DefaultInterval_def
  offer_def Enqueue_def bufferSize_def after_http_def stop_writer_def

text \<open>One request, its event, the signal and a clean shutdown.\<close>

lemma demo_drained:
  "\<exists>p. preach demo_sink False sample_db p \<and> stage p = Flushing \<and> clean p \<and> accepted (mt p) = [sample_event 1]"
proof -
  let ?p0 = "process_start sample_db"
  let ?p1 = "?p0\<lparr>inflight := 1\<rparr>"
  let ?p2 = "?p1\<lparr>mt := offer (mt ?p1) (sample_event 1)\<rparr>"
  let ?p3 = "?p2\<lparr>inflight := 0\<rparr>"
  let ?p4 = "?p3\<lparr>stage := HTTPShutdown\<rparr>"
  let ?p5 = "after_http False (?p4\<lparr>clean := True\<rparr>)"
  note next_state = preach.step [where W = demo_sink and dash = False and snk = sample_db]
  have "preach demo_sink False sample_db ?p1"
    using next_state [OF preach.start pstep.accept [of ?p0]] by (simp add: process_start_def)
  from next_state [OF this pstep.enqueue [of ?p1 _ _ "sample_event 1"]] have "preach demo_sink False sample_db ?p2"
    by (simp add: process_start_def)
  from next_state [OF this pstep.handled [of ?p2]] have "preach demo_sink False sample_db ?p3" by simp
  from next_state [OF this pstep.signal [of ?p3]] have "preach demo_sink False sample_db ?p4"
    by (simp add: process_start_def)
  from next_state [OF this pstep.http_idle [of ?p4]] have "preach demo_sink False sample_db ?p5" by simp
  then show ?thesis by (intro exI [of _ ?p5]) (simp add: demo_process)
qed

theorem graceful_shutdown_meters_everything_witness:
  "\<exists>p. preach demo_sink False sample_db p \<and> stage p = Exited ExitOk \<and> attempted (mt p) = [sample_event 1]"
proof -
  obtain p where p: "preach demo_sink False sample_db p" "stage p = Flushing" "clean p" "accepted (mt p) = [sample_event 1]"
    using demo_drained by blast
  from flushing_run [OF p(1,2)] obtain m where m: "(pstep demo_sink False)\<^sup>*\<^sup>* p (p\<lparr>mt := m, stage := Exited ExitOk\<rparr>)"
    "accepted m = [sample_event 1]" using p(4) by auto
  note q = preach_steps [OF m(1) p(1)]
  from graceful_shutdown_meters_everything [OF q] p(3) m(2) show ?thesis
    by (intro exI [of _ "p\<lparr>mt := m, stage := Exited ExitOk\<rparr>"]) (simp add: q)
qed

theorem open_stream_holds_shutdown_witness:
  "\<exists>p. preach demo_sink True sample_db p \<and> streams p = 1 \<and> stage p = Flushing \<and> expired p"
proof -
  let ?p0 = "process_start sample_db"
  let ?p1 = "?p0\<lparr>streams := 1\<rparr>"
  let ?p2 = "?p1\<lparr>stage := HTTPShutdown\<rparr>"
  let ?p3 = "?p2\<lparr>clean := True, stage := DashShutdown\<rparr>"
  let ?p4 = "?p3\<lparr>expired := True\<rparr>"
  let ?p5 = "stop_writer (?p4\<lparr>stage := Flushing\<rparr>)"
  note next_state = preach.step [where W = demo_sink and dash = True and snk = sample_db]
  have "preach demo_sink True sample_db ?p1"
    using next_state [OF preach.start pstep.stream_open [of ?p0]] by (simp add: process_start_def)
  from next_state [OF this pstep.signal [of ?p1]] have "preach demo_sink True sample_db ?p2" by (simp add: process_start_def)
  from next_state [OF this pstep.http_idle [of ?p2]] have "preach demo_sink True sample_db ?p3"
    by (simp add: process_start_def after_http_def)
  from next_state [OF this pstep.deadline [of ?p3]] have "preach demo_sink True sample_db ?p4" by simp
  from next_state [OF this pstep.dash_timeout [of ?p4]] have p: "preach demo_sink True sample_db ?p5" by simp
  have "streams ?p5 = 1" "stage ?p5 = Flushing" by (simp_all add: stop_writer_def)
  with open_stream_holds_shutdown [OF p] p show ?thesis by (intro exI [of _ ?p5]) simp
qed


text \<open>A deployment whose database is its price table.\<close>

definition demo_externals :: "(Key \<rightharpoonup> Price, mem, bytes) externals" where
  "demo_externals = \<lparr>new_pool = (\<lambda>_. Inr Map.empty), redis_ParseURL = Inr, redis_NewClient = (\<lambda>_. mem_redis),
     os_ReadFile = (\<lambda>_. Inr []), yaml_prices = (\<lambda>_. Inr prices_yaml),
     pg_migration = \<lparr>ensure_table = (\<lambda>db. (db, Inr ())), version_exists = (\<lambda>db n. (db, Inr True)),
       exec_sql = (\<lambda>db sql. (db, Inr ())), insert_version = (\<lambda>db n. (db, Inr ()))\<rparr>,
     pg_upsert = (\<lambda>db p. Some (db(price_key p \<mapsto> p))),
     pg_tenants = \<lparr>select_by_hash = (\<lambda>db hash. Inr None), insert_tenant = (\<lambda>db name hash. (db, Inl DBError))\<rparr>, embedded = []\<rparr>"

definition demo_config :: Config where
  "demo_config = \<lparr>Port = ''8080'', DatabaseURL = [], RedisURL = [], DashboardAddr = [], OpenAIBaseURL = ''https://api.openai.com'',
     AnthropicBaseURL = ''https://api.anthropic.com'', OpenAIKey = ''sk'', AnthropicKey = ''sk''\<rparr>"

theorem serve_charges_seeded_prices_witness:
  "\<exists>d. serve_start demo_externals amd64 demo_config = Inr d
    \<and> (\<forall>k p. px_prices (dp_proxy d) k = Some p \<longrightarrow> dp_db d k = Some p)
    \<and> route (providers (dp_proxy d)) ''/openai/v1/chat/completions'' = Some (openai_provider demo_config)"
proof -
  have "\<exists>db. seed_loop (\<lambda>db p. Some (db(price_key p \<mapsto> p))) m ps = Some db" for m ps
    by (induction ps arbitrary: m) auto
  then obtain db where "seed_loop (\<lambda>db p. Some (db(price_key p \<mapsto> p))) Map.empty prices_yaml = Some db" by blast
  then have "\<exists>d. serve_start demo_externals amd64 demo_config = Inr d"
    by (simp add: serve_start_def demo_externals_def Open_def Migrate_def prices_Load_def Seed_def budget_New_def)
  then obtain d where d: "serve_start demo_externals amd64 demo_config = Inr d" by blast
  have u: "\<And>db p db'. pg_upsert demo_externals db p = Some db' \<Longrightarrow> db' = db(price_key p \<mapsto> p)" by (simp add: demo_externals_def)
  from serve_charges_seeded_prices [where rows = "\<lambda>db. db" and row = "\<lambda>p. p" and path = "''v1/chat/completions''", OF d u] d
  show ?thesis by auto
qed

end
