(* ===== verification/JsonText.thy ===== *)
theory JsonText
  imports GoJson
begin

section \<open>JsonText: the content of JSON strings\<close>

text \<open>
  \<open>str_ok\<close> is the grammar of what stands between two quotes, \<open>utf8_ok\<close> the one of valid UTF-8.
  The scanner of \<open>GoJson\<close> accepts exactly the first; unquoting always gives the second, and quoting valid
  UTF-8 is undone by unquoting (\<open>quote_roundtrip\<close>).
\<close>

subsection \<open>The content of a string\<close>

definition simple_escape :: "char \<Rightarrow> bool" where
  "simple_escape e \<longleftrightarrow> e \<in> {CHR ''b'', CHR ''f'', CHR ''n'', CHR ''r'', CHR ''t'', backslash, CHR ''/'', quote_char}"

inductive str_ok :: "bytes \<Rightarrow> bool" where
  str_nil: "str_ok []"
| str_char: "c \<noteq> quote_char \<Longrightarrow> c \<noteq> backslash \<Longrightarrow> 0x20 \<le> (of_char c :: nat) \<Longrightarrow> str_ok l \<Longrightarrow> str_ok (c # l)"
| str_simple: "simple_escape e \<Longrightarrow> str_ok l \<Longrightarrow> str_ok (backslash # e # l)"
| str_u: "is_hex h1 \<Longrightarrow> is_hex h2 \<Longrightarrow> is_hex h3 \<Longrightarrow> is_hex h4 \<Longrightarrow> str_ok l \<Longrightarrow>
    str_ok (backslash # CHR ''u'' # h1 # h2 # h3 # h4 # l)"

inductive_cases str_ok_cases: "str_ok (c # l)"

lemma scan_string_complete: "str_ok l \<Longrightarrow> scan_string (l @ quote_char # r) = Some (l, r)"
  by (induction rule: str_ok.induct) (auto simp: simple_escape_def)

lemma scan_string_sound: "scan_string s = Some (l, r) \<Longrightarrow> str_ok l \<and> s = l @ quote_char # r"
proof (induction s arbitrary: l r rule: scan_string.induct)
  case 1 then show ?case by simp
next
  case (2 c s)
  show ?case
  proof (cases "c = backslash")
    case False
    then show ?thesis using "2.prems" "2.IH"(3)
      by (cases "c = quote_char"; cases "(of_char c :: nat) < 0x20") (auto intro: str_ok.intros)
  next
    case c: True
    show ?thesis
    proof (cases s)
      case Nil then show ?thesis using "2.prems" c by simp
    next
      case (Cons e s1)
      let ?simple = "e \<in> {CHR ''b'', CHR ''f'', CHR ''n'', CHR ''r'', CHR ''t'', backslash, CHR ''/'', quote_char}"
      show ?thesis
      proof (cases ?simple)
        case True
        obtain a' where "scan_string s1 = Some (a', r)" "l = c # e # a'"
          using "2.prems" c Cons True by (auto split: option.splits)
        then show ?thesis using "2.IH"(1) [OF _ c Cons True] c Cons True
          by (auto simp: simple_escape_def intro: str_simple)
      next
        case False
        then obtain h1 h2 h3 h4 s2 a' where u: "e = CHR ''u''" "s1 = h1 # h2 # h3 # h4 # s2"
            "is_hex h1 \<and> is_hex h2 \<and> is_hex h3 \<and> is_hex h4"
            "scan_string s2 = Some (a', r)" "l = c # e # h1 # h2 # h3 # h4 # a'"
          using "2.prems" c Cons by (auto split: list.splits if_splits)
        have "str_ok a' \<and> s2 = a' @ quote_char # r" using "2.IH"(2) [OF _ c Cons False u(1,2) refl refl refl u(3,4)] c by auto
        then show ?thesis using u Cons c by (auto intro: str_u)
      qed
    qed
  qed
qed

subsection \<open>Hexadecimal escapes and UTF-8\<close>

lemma hex_digits_ok: "list_all (\<lambda>n. is_hex (hex_digit n) \<and> hex_val (hex_digit n) = n) [0..<16]"
  by code_simp

lemma hex_digit_ok: "n < 16 \<Longrightarrow> is_hex (hex_digit n)" "n < 16 \<Longrightarrow> hex_val (hex_digit n) = n"
  using hex_digits_ok by (simp_all add: list_all_iff)

lemma str_ok_u_escape: "n < 65536 \<Longrightarrow> str_ok l \<Longrightarrow> str_ok (u_escape n @ l)"
  by (simp add: u_escape_def str_u hex_digit_ok less_mult_imp_div_less)

lemma getu4_u_escape:
  assumes "n < 65536" shows "getu4 (u_escape n @ s) = Some (n, s)"
proof -
  have "((n div 4096 * 16 + n div 256 mod 16) * 16 + n div 16 mod 16) * 16 + n mod 16 = n"
    by (simp add: div_mult2_eq [of n 256 16, simplified] div_mult2_eq [of n 16 16, simplified]) 
  with assms show ?thesis by (simp add: u_escape_def hex_digit_ok less_mult_imp_div_less)
qed

lemma unquote_u_escape:
  assumes "n < 0xD800" shows "unquote (u_escape n @ s) = utf8_encode n @ unquote s"
proof -
  have "u_escape n @ s = backslash # tl (u_escape n @ s)" by (simp add: u_escape_def)
  moreover have "getu4 (u_escape n @ s) = Some (n, s)" using assms by (intro getu4_u_escape) simp
  ultimately show ?thesis using assms by (subst unquote.simps) (simp add: u_escape_def)
qed

text \<open>Well-formed UTF-8.\<close>

inductive utf8_ok :: "bytes \<Rightarrow> bool" where
  utf8_nil: "utf8_ok []"
| utf8_char: "0 < utf8_len s \<Longrightarrow> utf8_ok (drop (utf8_len s) s) \<Longrightarrow> utf8_ok s"

lemma len_by_lead:
  assumes f: "\<And>s. f s = (case s of [] \<Rightarrow> 0 | a # r \<Rightarrow>
      if A a then 1
      else if B a then (case r of b # _ \<Rightarrow> if Q b then 2 else 0 | _ \<Rightarrow> 0)
      else if C a then (case r of b # c # _ \<Rightarrow> if R a b \<and> Q c then 3 else 0 | _ \<Rightarrow> 0)
      else if D a then (case r of b # c # d # _ \<Rightarrow> if S a b \<and> Q c \<and> Q d then 4 else 0 | _ \<Rightarrow> 0)
      else (0::nat))"
    and "0 < f s"
  shows "f (take (f s) s @ x) = f s \<and> f s \<le> length s"
proof -
  from assms(2) obtain a r where s: "s = a # r" by (cases s) (simp_all add: f)
  consider "f s = 1" "A a" | b t where "f s = 2" "\<not> A a" "B a" "r = b # t" "Q b"
    | b c t where "f s = 3" "\<not> A a" "\<not> B a" "C a" "r = b # c # t" "R a b" "Q c"
    | b c d t where "f s = 4" "\<not> A a" "\<not> B a" "\<not> C a" "D a" "r = b # c # d # t" "S a b" "Q c" "Q d"
    using assms(2) unfolding s f [of "a # r"] by (auto split: if_splits list.splits)
  then show ?thesis by cases (simp_all add: s f [of "a # _"])
qed

lemma utf8_len_props: "0 < utf8_len s \<Longrightarrow> utf8_len (take (utf8_len s) s @ x) = utf8_len s \<and> utf8_len s \<le> length s"
  by (rule len_by_lead [where A = "in_range 0 0x7F" and B = "in_range 0xC2 0xDF" and C = "in_range 0xE0 0xEF" and
      D = "in_range 0xF0 0xF4" and Q = "in_range 0x80 0xBF" and
      R = "\<lambda>a. in_range (if a = CHR 0xE0 then 0xA0 else 0x80) (if a = CHR 0xED then 0x9F else 0xBF)" and
      S = "\<lambda>a. in_range (if a = CHR 0xF0 then 0x90 else 0x80) (if a = CHR 0xF4 then 0x8F else 0xBF)"])
    (simp only: utf8_len_def)

lemma utf8_len_take: "0 < utf8_len s \<Longrightarrow> utf8_len (take (utf8_len s) s @ x) = utf8_len s"
  using utf8_len_props by blast

lemma utf8_len_ascii: "(of_char c :: nat) < 128 \<Longrightarrow> utf8_len (c # s) = 1"
  by (simp add: utf8_len_def in_range_def)

text \<open>A character beyond ASCII consists of bytes from 0x80.\<close>

lemma utf8_high:
  assumes "128 \<le> (of_char c :: nat)"
  shows "\<forall>x\<in>set (take (utf8_len (c # s)) (c # s)). 128 \<le> (of_char x :: nat)"
proof -
  have lead: "\<not> in_range 0 0x7F c" using assms by (simp add: in_range_def)
  have low: "in_range 0x80 b x \<Longrightarrow> 128 \<le> (of_char x :: nat)" "in_range 0x90 b x \<Longrightarrow> 128 \<le> (of_char x :: nat)"
    "in_range 0xA0 b x \<Longrightarrow> 128 \<le> (of_char x :: nat)" for b x by (simp_all add: in_range_def)
  let ?P = "\<lambda>n. \<forall>x\<in>set (take n (c # s)). 128 \<le> (of_char x :: nat)"
  have A: "?P (case s of b # _ \<Rightarrow> if in_range 0x80 0xBF b then 2 else 0 | _ \<Rightarrow> 0)"
    using assms by (auto split: list.split dest: low)
  have B: "?P (case s of x # y # _ \<Rightarrow> if in_range (if p then 0xA0 else 0x80) u x \<and> in_range 0x80 0xBF y then 3 else 0
             | _ \<Rightarrow> 0)" for p u
    using assms by (cases p) (auto split: list.split dest: low)
  have C: "?P (case s of x # y # z # _ \<Rightarrow>
               if in_range (if p then 0x90 else 0x80) u x \<and> in_range 0x80 0xBF y \<and> in_range 0x80 0xBF z then 4 else 0
             | _ \<Rightarrow> 0)" for p u
    using assms by (cases p) (auto split: list.split dest: low)
  show ?thesis unfolding utf8_len_def list.case if_not_P [OF lead] using A B C by (simp split: if_split)
qed

lemma utf8_ok_Cons_ascii: "(of_char c :: nat) < 128 \<Longrightarrow> utf8_ok s \<Longrightarrow> utf8_ok (c # s)"
  by (rule utf8_char) (simp_all add: utf8_len_ascii)

lemma utf8_ok_take: "0 < utf8_len s \<Longrightarrow> utf8_ok x \<Longrightarrow> utf8_ok (take (utf8_len s) s @ x)"
proof -
  assume a: "0 < utf8_len s" "utf8_ok x"
  have "utf8_len s \<le> length s" using utf8_len_props [OF a(1)] by blast
  with a show ?thesis by - (rule utf8_char, simp_all add: utf8_len_take)
qed

lemma utf8_encode_len:
  assumes "n < 0xD800 \<or> 0xE000 \<le> n" "n < 0x110000"
  shows "utf8_len (utf8_encode n @ s) = length (utf8_encode n)"
proof -
  consider "n < 0x80" | "0x80 \<le> n" "n < 0x800" | "0x800 \<le> n" "n < 0x10000" | "0x10000 \<le> n" by linarith
  then show ?thesis
  proof cases
    case 1 then show ?thesis by (simp add: utf8_encode_def utf8_len_def in_range_def)
  next
    case 2
    then have "2 \<le> n div 64" "n div 64 < 32" by simp_all
    with 2 show ?thesis by (simp add: utf8_encode_def utf8_len_def in_range_def)
  next
    case 3
    then have l: "n div 4096 < 16" "n div 64 mod 64 < 64" "n mod 64 < 64" by simp_all
    have q: "n div 64 = 64 * (n div 4096) + n div 64 mod 64"
      using div_mult2_eq [of n 64 64] mult_div_mod_eq [of 64 "n div 64"] by simp
    have "0x20 \<le> n div 64" using 3(1) by simp
    with q have "0x20 \<le> n div 64 mod 64" if "n div 4096 = 0" using that by simp
    moreover have thirteen: "n div 64 mod 64 < 32" if "n div 4096 = 13"
    proof -
      have "n div 4096 * 4096 \<le> n" by (simp add: div_times_less_eq_dividend)
      with assms(1) that have "n div 64 < 864" using div_le_mono [of n 55295 64] div_less_iff_less_mult [of 4096 n 14] by auto
      with q that show ?thesis by simp
    qed
    moreover have "char_of (224 + n div 4096) = CHR 0xE0 \<longleftrightarrow> n div 4096 = 0" "char_of (224 + n div 4096) = CHR 0xED \<longleftrightarrow> n div 4096 = 13"
      using l by (simp_all add: char_of_eq_iff take_bit_eq_mod)
    moreover have "n div 64 \<le> 63" if "n div 4096 = 0" using q that by simp
    moreover have "n div 4096 = 13 \<Longrightarrow> n div 64 mod 64 \<le> 31" using thirteen by linarith
    moreover have "n div 64 mod 64 \<le> 63" "n mod 64 \<le> 63" using l by simp_all
    ultimately show ?thesis using 3 l(1)
      by (simp add: utf8_encode_def utf8_len_def in_range_def)
  next
    case 4
    then have l: "n div 262144 < 5" "n div 4096 mod 64 < 64" "n div 64 mod 64 < 64" "n mod 64 < 64"
      using assms(2) by simp_all
    have q: "n div 4096 = 64 * (n div 262144) + n div 4096 mod 64"
      using div_mult2_eq [of n 4096 64] mult_div_mod_eq [of 64 "n div 4096"] by simp
    have "16 \<le> n div 4096" "n div 4096 < 272" using 4 assms(2) by simp_all
    with q have "16 \<le> n div 4096 mod 64" if "n div 262144 = 0" using that by simp
    moreover from q \<open>n div 4096 < 272\<close> have four: "n div 4096 mod 64 < 16" if "n div 262144 = 4" using that by simp
    moreover have "n div 262144 = 4 \<Longrightarrow> n div 4096 mod 64 \<le> 15" using four by linarith
    moreover have "char_of (240 + n div 262144) = CHR 0xF0 \<longleftrightarrow> n div 262144 = 0" "char_of (240 + n div 262144) = CHR 0xF4 \<longleftrightarrow> n div 262144 = 4"
      using l by (simp_all add: char_of_eq_iff take_bit_eq_mod)
    moreover have "n div 4096 \<le> 63" if "n div 262144 = 0" using q that l(2) by simp
    moreover have "n div 4096 mod 64 \<le> 63" "n div 64 mod 64 \<le> 63" "n mod 64 \<le> 63" using l by simp_all
    ultimately show ?thesis using 4 l(1)
      by (simp add: utf8_encode_def utf8_len_def in_range_def)
  qed
qed

lemma utf8_ok_encode:
  assumes "n < 0xD800 \<or> 0xE000 \<le> n" "n < 0x110000" "utf8_ok s"
  shows "utf8_ok (utf8_encode n @ s)"
proof -
  have "0 < length (utf8_encode n)" by (simp add: utf8_encode_def)
  with assms(3) utf8_encode_len [OF assms(1,2), of s] show ?thesis
    by - (rule utf8_char, simp_all)
qed

lemma utf8_ok_replacement: "utf8_ok s \<Longrightarrow> utf8_ok (replacement @ s)"
proof -
  have "utf8_encode 0xFFFD = replacement"
    by (simp add: utf8_encode_def replacement_def char_of_eq_iff take_bit_eq_mod)
  with utf8_ok_encode [of "0xFFFD" s] show "utf8_ok s \<Longrightarrow> ?thesis" by simp
qed

subsection \<open>Unquoting gives well-formed text\<close>

lemma getu4_bound: "getu4 s = Some (n, t) \<Longrightarrow> n < 65536"
proof (cases s rule: getu4.cases)
  case (1 b u h1 h2 h3 h4 s')
  have h: "is_hex h \<Longrightarrow> hex_val h < 16" for h by (auto simp: is_hex_def hex_val_def)
  assume "getu4 s = Some (n, t)"
  with 1 h [of h1] h [of h2] h [of h3] h [of h4] show ?thesis by (auto split: if_splits)
qed auto

lemma str_ok_getu4:
  assumes "str_ok s" "getu4 s = Some (n, t)" shows "str_ok t"
  using assms(1)
proof cases
  case (str_simple e l)
  with assms(2) show ?thesis by (cases s rule: getu4.cases) (auto simp: simple_escape_def split: if_splits)
qed (use assms(2) in \<open>auto split: if_splits elim: getu4.elims\<close>)

lemma str_ok_high: "str_ok (c # s) \<Longrightarrow> c \<noteq> backslash \<Longrightarrow> str_ok s"
  by (erule str_ok_cases) simp_all

lemma str_ok_drop: "str_ok s \<Longrightarrow> \<forall>x\<in>set (take n s). 128 \<le> (of_char x :: nat) \<Longrightarrow> str_ok (drop n s)"
proof (induction n arbitrary: s)
  case (Suc n)
  show ?case
  proof (cases s)
    case (Cons c t)
    have "c \<noteq> backslash" using Suc.prems(2) Cons by auto
    with Suc.prems(1) Cons have "str_ok t" by (simp add: str_ok_high)
    with Suc.IH [of t] Suc.prems(2) Cons show ?thesis by simp
  qed (simp add: str_nil)
qed simp

lemma unescape_ascii: "simple_escape e \<Longrightarrow> (of_char (unescape e) :: nat) < 128"
proof -
  have "list_all (\<lambda>e. (of_char (unescape e) :: nat) < 128) (quote_char # backslash # ''bfnrt/'')" by code_simp
  then show "simple_escape e \<Longrightarrow> ?thesis" by (auto simp: simple_escape_def)
qed

lemma utf8_ok_unquote: "str_ok l \<Longrightarrow> utf8_ok (unquote l)"
proof (induction l rule: length_induct)
  case (1 s)
  then have IH: "str_ok t \<Longrightarrow> length t < length s \<Longrightarrow> utf8_ok (unquote t)" for t by blast
  show ?case
  proof (cases s)
    case Nil then show ?thesis by (simp add: unquote.simps utf8_nil)
  next
    case (Cons c s1)
    show ?thesis
    proof (cases "c = backslash")
      case False
      show ?thesis
      proof (cases "utf8_len s = 0")
        case True
        have "str_ok s1" using "1.prems" False Cons by (simp add: str_ok_high)
        with IH True False Cons show ?thesis by (simp add: unquote.simps [of "c # s1"] utf8_ok_replacement)
      next
        case nz: False
        have "str_ok (drop (utf8_len s) s)"
        proof (cases "(of_char c :: nat) < 128")
          case True
          with "1.prems" False Cons show ?thesis by (simp add: utf8_len_ascii str_ok_high)
        next
          case False
          with utf8_high [of c s1] "1.prems" Cons show ?thesis by (intro str_ok_drop) auto
        qed
        with IH nz Cons have "utf8_ok (unquote (drop (utf8_len s) s))" by simp
        with utf8_ok_take [of s] nz False Cons show ?thesis by (simp add: unquote.simps [of "c # s1"] Let_def)
      qed
    next
      case bs: True
      show ?thesis
      proof (cases "getu4 s")
        case None
        from "1.prems" obtain e s2 where e: "s1 = e # s2" "simple_escape e" "str_ok s2"
          unfolding Cons bs by (rule str_ok_cases) (use None Cons bs in auto)
        with IH [of s2] None bs Cons show ?thesis
          by (simp add: unquote.simps [of "backslash # e # s2"] utf8_ok_Cons_ascii unescape_ascii)
      next
        case (Some p)
        obtain n t where p: "p = (n, t)" by fastforce
        have t: "str_ok t" "length t < length s" "n < 65536"
          using str_ok_getu4 [OF "1.prems"] getu4_bound getu4_shorter [of s n t] Some p by auto
        show ?thesis
        proof (cases "0xD800 \<le> n \<and> n < 0xE000")
          case False
          then have "utf8_ok (utf8_encode n @ unquote t)" using t(3) IH [OF t(1,2)] by (intro utf8_ok_encode) auto
          with False Some p bs Cons show ?thesis by (auto simp: unquote.simps [of "backslash # s1"])
        next
          case sur: True
          show ?thesis
          proof (cases "getu4 t")
            case None
            with IH [OF t(1,2)] sur Some p bs Cons show ?thesis
              by (simp add: unquote.simps [of "backslash # s1"] utf8_ok_replacement)
          next
            case (Some p2)
            obtain n2 t2 where p2: "p2 = (n2, t2)" by fastforce
            have t2: "str_ok t2" "length t2 < length s"
              using str_ok_getu4 [OF t(1)] getu4_shorter [of t n2 t2] Some p2 t(2) by auto
            have "utf8_ok (utf8_encode ((n - 0xD800) * 1024 + (n2 - 0xDC00) + 0x10000) @ unquote t2)"
              if "n < 0xDC00" "0xDC00 \<le> n2" "n2 < 0xE000"
              using that sur by (intro utf8_ok_encode IH t2) auto
            then show ?thesis
              using IH [OF t(1,2)] sur Some p p2 bs Cons \<open>getu4 s = Some p\<close>
              by (simp add: unquote.simps [of "backslash # s1"] utf8_ok_replacement)
          qed
        qed
      qed
    qed
  qed
qed

subsection \<open>Quoting and unquoting\<close>

definition short_escapes :: "(char \<times> char) list" where
  "short_escapes = [(quote_char, quote_char), (backslash, backslash), (CHR 0x08, CHR ''b''), (CHR 0x0C, CHR ''f''),
     (CHR 0x0A, CHR ''n''), (CHR 0x0D, CHR ''r''), (CHR 0x09, CHR ''t'')]"

lemma short_escapes_ok:
  "list_all (\<lambda>(c, e). escape_ascii c = [backslash, e] \<and> simple_escape e \<and> unescape e = c) short_escapes"
  by code_simp

lemma escape_ascii_cases:
  assumes "(of_char c :: nat) < 128"
  obtains "escape_ascii c = [c]" "c \<noteq> quote_char" "c \<noteq> backslash" "0x20 \<le> (of_char c :: nat)"
  | e where "escape_ascii c = [backslash, e]" "simple_escape e" "unescape e = c"
  | "escape_ascii c = u_escape (of_char c)"
proof (cases "c \<in> fst ` set short_escapes")
  case True
  then obtain e where "(c, e) \<in> set short_escapes" by auto
  with short_escapes_ok that(2) show ?thesis by (auto simp: list_all_iff)
next
  case False
  then have e: "escape_ascii c = (if (of_char c :: nat) < 0x20 \<or> html_char c then u_escape (of_char c) else [c])"
    by (simp add: escape_ascii_def short_escapes_def)
  have "c \<noteq> quote_char" "c \<noteq> backslash" using False by (auto simp: short_escapes_def)
  with e that(1,3) show ?thesis by (cases "(of_char c :: nat) < 0x20 \<or> html_char c") auto
qed

lemma unquote_simple:
  assumes "simple_escape e" shows "unquote (backslash # e # s) = unescape e # unquote s"
proof -
  have "getu4 (backslash # e # s) = None"
    using assms by (cases "backslash # e # s" rule: getu4.cases) (auto simp: simple_escape_def)
  then show ?thesis by (simp add: unquote.simps [of "backslash # e # s"])
qed

lemma unquote_escape_ascii:
  assumes "(of_char c :: nat) < 128" shows "unquote (escape_ascii c @ s) = c # unquote s"
  using escape_ascii_cases [OF assms]
proof cases
  case 1 then show ?thesis using assms by (simp add: unquote.simps [of "c # s"] utf8_len_ascii)
next
  case 2 then show ?thesis by (simp add: unquote_simple)
next
  case 3 then show ?thesis using assms by (simp add: unquote_u_escape utf8_encode_def)
qed

lemma str_ok_escape_ascii:
  assumes "(of_char c :: nat) < 128" "str_ok s" shows "str_ok (escape_ascii c @ s)"
  using escape_ascii_cases [OF assms(1)]
  by cases (use assms in \<open>simp_all add: str_char str_simple str_ok_u_escape\<close>)

lemma line_sep_cases:
  assumes "line_sep s = Some r"
  obtains "r = 0x2028" "take 3 s = [CHR 0xE2, CHR 0x80, CHR 0xA8]" | "r = 0x2029" "take 3 s = [CHR 0xE2, CHR 0x80, CHR 0xA9]"
  using assms by (auto simp: line_sep_def split: if_splits)

lemma line_sep_unquote: "line_sep s = Some r \<Longrightarrow> unquote (u_escape r @ t) = take 3 s @ unquote t \<and> utf8_len s = 3 \<and> r < 65536"
proof -
  have e: "utf8_encode 0x2028 = [CHR 0xE2, CHR 0x80, CHR 0xA8]" "utf8_encode 0x2029 = [CHR 0xE2, CHR 0x80, CHR 0xA9]"
    by (simp_all add: utf8_encode_def char_of_eq_iff take_bit_eq_mod)
  have len: "utf8_len s = 3" if "take 3 s = [CHR 0xE2, CHR 0x80, x]" "in_range 0x80 0xBF x" for x
  proof -
    note asm = that
    obtain y where y: "[CHR 0xE2, CHR 0x80, x] @ y = s"
      using append_take_drop_id [of 3 s, unfolded asm(1)] by blast
    show ?thesis unfolding y [symmetric] using asm(2) by (simp add: utf8_len_def in_range_def)
  qed
  assume "line_sep s = Some r"
  then show ?thesis
  proof (cases rule: line_sep_cases)
    case 1 with len [OF 1(2)] e show ?thesis by (simp add: unquote_u_escape in_range_def)
  next
    case 2 with len [OF 2(2)] e show ?thesis by (simp add: unquote_u_escape in_range_def)
  qed
qed

lemma str_ok_high_append: "\<forall>x\<in>set a. 128 \<le> (of_char x :: nat) \<Longrightarrow> str_ok s \<Longrightarrow> str_ok (a @ s)"
  by (induction a) (auto intro!: str_char)

text \<open>A well-formed string is read back exactly as it was quoted.\<close>

lemma quote_roundtrip: "utf8_ok k \<Longrightarrow> unquote (escape_string k) = k \<and> str_ok (escape_string k)"
proof (induction rule: utf8_ok.induct)
  case utf8_nil
  show ?case by (simp add: escape_string.simps [of "[]"] unquote.simps [of "[]"] str_nil)
next
  case (utf8_char s)
  then obtain c s1 where s: "s = c # s1" by (cases s) (simp_all add: utf8_len_def)
  show ?case
  proof (cases "(of_char c :: nat) < 128")
    case True
    with utf8_char.IH show ?thesis
      by (simp add: s escape_string.simps [of "c # s1"] utf8_len_ascii unquote_escape_ascii str_ok_escape_ascii)
  next
    case hi: False
    let ?n = "utf8_len s"
    let ?t = "escape_string (drop ?n s)"
    have esc: "escape_string s = (case line_sep s of Some r \<Rightarrow> u_escape r | None \<Rightarrow> take ?n s) @ ?t"
      using hi utf8_char.hyps(1) unfolding s by (subst escape_string.simps) (simp add: Let_def)
    have high: "\<forall>x\<in>set (take ?n s). 128 \<le> (of_char x :: nat)" using utf8_high [of c s1] hi by (simp add: s)
    show ?thesis
    proof (cases "line_sep s")
      case None
      obtain y where y: "take ?n s = c # y" using utf8_char.hyps(1) s by (cases ?n) simp_all
      have "c \<noteq> backslash" using hi by auto
      have "?n \<le> length s" using utf8_len_props [OF utf8_char.hyps(1)] by blast
      then have len: "length (c # y) = ?n" unfolding y [symmetric] by simp
      have "utf8_len (c # y @ ?t) = ?n" using utf8_len_take [OF utf8_char.hyps(1), of ?t] by (simp add: y)
      moreover have "take ?n (c # y @ ?t) = c # y" "drop ?n (c # y @ ?t) = ?t" unfolding len [symmetric] by simp_all
      ultimately have "unquote (c # y @ ?t) = c # y @ unquote ?t"
        using \<open>c \<noteq> backslash\<close> utf8_char.hyps(1) by (simp add: unquote.simps [of "c # y @ ?t"] Let_def)
      then have "unquote (take ?n s @ ?t) = take ?n s @ unquote ?t" by (simp add: y)
      with None utf8_char.IH high show ?thesis by (simp add: esc str_ok_high_append)
    next
      case (Some r)
      from line_sep_unquote [OF this, of ?t] Some utf8_char.IH show ?thesis
        by (auto simp: esc intro!: str_ok_u_escape)
    qed
  qed
qed

end
