(* ===== verification/JsonGrammar.thy ===== *)
theory JsonGrammar
  imports JsonText
begin

section \<open>JsonGrammar: the texts the parser accepts\<close>

text \<open>
  The grammar of JSON as an inductive relation between the nesting it may use, a text and its value. The
  parser of \<open>GoJson\<close> accepts exactly the texts of the grammar (\<open>parse_json_iff\<close>), and a compacted text
  is in the grammar again (\<open>compact_valid\<close>).
\<close>

subsection \<open>Numbers\<close>

definition num_char :: "char \<Rightarrow> bool" where
  "num_char c \<longleftrightarrow> is_digit c \<or> c \<in> {CHR ''-'', CHR ''+'', CHR ''.'', CHR ''e'', CHR ''E''}"

definition num_end :: "bytes \<Rightarrow> bool" where
  "num_end r \<longleftrightarrow> r = [] \<or> \<not> is_digit (hd r) \<and> hd r \<notin> {CHR ''.'', CHR ''e'', CHR ''E''}"

lemma num_end_simps [simp]:
  "num_end []" "num_end (c # r) \<longleftrightarrow> \<not> is_digit c \<and> c \<notin> {CHR ''.'', CHR ''e'', CHR ''E''}"
  by (simp_all add: num_end_def)

lemma digits_extend:
  assumes "r = [] \<or> \<not> is_digit (hd r)" "list_all is_digit ds"
  shows "takeWhile is_digit (ds @ r) = ds" "dropWhile is_digit (ds @ r) = r"
proof -
  have "takeWhile is_digit r = []" "dropWhile is_digit r = r" using assms(1) by (cases r; simp)+
  with assms(2) show "takeWhile is_digit (ds @ r) = ds" "dropWhile is_digit (ds @ r) = r"
    by (simp_all add: list_all_iff takeWhile_append dropWhile_append)
qed

text \<open>What a scanner takes it also takes alone, and before any text that cannot continue a number.\<close>

definition takes :: "(bytes \<Rightarrow> (bytes \<times> bytes) option) \<Rightarrow> bytes \<Rightarrow> bool" where
  "takes scan t \<longleftrightarrow> list_all num_char t \<and> (\<forall>r. num_end r \<longrightarrow> scan (t @ r) = Some (t, r))"

lemma takes_exp:
  assumes "scan_exp s = Some (n, r)" shows "takes scan_exp n"
proof (cases s)
  case Nil with assms show ?thesis by (auto simp: scan_exp_def takes_def num_end_def split: list.split)
next
  case (Cons e u)
  show ?thesis
  proof (cases "e = CHR ''e'' \<or> e = CHR ''E''")
    case False
    with Cons assms show ?thesis by (auto simp: scan_exp_def takes_def num_end_def split: list.split)
  next
    case True
    define sg where "sg = (case u of c # _ \<Rightarrow> if c = CHR ''+'' \<or> c = CHR ''-'' then [c] else [] | [] \<Rightarrow> [])"
    define ds where "ds = takeWhile is_digit (drop (length sg) u)"
    have n: "n = e # sg @ ds" and ds: "ds \<noteq> []"
      using assms True Cons by (auto simp: scan_exp_def sg_def ds_def take_digits_def split: list.splits if_splits)
    have sg: "sg = [] \<or> sg = ''+'' \<or> sg = ''-''" by (auto simp: sg_def split: list.split)
    have dig: "list_all is_digit ds" by (auto simp: ds_def list_all_iff dest: set_takeWhileD)
    then obtain d dt where d: "ds = d # dt" "is_digit d" using ds by (cases ds) auto
    then have "d \<noteq> CHR ''+''" "d \<noteq> CHR ''-''" by (auto simp: is_digit_def)
    have "takeWhile is_digit (ds @ x) = ds" "dropWhile is_digit (ds @ x) = x" if "num_end x" for x
      using digits_extend [OF _ dig, of x] that by (auto simp: num_end_def)
    with True sg d dig \<open>d \<noteq> CHR ''+''\<close> \<open>d \<noteq> CHR ''-''\<close> show ?thesis
      unfolding takes_def n by (auto simp: scan_exp_def take_digits_def num_char_def list_all_iff)
  qed
qed

lemma takes_frac:
  assumes "scan_frac s = Some (n, r)" shows "takes scan_frac n"
proof (cases s)
  case Nil with assms show ?thesis by (auto simp: scan_frac_def scan_exp_def takes_def num_end_def split: list.split)
next
  case (Cons c u)
  show ?thesis
  proof (cases "c = CHR ''.''")
    case True
    then obtain e where n: "n = c # takeWhile is_digit u @ e" and ne: "takeWhile is_digit u \<noteq> []"
        and e: "scan_exp (dropWhile is_digit u) = Some (e, r)"
      using assms Cons by (auto simp: scan_frac_def take_digits_def split: if_splits)
    have dig: "list_all is_digit (takeWhile is_digit u)" by (auto simp: list_all_iff dest: set_takeWhileD)
    have t: "takes scan_exp e" using takes_exp [OF e] .
    have hd: "e @ x = [] \<or> \<not> is_digit (hd (e @ x))" if "num_end x" for x
      using e that by (auto simp: scan_exp_def num_end_def is_digit_def split: list.splits if_splits prod.splits)
    have "takeWhile is_digit (takeWhile is_digit u @ e @ x) = takeWhile is_digit u"
      "dropWhile is_digit (takeWhile is_digit u @ e @ x) = e @ x" if "num_end x" for x
      using digits_extend [OF hd [OF that] dig] by simp_all
    with True ne t dig show ?thesis
      unfolding takes_def n by (auto simp: scan_frac_def take_digits_def num_char_def list_all_iff)
  next
    case False
    with assms Cons have "scan_exp s = Some (n, r)" by (simp add: scan_frac_def)
    from takes_exp [OF this] have t: "takes scan_exp n" .
    have "scan_frac (n @ x) = Some (n, x)" if "num_end x" for x
    proof -
      have "scan_exp (n @ x) = Some (n, x)" using t that by (simp add: takes_def)
      moreover have "n @ x = [] \<or> hd (n @ x) \<noteq> CHR ''.''"
        using \<open>scan_exp s = Some (n, r)\<close> that Cons False by (cases x) (auto simp: scan_exp_def split: if_splits prod.splits)
      ultimately show ?thesis by (cases "n @ x") (auto simp: scan_frac_def scan_exp_def)
    qed
    with t show ?thesis by (simp add: takes_def)
  qed
qed

lemma takes_unsigned:
  assumes "scan_unsigned s = Some (n, r)" shows "takes scan_unsigned n \<and> n \<noteq> [] \<and> is_digit (hd n)"
proof (cases s)
  case Nil with assms show ?thesis by (simp add: scan_unsigned_def)
next
  case (Cons c u)
  show ?thesis
  proof (cases "c = CHR ''0''")
    case True
    with assms Cons obtain f where f: "scan_frac u = Some (f, r)" "n = c # f" by (auto simp: scan_unsigned_def)
    with takes_frac [OF f(1)] True show ?thesis by (auto simp: takes_def scan_unsigned_def num_char_def)
  next
    case False
    with assms Cons obtain f where f: "scan_frac (dropWhile is_digit s) = Some (f, r)" "n = takeWhile is_digit s @ f" "is_digit c"
      by (auto simp: scan_unsigned_def take_digits_def split: if_splits)
    have t: "takes scan_frac f" using takes_frac [OF f(1)] .
    obtain ds where ds: "takeWhile is_digit s = c # ds" using Cons f(3) by simp
    have dig: "list_all is_digit (c # ds)" unfolding ds [symmetric] by (auto simp: list_all_iff dest: set_takeWhileD)
    have hd: "f @ x = [] \<or> \<not> is_digit (hd (f @ x))" if "num_end x" for x
      using f(1) that by (auto simp: scan_frac_def scan_exp_def num_end_def is_digit_def split: list.splits if_splits prod.splits)
    have "takeWhile is_digit ((c # ds) @ f @ x) = c # ds" "dropWhile is_digit ((c # ds) @ f @ x) = f @ x" if "num_end x" for x
      using digits_extend [OF hd [OF that] dig] by simp_all
    with t False dig f(3) show ?thesis
      unfolding f(2) ds by (auto simp: takes_def scan_unsigned_def take_digits_def num_char_def list_all_iff)
  qed
qed

lemma takes_number:
  assumes "scan_number s = Some (n, r)"
  shows "takes scan_number n \<and> n \<noteq> [] \<and> (is_digit (hd n) \<or> hd n = CHR ''-'')"
proof (cases s)
  case Nil with assms show ?thesis by (simp add: scan_number_def)
next
  case (Cons c u)
  show ?thesis
  proof (cases "c = CHR ''-''")
    case True
    with assms Cons obtain f where f: "scan_unsigned u = Some (f, r)" "n = c # f" by (auto simp: scan_number_def)
    with takes_unsigned [OF f(1)] True show ?thesis by (auto simp: takes_def scan_number_def num_char_def)
  next
    case False
    with assms Cons have u: "scan_unsigned s = Some (n, r)" by (simp add: scan_number_def)
    from takes_unsigned [OF this] obtain e m where n: "n = e # m" "is_digit e" "takes scan_unsigned n" by (cases n) auto
    then have "e \<noteq> CHR ''-''" by auto
    with n show ?thesis by (auto simp: takes_def scan_number_def)
  qed
qed

subsection \<open>The grammar\<close>

abbreviation all_ws :: "bytes \<Rightarrow> bool" where
  "all_ws \<equiv> list_all is_ws"

text \<open>The first argument is the nesting that is still allowed.\<close>

inductive jvalue :: "nat \<Rightarrow> bytes \<Rightarrow> json \<Rightarrow> bool"
  and jelems :: "nat \<Rightarrow> bytes \<Rightarrow> (bytes \<times> json) list \<Rightarrow> bool"
  and jmembers :: "nat \<Rightarrow> bytes \<Rightarrow> (bytes \<times> bytes \<times> json) list \<Rightarrow> bool"
where
  jstr: "str_ok l \<Longrightarrow> jvalue d (quote_char # l @ [quote_char]) (JStr l)"
| jtrue: "jvalue d ''true'' (JBool True)"
| jfalse: "jvalue d ''false'' (JBool False)"
| jnull: "jvalue d ''null'' JNull"
| jnum: "takes scan_number t \<Longrightarrow> t \<noteq> [] \<Longrightarrow> is_digit (hd t) \<or> hd t = CHR ''-'' \<Longrightarrow> jvalue d t (JNum t)"
| jarr0: "all_ws w \<Longrightarrow> jvalue (Suc d) (CHR ''['' # w @ '']'') (JArr [])"
| jarr: "jelems d t vs \<Longrightarrow> jvalue (Suc d) (CHR ''['' # t @ '']'') (JArr vs)"
| jobj0: "all_ws w \<Longrightarrow> jvalue (Suc d) (CHR ''{'' # w @ ''}'') (JObj [])"
| jobj: "jmembers d t ms \<Longrightarrow> jvalue (Suc d) (CHR ''{'' # t @ ''}'') (JObj ms)"
| jelem: "all_ws a \<Longrightarrow> jvalue d t v \<Longrightarrow> all_ws b \<Longrightarrow> jelems d (a @ t @ b) [(t, v)]"
| jelem_cons: "all_ws a \<Longrightarrow> jvalue d t v \<Longrightarrow> all_ws b \<Longrightarrow> jelems d ts vs \<Longrightarrow>
    jelems d (a @ t @ b @ CHR '','' # ts) ((t, v) # vs)"
| jmember: "all_ws a \<Longrightarrow> str_ok k \<Longrightarrow> all_ws b \<Longrightarrow> all_ws c \<Longrightarrow> jvalue d t v \<Longrightarrow> all_ws e \<Longrightarrow>
    jmembers d (a @ quote_char # k @ quote_char # b @ CHR '':'' # c @ t @ e) [(k, t, v)]"
| jmember_cons: "all_ws a \<Longrightarrow> str_ok k \<Longrightarrow> all_ws b \<Longrightarrow> all_ws c \<Longrightarrow> jvalue d t v \<Longrightarrow> all_ws e \<Longrightarrow> jmembers d ts ms \<Longrightarrow>
    jmembers d (a @ quote_char # k @ quote_char # b @ CHR '':'' # c @ t @ e @ CHR '','' # ts) ((k, t, v) # ms)"

lemma skip_ws_split: obtains w where "all_ws w" "s = w @ skip_ws s"
  by (rule that [of "takeWhile is_ws s"]) (auto simp: skip_ws_def list_all_iff dest: set_takeWhileD)

lemma text_before_append [simp]: "text_before (t @ r) r = t"
  by (simp add: text_before_def)

text \<open>The parser accepts only texts of the grammar.\<close>

lemma parse_sound:
  "(\<forall>d s v r. parse_value n d s = Some (v, r) \<longrightarrow> (\<exists>t. s = t @ r \<and> jvalue d t v))
   \<and> (\<forall>d s vs r. parse_elems n d s = Some (vs, r) \<longrightarrow> (\<exists>t. s = t @ CHR '']'' # r \<and> jelems d t vs))
   \<and> (\<forall>d s ms r. parse_members n d s = Some (ms, r) \<longrightarrow> (\<exists>t. s = t @ CHR ''}'' # r \<and> jmembers d t ms))"
proof (induction n)
  case (Suc n)
  then have V: "parse_value n d s = Some (v, r) \<Longrightarrow> \<exists>t. s = t @ r \<and> jvalue d t v"
    and E: "parse_elems n d s = Some (vs, r) \<Longrightarrow> \<exists>t. s = t @ CHR '']'' # r \<and> jelems d t vs"
    and M: "parse_members n d s = Some (ms, r) \<Longrightarrow> \<exists>t. s = t @ CHR ''}'' # r \<and> jmembers d t ms" for d s v vs ms r by blast+
  have "\<exists>t. s = t @ r \<and> jvalue d t v" if p: "parse_value (Suc n) d s = Some (v, r)" for d s v r
  proof -
    consider (str) u where "s = quote_char # u" | (arr) u where "s = CHR ''['' # u" | (obj) u where "s = CHR ''{'' # u"
      | (lit) "expect quote_char s = None" "expect CHR ''['' s = None" "expect CHR ''{'' s = None"
      by (metis expect_Some not_None_eq)
    then show ?thesis
    proof cases
      case str
      with p obtain l where "v = JStr l" "scan_string u = Some (l, r)" by (auto simp: parse_value.simps(2))
      with str scan_string_sound [of u l r] show ?thesis
        by (intro exI [of _ "quote_char # l @ [quote_char]"]) (simp add: jstr)
    next
      case arr
      obtain w where w: "all_ws w" "u = w @ skip_ws u" by (rule skip_ws_split)
      from p arr have d: "d = Suc (d - 1)" by (simp add: parse_value.simps(2) split: if_splits)
      show ?thesis
      proof (cases "expect CHR '']'' (skip_ws u)")
        case (Some r1)
        with p arr have "v = JArr []" "r1 = r" by (auto simp: parse_value.simps(2) split: if_splits)
        moreover from Some w(2) have "u = w @ CHR '']'' # r1" by (simp add: expect_Some)
        ultimately show ?thesis using jarr0 [OF w(1), of "d - 1"] d arr
          by (intro exI [of _ "CHR ''['' # w @ '']''"]) simp
      next
        case None
        with p arr obtain vs where "v = JArr vs" "parse_elems n (d - 1) u = Some (vs, r)"
          by (auto simp: parse_value.simps(2) split: if_splits)
        moreover from E [OF this(2)] obtain t where "u = t @ CHR '']'' # r" "jelems (d - 1) t vs" by blast
        ultimately show ?thesis using jarr [of "d - 1" t vs] d arr by (intro exI [of _ "CHR ''['' # t @ '']''"]) simp
      qed
    next
      case obj
      obtain w where w: "all_ws w" "u = w @ skip_ws u" by (rule skip_ws_split)
      from p obj have d: "d = Suc (d - 1)" by (simp add: parse_value.simps(2) split: if_splits)
      show ?thesis
      proof (cases "expect CHR ''}'' (skip_ws u)")
        case (Some r1)
        with p obj have "v = JObj []" "r1 = r" by (auto simp: parse_value.simps(2) split: if_splits)
        moreover from Some w(2) have "u = w @ CHR ''}'' # r1" by (simp add: expect_Some)
        ultimately show ?thesis using jobj0 [OF w(1), of "d - 1"] d obj
          by (intro exI [of _ "CHR ''{'' # w @ ''}''"]) simp
      next
        case None
        with p obj obtain ms where "v = JObj ms" "parse_members n (d - 1) u = Some (ms, r)"
          by (auto simp: parse_value.simps(2) split: if_splits)
        moreover from M [OF this(2)] obtain t where "u = t @ CHR ''}'' # r" "jmembers (d - 1) t ms" by blast
        ultimately show ?thesis using jobj [of "d - 1" t ms] d obj by (intro exI [of _ "CHR ''{'' # t @ ''}''"]) simp
      qed
    next
      case lit
      with p have l: "scan_literal s = Some (v, r)" by (simp add: parse_value.simps(2))
      show ?thesis
      proof (cases "cut_prefix s ''true'' = None \<and> cut_prefix s ''false'' = None \<and> cut_prefix s ''null'' = None")
        case True
        with l obtain t where t: "v = JNum t" "scan_number s = Some (t, r)" by (auto simp: scan_literal_def)
        with scan_number_text [OF t(2)] takes_number [OF t(2)] show ?thesis by (intro exI [of _ t]) (simp add: jnum)
      next
        case False
        with l show ?thesis
          by (auto simp: scan_literal_def cut_prefix_Some split: option.splits intro: jtrue jfalse jnull)
      qed
    qed
  qed
  moreover have "\<exists>t. s = t @ CHR '']'' # r \<and> jelems d t vs" if p: "parse_elems (Suc n) d s = Some (vs, r)" for d s vs r
  proof -
    obtain a where a: "all_ws a" "s = a @ skip_ws s" by (rule skip_ws_split)
    from p obtain v r1 where v: "parse_value n d (skip_ws s) = Some (v, r1)"
      by (auto simp: parse_elems.simps(2) split: option.splits)
    from V [OF v] obtain t where t: "skip_ws s = t @ r1" "jvalue d t v" by blast
    obtain b where b: "all_ws b" "r1 = b @ skip_ws r1" by (rule skip_ws_split)
    show ?thesis
    proof (cases "expect CHR '','' (skip_ws r1)")
      case (Some r2)
      with p v t(1) obtain vs' where vs': "vs = (t, v) # vs'" "parse_elems n d r2 = Some (vs', r)"
        by (auto simp: parse_elems.simps(2) Let_def)
      from E [OF vs'(2)] obtain ts where ts: "r2 = ts @ CHR '']'' # r" "jelems d ts vs'" by blast
      have "s = (a @ t @ b @ CHR '','' # ts) @ CHR '']'' # r"
        using a(2) t(1) b(2) Some ts(1) by (simp add: expect_Some)
      with jelem_cons [OF a(1) t(2) b(1) ts(2)] vs'(1) show ?thesis by blast
    next
      case None
      with p v t(1) have vs: "vs = [(t, v)]" and e: "expect CHR '']'' (skip_ws r1) = Some r"
        by (auto simp: parse_elems.simps(2) Let_def)
      have "s = (a @ t @ b) @ CHR '']'' # r" using a(2) t(1) b(2) e by (simp add: expect_Some)
      with jelem [OF a(1) t(2) b(1)] vs show ?thesis by blast
    qed
  qed
  moreover have "\<exists>t. s = t @ CHR ''}'' # r \<and> jmembers d t ms" if p: "parse_members (Suc n) d s = Some (ms, r)" for d s ms r
  proof -
    obtain a where a: "all_ws a" "s = a @ skip_ws s" by (rule skip_ws_split)
    from p obtain s1 k s2 s3 v r1 where q: "expect quote_char (skip_ws s) = Some s1" "scan_string s1 = Some (k, s2)"
      "expect CHR '':'' (skip_ws s2) = Some s3" and v: "parse_value n d (skip_ws s3) = Some (v, r1)"
      by (auto simp: parse_members.simps(2) split: option.splits)
    obtain b where b: "all_ws b" "s2 = b @ skip_ws s2" by (rule skip_ws_split)
    obtain c where c: "all_ws c" "s3 = c @ skip_ws s3" by (rule skip_ws_split)
    obtain e where e: "all_ws e" "r1 = e @ skip_ws r1" by (rule skip_ws_split)
    from scan_string_sound [OF q(2)] have k: "str_ok k" "s1 = k @ quote_char # s2" by simp_all
    from V [OF v] obtain t where t: "skip_ws s3 = t @ r1" "jvalue d t v" by blast
    have s: "s = a @ quote_char # k @ quote_char # b @ CHR '':'' # c @ t @ e @ skip_ws r1"
      using a(2) b(2) c(2) e(2) k(2) t(1) q(1,3) by (simp add: expect_Some)
    show ?thesis
    proof (cases "expect CHR '','' (skip_ws r1)")
      case (Some r2)
      with p q v t(1) obtain ms' where ms': "ms = (k, t, v) # ms'" "parse_members n d r2 = Some (ms', r)"
        by (auto simp: parse_members.simps(2) Let_def)
      from M [OF ms'(2)] obtain ts where ts: "r2 = ts @ CHR ''}'' # r" "jmembers d ts ms'" by blast
      have "s = (a @ quote_char # k @ quote_char # b @ CHR '':'' # c @ t @ e @ CHR '','' # ts) @ CHR ''}'' # r"
        using s Some ts(1) by (simp add: expect_Some)
      with jmember_cons [OF a(1) k(1) b(1) c(1) t(2) e(1) ts(2)] ms'(1) show ?thesis by blast
    next
      case None
      with p q v t(1) have ms: "ms = [(k, t, v)]" and x: "expect CHR ''}'' (skip_ws r1) = Some r"
        by (auto simp: parse_members.simps(2) Let_def)
      have "s = (a @ quote_char # k @ quote_char # b @ CHR '':'' # c @ t @ e) @ CHR ''}'' # r"
        using s x by (simp add: expect_Some)
      with jmember [OF a(1) k(1) b(1) c(1) t(2) e(1)] ms show ?thesis by blast
    qed
  qed
  ultimately show ?case by blast
qed simp

lemmas parse_value_sound = parse_sound [THEN conjunct1, rule_format]

text \<open>It accepts each of them, before any text that does not continue a number.\<close>

lemma skip_ws_append: "all_ws a \<Longrightarrow> skip_ws (a @ s) = skip_ws s"
  by (induction a) (simp_all add: skip_ws_def)

lemma skip_ws_Cons [simp]: "\<not> is_ws c \<Longrightarrow> skip_ws (c # s) = c # s"
  by (simp add: skip_ws_def)

lemma not_ws [simp]:
  "\<not> is_ws quote_char" "\<not> is_ws CHR ''[''" "\<not> is_ws CHR ''{''" "\<not> is_ws CHR '']''" "\<not> is_ws CHR ''}''"
  "\<not> is_ws CHR '':''" "\<not> is_ws CHR '',''" "\<not> is_ws CHR ''t''" "\<not> is_ws CHR ''f''" "\<not> is_ws CHR ''n''" "\<not> is_ws CHR ''-''"
  by (simp_all add: is_ws_def)

lemma digit_not_ws: "is_digit c \<Longrightarrow> \<not> is_ws c"
  by (auto simp: is_digit_def is_ws_def)

definition starts :: "bytes \<Rightarrow> bool" where
  "starts t \<longleftrightarrow> t \<noteq> [] \<and> \<not> is_ws (hd t) \<and> hd t \<noteq> CHR '']''"

lemma jvalue_starts: "jvalue d t v \<Longrightarrow> starts t"
  by (cases rule: jvalue.cases) (auto simp: starts_def digit_not_ws is_digit_def)

lemma starts_skip [simp]: "starts t \<Longrightarrow> skip_ws (t @ r) = t @ r"
  by (cases t) (simp_all add: starts_def)

lemma starts_expect: "starts t \<Longrightarrow> expect CHR '']'' (t @ r) = None"
  by (cases t) (simp_all add: starts_def)

lemma ws_num_end: "all_ws b \<Longrightarrow> num_end (b @ c # r) \<longleftrightarrow> b \<noteq> [] \<or> num_end (c # r)"
  by (cases b) (auto simp: is_ws_def is_digit_def)

lemma elems_no_bracket: "jelems d t vs \<Longrightarrow> expect CHR '']'' (skip_ws (t @ r)) = None"
  by (cases rule: jelems.cases)
    (auto simp: skip_ws_append starts_expect dest!: jvalue_starts)

lemma members_no_brace: "jmembers d t ms \<Longrightarrow> expect CHR ''}'' (skip_ws (t @ r)) = None"
  by (cases rule: jmembers.cases) (auto simp: skip_ws_append)

lemma parse_complete:
  "jvalue d t v \<Longrightarrow> num_end r \<Longrightarrow> 2 * length (t @ r) < n \<Longrightarrow> parse_value n d (t @ r) = Some (v, r)"
  "jelems d t vs \<Longrightarrow> 2 * length (t @ CHR '']'' # r) + 1 < n \<Longrightarrow> parse_elems n d (t @ CHR '']'' # r) = Some (vs, r)"
  "jmembers d t ms \<Longrightarrow> 2 * length (t @ CHR ''}'' # r) + 1 < n \<Longrightarrow> parse_members n d (t @ CHR ''}'' # r) = Some (ms, r)"
proof (induction arbitrary: n r and n r and n r rule: jvalue_jelems_jmembers.inducts)
  case (jstr l d)
  then show ?case by (cases n) (simp_all add: parse_value.simps(2) scan_string_complete)
next
  case (jtrue d)
  then show ?case by (cases n) (simp_all add: parse_value.simps(2) scan_literal_def)
next
  case (jfalse d)
  then show ?case by (cases n) (simp_all add: parse_value.simps(2) scan_literal_def)
next
  case (jnull d)
  then show ?case by (cases n) (simp_all add: parse_value.simps(2) scan_literal_def)
next
  case (jnum t d)
  then obtain c u where t: "t = c # u" "is_digit c \<or> c = CHR ''-''" by (cases t) auto
  have c: "c \<notin> {quote_char, CHR ''['', CHR ''{'', CHR ''t'', CHR ''f'', CHR ''n''}"
    using t(2) by (auto simp: is_digit_def)
  have "scan_number (t @ r) = Some (t, r)" using jnum by (simp add: takes_def)
  then have "scan_literal (t @ r) = Some (JNum t, r)" using c by (simp add: scan_literal_def t(1))
  then show ?case using jnum.prems c by (cases n) (simp_all add: parse_value.simps(2) t(1))
next
  case (jarr0 w d)
  then show ?case by (cases n) (simp_all add: parse_value.simps(2) skip_ws_append)
next
  case (jarr d t vs)
  then obtain m where m: "n = Suc m" by (cases n) auto
  have "parse_elems m d (t @ CHR '']'' # r) = Some (vs, r)" using jarr.prems m by (intro jarr.IH) simp
  moreover have "expect CHR '']'' (skip_ws (t @ CHR '']'' # r)) = None" using jarr.hyps by (rule elems_no_bracket)
  ultimately show ?case by (simp add: m parse_value.simps(2))
next
  case (jobj0 w d)
  then show ?case by (cases n) (simp_all add: parse_value.simps(2) skip_ws_append)
next
  case (jobj d t ms)
  then obtain m where m: "n = Suc m" by (cases n) auto
  have "parse_members m d (t @ CHR ''}'' # r) = Some (ms, r)" using jobj.prems m by (intro jobj.IH) simp
  moreover have "expect CHR ''}'' (skip_ws (t @ CHR ''}'' # r)) = None" using jobj.hyps by (rule members_no_brace)
  ultimately show ?case by (simp add: m parse_value.simps(2))
next
  case (jelem a d t v b)
  then obtain m where m: "n = Suc m" by (cases n) auto
  have "parse_value m d (t @ b @ CHR '']'' # r) = Some (v, b @ CHR '']'' # r)"
    using jelem.prems m jelem.hyps by (intro jelem.IH) (simp_all add: ws_num_end is_digit_def)
  with jvalue_starts [OF jelem.hyps(2)] jelem.hyps show ?case
    by (simp add: m parse_elems.simps(2) skip_ws_append Let_def)
next
  case (jelem_cons a d t v b ts vs)
  then obtain m where m: "n = Suc m" by (cases n) auto
  have "parse_value m d (t @ b @ CHR '','' # ts @ CHR '']'' # r) = Some (v, b @ CHR '','' # ts @ CHR '']'' # r)"
    using jelem_cons.prems m jelem_cons.hyps by (intro jelem_cons.IH(1)) (simp_all add: ws_num_end is_digit_def)
  moreover have "parse_elems m d (ts @ CHR '']'' # r) = Some (vs, r)"
    using jelem_cons.prems m by (intro jelem_cons.IH(2)) simp
  ultimately show ?case using jvalue_starts [OF jelem_cons.hyps(2)] jelem_cons.hyps
    by (simp add: m parse_elems.simps(2) skip_ws_append Let_def)
next
  case (jmember a k b c d t v e)
  then obtain m where m: "n = Suc m" by (cases n) auto
  have "parse_value m d (t @ e @ CHR ''}'' # r) = Some (v, e @ CHR ''}'' # r)"
    using jmember.prems m jmember.hyps by (intro jmember.IH) (simp_all add: ws_num_end is_digit_def)
  with jvalue_starts [OF jmember.hyps(5)] jmember.hyps show ?case
    by (simp add: m parse_members.simps(2) skip_ws_append scan_string_complete Let_def)
next
  case (jmember_cons a k b c d t v e ts ms)
  then obtain m where m: "n = Suc m" by (cases n) auto
  have "parse_value m d (t @ e @ CHR '','' # ts @ CHR ''}'' # r) = Some (v, e @ CHR '','' # ts @ CHR ''}'' # r)"
    using jmember_cons.prems m jmember_cons.hyps by (intro jmember_cons.IH(1)) (simp_all add: ws_num_end is_digit_def)
  moreover have "parse_members m d (ts @ CHR ''}'' # r) = Some (ms, r)"
    using jmember_cons.prems m by (intro jmember_cons.IH(2)) simp
  ultimately show ?case using jvalue_starts [OF jmember_cons.hyps(5)] jmember_cons.hyps
    by (simp add: m parse_members.simps(2) skip_ws_append scan_string_complete Let_def)
qed

lemma jvalue_mono:
  "jvalue d t v \<Longrightarrow> d \<le> d' \<Longrightarrow> jvalue d' t v"
  "jelems d t vs \<Longrightarrow> d \<le> d' \<Longrightarrow> jelems d' t vs"
  "jmembers d t ms \<Longrightarrow> d \<le> d' \<Longrightarrow> jmembers d' t ms"
proof (induction arbitrary: d' and d' and d' rule: jvalue_jelems_jmembers.inducts)
  case (jarr0 w d) then show ?case by (cases d') (auto intro: jvalue_jelems_jmembers.intros)
next
  case (jarr d t vs) then show ?case by (cases d') (auto intro: jvalue_jelems_jmembers.intros)
next
  case (jobj0 w d) then show ?case by (cases d') (auto intro: jvalue_jelems_jmembers.intros)
next
  case (jobj d t ms) then show ?case by (cases d') (auto intro: jvalue_jelems_jmembers.intros)
qed (auto intro: jvalue_jelems_jmembers.intros)

text \<open>A text has one value, and the nesting it needs does not depend on what is allowed.\<close>

lemma jvalue_unique:
  assumes "jvalue d t v" "jvalue d' t w" shows "v = w"
proof -
  have "jvalue (max d d') t v" "jvalue (max d d') t w" using assms by (auto intro: jvalue_mono)
  from parse_complete(1) [OF this(1), of "[]"] parse_complete(1) [OF this(2), of "[]"] show ?thesis by fastforce
qed

lemma jvalue_JObj_iff: "jvalue (Suc d) t (JObj ms) \<longleftrightarrow>
    (\<exists>w. all_ws w \<and> t = CHR ''{'' # w @ ''}'' \<and> ms = []) \<or> (\<exists>u. t = CHR ''{'' # u @ ''}'' \<and> jmembers d u ms)"
  by (subst jvalue.simps) auto

lemma parse_json_iff:
  "parse_json s = Some v \<longleftrightarrow> (\<exists>a t b. all_ws a \<and> all_ws b \<and> s = a @ t @ b \<and> jvalue max_depth t v)"
proof
  assume "parse_json s = Some v"
  then obtain r where p: "parse_value (2 * length s + 1) max_depth (skip_ws s) = Some (v, r)" "skip_ws r = []"
    by (auto simp: parse_json_def split: option.splits if_splits)
  from parse_value_sound [OF p(1)] obtain t where t: "skip_ws s = t @ r" "jvalue max_depth t v" by blast
  obtain a where a: "all_ws a" "s = a @ skip_ws s" by (rule skip_ws_split)
  obtain b where b: "all_ws b" "r = b @ skip_ws r" by (rule skip_ws_split)
  from a(2) b(2) p(2) t(1) have "s = a @ t @ b" by simp
  with a(1) b(1) t(2) show "\<exists>a t b. all_ws a \<and> all_ws b \<and> s = a @ t @ b \<and> jvalue max_depth t v" by blast
next
  assume "\<exists>a t b. all_ws a \<and> all_ws b \<and> s = a @ t @ b \<and> jvalue max_depth t v"
  then obtain a t b where s: "all_ws a" "all_ws b" "s = a @ t @ b" "jvalue max_depth t v" by blast
  have "num_end b" using s(2) by (cases b) (auto simp: is_ws_def is_digit_def)
  with parse_complete(1) [OF s(4) this, of "2 * length s + 1"] s have
    "parse_value (2 * length s + 1) max_depth (skip_ws s) = Some (v, b)"
    by (simp add: skip_ws_append jvalue_starts)
  moreover have "skip_ws b = []" using skip_ws_append [OF s(2), of "[]"] by (simp add: skip_ws_def)
  ultimately show "parse_json s = Some v" by (simp add: parse_json_def)
qed

subsection \<open>Compacting\<close>

lemma compact_nil [simp]: "compact b [] = []"
  by (simp add: compact.simps [of b "[]"])

lemma compact_ws: "all_ws a \<Longrightarrow> compact False (a @ r) = compact False r"
  by (induction a) (simp_all add: compact.simps [of False "_ # _"])

lemma compact_Cons: "\<not> is_ws c \<Longrightarrow> c \<noteq> quote_char \<Longrightarrow> compact False (c # r) = c # compact False r"
  by (simp add: compact.simps [of False "c # r"])

lemma compact_plain:
  "\<forall>c\<in>set t. \<not> is_ws c \<and> c \<noteq> quote_char \<Longrightarrow> compact False (t @ r) = t @ compact False r"
  by (induction t) (simp_all add: compact_Cons)

text \<open>Inside a string compacting only replaces characters by escapes.\<close>

lemma compact_string: "str_ok l \<Longrightarrow> \<exists>l'. str_ok l' \<and> (\<forall>r. compact True (l @ quote_char # r) = l' @ quote_char # compact False r)"
proof (induction l rule: length_induct)
  case (1 l)
  then have IH: "str_ok u \<Longrightarrow> length u < length l \<Longrightarrow>
      \<exists>u'. str_ok u' \<and> (\<forall>r. compact True (u @ quote_char # r) = u' @ quote_char # compact False r)" for u by blast
  from "1.prems" show ?case
  proof cases
    case str_nil
    then show ?thesis by (intro exI [of _ "[]"]) (simp add: str_ok.str_nil compact.simps [of True "_ # _"])
  next
    case (str_simple e u)
    with IH [of u] obtain u' where "str_ok u'" "\<forall>r. compact True (u @ quote_char # r) = u' @ quote_char # compact False r" by auto
    with str_simple show ?thesis
      by (intro exI [of _ "backslash # e # u'"]) (simp add: str_ok.str_simple compact.simps [of True "backslash # _"])
  next
    case (str_u h1 h2 h3 h4 u)
    with IH [of u] obtain u' where u': "str_ok u'" "\<forall>r. compact True (u @ quote_char # r) = u' @ quote_char # compact False r" by auto
    have hex: "compact True (h # s) = h # compact True s" if "is_hex h" for h s
    proof -
      have "h \<noteq> quote_char" "h \<noteq> backslash" "\<not> html_char h" "h \<noteq> CHR 0xE2"
        using that by (auto simp: is_hex_def html_char_def)
      then show ?thesis by (simp add: compact.simps [of True "h # s"] line_sep_def)
    qed
    with u' str_u show ?thesis
      by (intro exI [of _ "backslash # CHR ''u'' # h1 # h2 # h3 # h4 # u'"])
        (simp add: str_ok.str_u compact.simps [of True "backslash # _"])
  next
    case (str_char c u)
    show ?thesis
    proof (cases "html_char c")
      case True
      from IH [of u] str_char obtain u' where "str_ok u'" "\<forall>r. compact True (u @ quote_char # r) = u' @ quote_char # compact False r" by auto
      with True str_char show ?thesis
        by (intro exI [of _ "u_escape (of_char c) @ u'"])
          (auto simp: compact.simps [of True "c # _"] html_char_def intro: str_ok_u_escape)
    next
      case html: False
      show ?thesis
      proof (cases "line_sep l")
        case None
        from IH [of u] str_char obtain u' where u': "str_ok u'" "\<forall>r. compact True (u @ quote_char # r) = u' @ quote_char # compact False r" by auto
        have "line_sep (l @ quote_char # r) = None" for r
        proof -
          have "length l < 3 \<Longrightarrow> quote_char \<in> set (take 3 (l @ quote_char # r))"
            by (cases "3 - length l") simp_all
          then have "length l < 3 \<Longrightarrow> line_sep (l @ quote_char # r) = None"
            by (cases "line_sep (l @ quote_char # r)") (auto elim!: line_sep_cases simp del: take_append)
          moreover have "3 \<le> length l \<Longrightarrow> line_sep (l @ quote_char # r) = line_sep l" by (simp add: line_sep_def)
          ultimately show ?thesis using None by (cases "length l < 3") auto
        qed
        then have "line_sep (c # u @ quote_char # r) = None" for r using str_char(1) by simp
        with u' html str_char show ?thesis
          by (intro exI [of _ "c # u'"]) (simp add: str_ok.str_char compact.simps [of True "c # _"])
      next
        case (Some r0)
        then obtain x where x: "take 3 l = [CHR 0xE2, CHR 0x80, x]" "x = CHR 0xA8 \<or> x = CHR 0xA9"
          by (auto elim: line_sep_cases)
        from append_take_drop_id [of 3 l, unfolded x(1)] obtain u2 where
          l: "l = CHR 0xE2 # CHR 0x80 # x # u2" "x = CHR 0xA8 \<or> x = CHR 0xA9" using x(2) by (metis append_Cons append_Nil)
        have "str_ok u2" using "1.prems" l by (auto elim!: str_ok_cases)
        with IH [of u2] l obtain u' where u': "str_ok u'" "\<forall>r. compact True (u2 @ quote_char # r) = u' @ quote_char # compact False r" by auto
        have "take 3 (l @ s) = take 3 l" for s using l by simp
        then have "line_sep (l @ s) = Some r0" for s using Some unfolding line_sep_def by presburger
        then have "compact True (l @ quote_char # r) = u_escape r0 @ u' @ quote_char # compact False r" for r
          using u'(2) l by (simp add: compact.simps [of True "CHR 0xE2 # _"] html_char_def)
        moreover have "r0 < 65536" using Some by (auto simp: line_sep_def split: if_splits)
        ultimately show ?thesis using u'(1) by (intro exI [of _ "u_escape r0 @ u'"]) (simp add: str_ok_u_escape)
      qed
    qed
  qed
qed

definition closes :: "bytes \<Rightarrow> bool" where
  "closes t \<longleftrightarrow> (\<forall>r. compact False (t @ r) = compact False t @ compact False r)"

lemma closes_append: "closes a \<Longrightarrow> closes b \<Longrightarrow> closes (a @ b)"
  by (simp add: closes_def)

lemma closes_ws: "all_ws a \<Longrightarrow> closes a"
  using compact_ws [of a "[]"] by (simp add: closes_def compact_ws)

lemma closes_plain: "\<forall>c\<in>set t. \<not> is_ws c \<and> c \<noteq> quote_char \<Longrightarrow> closes t"
  using compact_plain [of t "[]"] by (simp add: closes_def compact_plain)

lemma closes_string: "str_ok k \<Longrightarrow> closes (quote_char # k @ [quote_char])"
  using compact_string [of k] by (auto simp: closes_def compact.simps [of False "quote_char # _"])

lemma compact_closes: "closes t \<Longrightarrow> compact False (t @ r) = compact False t @ compact False r"
  by (simp add: closes_def)

lemma number_plain: "takes scan_number t \<Longrightarrow> \<forall>c\<in>set t. \<not> is_ws c \<and> c \<noteq> quote_char"
  by (auto simp: takes_def list_all_iff num_char_def is_digit_def is_ws_def)

lemma compact_append:
  "closes t \<Longrightarrow> compact False (t @ c # r) = compact False t @ compact False (c # r)"
  "str_ok k \<Longrightarrow> \<exists>k'. str_ok k' \<and> (\<forall>r. compact False (quote_char # k @ quote_char # r) = quote_char # k' @ quote_char # compact False r)"
  using compact_string [of k] by (auto simp: closes_def compact.simps [of False "quote_char # _"])

text \<open>A compacted text is in the grammar again.\<close>

lemma compact_valid:
  "jvalue d t v \<Longrightarrow> closes t \<and> (\<exists>v'. jvalue d (compact False t) v')"
  "jelems d t vs \<Longrightarrow> closes t \<and> (\<exists>vs'. jelems d (compact False t) vs')"
  "jmembers d t ms \<Longrightarrow> closes t \<and> (\<exists>ms'. jmembers d (compact False t) ms')"
proof (induction rule: jvalue_jelems_jmembers.inducts)
  case (jstr l d)
  from compact_append(2) [OF jstr] obtain l' where l': "str_ok l'"
    "\<forall>r. compact False (quote_char # l @ quote_char # r) = quote_char # l' @ quote_char # compact False r" by blast
  then have "compact False (quote_char # l @ [quote_char]) = quote_char # l' @ [quote_char]" by simp
  with closes_string [OF jstr] jvalue_jelems_jmembers.jstr [OF l'(1)] show ?case by metis
next
  case (jtrue d)
  show ?case using compact_plain [of "''true''" "[]"] by (auto intro!: closes_plain intro: jvalue_jelems_jmembers.jtrue simp: is_ws_def)
next
  case (jfalse d)
  show ?case using compact_plain [of "''false''" "[]"] by (auto intro!: closes_plain intro: jvalue_jelems_jmembers.jfalse simp: is_ws_def)
next
  case (jnull d)
  show ?case using compact_plain [of "''null''" "[]"] by (auto intro!: closes_plain intro: jvalue_jelems_jmembers.jnull simp: is_ws_def)
next
  case (jnum t d)
  from number_plain [OF jnum(1)] compact_plain [of t "[]"] closes_plain [of t] jvalue_jelems_jmembers.jnum [OF jnum]
  show ?case by auto
next
  case (jarr0 w d)
  have "closes ([CHR ''[''] @ w @ '']'')" using jarr0 by (intro closes_append closes_ws closes_plain) simp_all
  moreover have "compact False (CHR ''['' # w @ '']'') = CHR ''['' # [] @ '']''" by (simp add: compact_Cons compact_ws jarr0)
  ultimately show ?case using jvalue_jelems_jmembers.jarr0 [of "[]" d] by auto
next
  case (jarr d t vs)
  then obtain vs' where c: "closes t" "jelems d (compact False t) vs'" by blast
  have "closes ([CHR ''[''] @ t @ '']'')" using c by (intro closes_append c(1) closes_plain) simp_all
  moreover have "compact False (CHR ''['' # t @ '']'') = CHR ''['' # compact False t @ '']''"
    by (simp add: compact_Cons compact_append c)
  ultimately show ?case using jvalue_jelems_jmembers.jarr [OF c(2)] by auto
next
  case (jobj0 w d)
  have "closes ([CHR ''{''] @ w @ ''}'')" using jobj0 by (intro closes_append closes_ws closes_plain) simp_all
  moreover have "compact False (CHR ''{'' # w @ ''}'') = CHR ''{'' # [] @ ''}''" by (simp add: compact_Cons compact_ws jobj0)
  ultimately show ?case using jvalue_jelems_jmembers.jobj0 [of "[]" d] by auto
next
  case (jobj d t ms)
  then obtain ms' where c: "closes t" "jmembers d (compact False t) ms'" by blast
  have "closes ([CHR ''{''] @ t @ ''}'')" using c by (intro closes_append c(1) closes_plain) simp_all
  moreover have "compact False (CHR ''{'' # t @ ''}'') = CHR ''{'' # compact False t @ ''}''"
    by (simp add: compact_Cons compact_append c)
  ultimately show ?case using jvalue_jelems_jmembers.jobj [OF c(2)] by auto
next
  case (jelem a d t v b)
  then obtain v' where c: "closes t" "jvalue d (compact False t) v'" by blast
  have "compact False (a @ t @ b) = [] @ compact False t @ []"
    using compact_ws [OF jelem.hyps(1)] compact_ws [OF jelem.hyps(3), of "[]"] by (simp add: compact_closes [OF c(1)])
  moreover have "closes (a @ t @ b)" using jelem.hyps by (intro closes_append c(1) closes_ws)
  ultimately show ?case using jvalue_jelems_jmembers.jelem [OF _ c(2), of "[]" "[]"] by auto
next
  case (jelem_cons a d t v b ts vs)
  then obtain v' vs' where c: "closes t" "jvalue d (compact False t) v'" "closes ts" "jelems d (compact False ts) vs'" by blast
  have "compact False (a @ t @ b @ CHR '','' # ts) = [] @ compact False t @ [] @ CHR '','' # compact False ts"
    by (simp add: compact_ws jelem_cons.hyps compact_closes [OF c(1)] compact_Cons)
  moreover have "closes (a @ t @ b @ '','' @ ts)"
    using jelem_cons.hyps by (intro closes_append c(1,3) closes_ws closes_plain) simp_all
  ultimately show ?case using jvalue_jelems_jmembers.jelem_cons [OF _ c(2) _ c(4), of "[]" "[]"] by auto
next
  case (jmember a k b c d t v e)
  then obtain v' where x: "closes t" "jvalue d (compact False t) v'" by blast
  from compact_append(2) [OF jmember.hyps(2)] obtain k' where k': "str_ok k'"
    "\<forall>r. compact False (quote_char # k @ quote_char # r) = quote_char # k' @ quote_char # compact False r" by blast
  have "compact False (a @ quote_char # k @ quote_char # b @ CHR '':'' # c @ t @ e)
      = [] @ quote_char # k' @ quote_char # [] @ CHR '':'' # [] @ compact False t @ []"
    using compact_ws [OF jmember.hyps(6), of "[]"]
    by (simp add: compact_ws jmember.hyps k'(2) compact_Cons compact_closes [OF x(1)])
  moreover have "closes (a @ (quote_char # k @ [quote_char]) @ b @ '':'' @ c @ t @ e)"
    using jmember.hyps by (intro closes_append x(1) closes_string closes_ws closes_plain) simp_all
  ultimately show ?case using jvalue_jelems_jmembers.jmember [OF _ k'(1) _ _ x(2), of "[]" "[]" "[]" "[]"] by auto
next
  case (jmember_cons a k b c d t v e ts ms)
  then obtain v' ms' where x: "closes t" "jvalue d (compact False t) v'" "closes ts" "jmembers d (compact False ts) ms'" by blast
  from compact_append(2) [OF jmember_cons.hyps(2)] obtain k' where k': "str_ok k'"
    "\<forall>r. compact False (quote_char # k @ quote_char # r) = quote_char # k' @ quote_char # compact False r" by blast
  have "compact False (a @ quote_char # k @ quote_char # b @ CHR '':'' # c @ t @ e @ CHR '','' # ts)
      = [] @ quote_char # k' @ quote_char # [] @ CHR '':'' # [] @ compact False t @ [] @ CHR '','' # compact False ts"
    by (simp add: compact_ws jmember_cons.hyps k'(2) compact_Cons compact_closes [OF x(1)])
  moreover have "closes (a @ (quote_char # k @ [quote_char]) @ b @ '':'' @ c @ t @ e @ '','' @ ts)"
    using jmember_cons.hyps by (intro closes_append x(1,3) closes_string closes_ws closes_plain) simp_all
  ultimately show ?case
    using jvalue_jelems_jmembers.jmember_cons [OF _ k'(1) _ _ x(2) _ x(4), of "[]" "[]" "[]" "[]"] by auto
qed

end
