(* ===== verification/JsonEncode.thy ===== *)
theory JsonEncode
  imports JsonGrammar GoFmt
begin

section \<open>JsonEncode: what the encoders write is JSON\<close>

text \<open>
  The texts of \<open>itoa\<close>, \<open>encode_float\<close>, \<open>quote_string\<close> and \<open>encode_jval\<close> are in the grammar of
  \<open>JsonGrammar\<close>, so that a client that parses them gets a value; an integer reads back as itself.
\<close>

subsection \<open>Numbers\<close>

definition exp_ok :: "bytes \<Rightarrow> bool" where
  "exp_ok e \<longleftrightarrow> e = [] \<or> (\<exists>sg ds. e = CHR ''e'' # sg @ ds \<and> sg \<in> {''+'', ''-''} \<and> ds \<noteq> [] \<and> list_all is_digit ds)"

definition frac_ok :: "bytes \<Rightarrow> bool" where
  "frac_ok f \<longleftrightarrow> f = [] \<or> (\<exists>ds. f = CHR ''.'' # ds \<and> ds \<noteq> [] \<and> list_all is_digit ds)"

definition int_ok :: "bytes \<Rightarrow> bool" where
  "int_ok ds \<longleftrightarrow> ds \<noteq> [] \<and> list_all is_digit ds \<and> (hd ds = CHR ''0'' \<longrightarrow> ds = ''0'')"

lemma not_digit_start: "exp_ok e \<Longrightarrow> e = [] \<or> \<not> is_digit (hd e)"
  "frac_ok f \<Longrightarrow> exp_ok e \<Longrightarrow> f @ e = [] \<or> \<not> is_digit (hd (f @ e))"
  by (auto simp: exp_ok_def frac_ok_def is_digit_def)

lemma all_digits: "list_all is_digit ds \<Longrightarrow> takeWhile is_digit ds = ds \<and> dropWhile is_digit ds = []"
  by (induction ds) simp_all

lemma scan_exp_all: "exp_ok e \<Longrightarrow> scan_exp e = Some (e, [])"
  by (auto simp: exp_ok_def scan_exp_def take_digits_def all_digits)

lemma scan_frac_all:
  assumes "frac_ok f" "exp_ok e" shows "scan_frac (f @ e) = Some (f @ e, [])"
proof (cases "f = []")
  case True
  have "scan_frac e = scan_exp e" using assms(2) by (auto simp: exp_ok_def scan_frac_def scan_exp_def)
  with True scan_exp_all [OF assms(2)] show ?thesis by simp
next
  case False
  then obtain ds where d: "f = CHR ''.'' # ds" "ds \<noteq> []" "list_all is_digit ds" using assms(1) by (auto simp: frac_ok_def)
  with digits_extend [OF not_digit_start(1) [OF assms(2)] d(3)] scan_exp_all [OF assms(2)] show ?thesis
    by (simp add: scan_frac_def take_digits_def)
qed

lemma scan_unsigned_all:
  assumes "int_ok ds" "frac_ok f" "exp_ok e" shows "scan_unsigned (ds @ f @ e) = Some (ds @ f @ e, [])"
proof (cases "hd ds = CHR ''0''")
  case True
  with assms scan_frac_all [OF assms(2,3)] show ?thesis by (auto simp: int_ok_def scan_unsigned_def)
next
  case False
  then obtain d r where d: "ds = d # r" "d \<noteq> CHR ''0''" "is_digit d" "list_all is_digit (d # r)"
    using assms(1) by (cases ds) (auto simp: int_ok_def)
  with digits_extend [OF not_digit_start(2) [OF assms(2,3)] d(4)] scan_frac_all [OF assms(2,3)] show ?thesis
    by (simp add: scan_unsigned_def take_digits_def)
qed

lemma jnum_parts:
  assumes "int_ok ds" "frac_ok f" "exp_ok e"
  shows "jvalue d (ds @ f @ e) (JNum (ds @ f @ e))" "jvalue d (CHR ''-'' # ds @ f @ e) (JNum (CHR ''-'' # ds @ f @ e))"
proof -
  obtain x r where ds: "ds = x # r" "is_digit x" using assms(1) by (cases ds) (auto simp: int_ok_def)
  then have x: "x \<noteq> CHR ''-''" by auto
  have "scan_number (ds @ f @ e) = Some (ds @ f @ e, [])" "scan_number (CHR ''-'' # ds @ f @ e) = Some (CHR ''-'' # ds @ f @ e, [])"
    using scan_unsigned_all [OF assms] x ds(1) by (simp_all add: scan_number_def)
  from this [THEN takes_number] show "jvalue d (ds @ f @ e) (JNum (ds @ f @ e))"
    "jvalue d (CHR ''-'' # ds @ f @ e) (JNum (CHR ''-'' # ds @ f @ e))"
    by (auto intro: jnum)
qed

lemma digit_zero: "n < 10 \<Longrightarrow> digit n = CHR ''0'' \<longleftrightarrow> n = 0"
  by (simp add: digit_def char_of_eq_iff take_bit_eq_mod)

lemma hd_digits: "hd (digits n) = CHR ''0'' \<longleftrightarrow> n = 0"
proof (induction n rule: digits.induct)
  case (1 n)
  then show ?case by (cases "n < 10") (simp_all add: digits.simps [of n] digit_zero)
qed

lemma int_ok_digits [simp]: "int_ok (digits n)"
  using set_digits [of _ n] by (auto simp: int_ok_def hd_digits list_all_iff digits.simps [of 0] digit_zero)

lemma parts_nil [simp]: "frac_ok []" "exp_ok []"
  by (simp_all add: frac_ok_def exp_ok_def)

lemma itoa_json: "jvalue d (itoa n) (JNum (itoa n))"
  using jnum_parts [OF int_ok_digits parts_nil, of d] by (simp add: itoa_def)

lemma ParseInt_itoa [simp]: "in_int64 n \<Longrightarrow> ParseInt (itoa n) = Some n"
proof -
  assume n: "in_int64 n"
  have d: "list_all is_digit (digits k)" for k using set_digits by (auto simp: list_all_iff)
  show ?thesis
  proof (cases "n < 0")
    case True
    with n d show ?thesis by (simp add: ParseInt_def itoa_def)
  next
    case False
    obtain x r where x: "digits (nat n) = x # r" by (cases "digits (nat n)") auto
    with d [of "nat n"] have "is_digit x" by simp
    then have "x \<noteq> CHR ''-''" by auto
    with x False n d [of "nat n"] undigits_digits [of "nat n"] show ?thesis by (simp add: ParseInt_def itoa_def)
  qed
qed

subsection \<open>Floats\<close>

text \<open>The decimal exponent is not too large, so that the digits are never all zero.\<close>

lemma exp10_lower: "(1 / 10) ^ f \<le> x \<Longrightarrow> 10 powi (exp10 f x - 1) \<le> x"
proof (induction f arbitrary: x)
  case (Suc f)
  have pos: "(0::rat) < (1 / 10) ^ f" by simp
  consider "10 \<le> x" | "x < 1" | "1 \<le> x" "x < 10" by linarith
  then show ?case
  proof cases
    case 1
    have "(1 / 10 :: rat) ^ f \<le> 1" by (simp add: power_le_one)
    with 1 have "(1 / 10) ^ f \<le> x / 10" by simp
    from Suc.IH [OF this] have "10 * 10 powi (exp10 f (x / 10) - 1) \<le> x" by simp
    moreover have "10 * 10 powi (exp10 f (x / 10) - 1) = (10 :: rat) powi exp10 f (x / 10)" by (simp add: power_int_diff)
    ultimately show ?thesis using 1 by simp
  next
    case 2
    have "(1 / 10) ^ f \<le> x * 10" using Suc.prems by simp
    from Suc.IH [OF this] have "10 powi (exp10 f (x * 10) - 1) / 10 \<le> x" by simp
    moreover have "10 powi (exp10 f (x * 10) - 1 - 1) = (10 :: rat) powi (exp10 f (x * 10) - 1) / 10" using power_int_diff [of "10::rat" "exp10 f (x * 10) - 1" 1] by simp
    ultimately have "10 powi (exp10 f (x * 10) - 1 - 1) \<le> x" by simp
    with 2 show ?thesis by simp
  qed simp
qed simp

lemma scale10_one: "scale10 1 k = 10 powi k"
  by (simp add: scale10_def power_int_def field_simps)

lemma decimal_at_pos: "0 < x \<Longrightarrow> decimal_at x e n = Some (d, k) \<Longrightarrow> 0 < d"
proof -
  assume x: "0 < x" and r: "decimal_at x e n = Some (d, k)"
  let ?y = "x / scale10 1 (e - int n)"
  have "0 \<le> ?y" using x by (simp add: scale10_one)
  then have "0 \<le> \<lfloor>?y\<rfloor>" "0 \<le> round_half_even ?y" using round_half_even_ge [of 0 ?y] by simp_all
  with r have "0 \<le> d" "rnd64 (scale10 d k) = Fin x" by (auto simp: decimal_at_def Let_def split: if_splits)
  moreover have "rnd64 (scale10 0 k) = Fin 0" by (simp add: scale10_def)
  ultimately show "0 < d" using x by (cases "d = 0") auto
qed

lemma shortest_from_pos:
  assumes "0 < x" "10 powi (e - 1) \<le> x" shows "0 < fst (shortest_from x e f n)"
proof (induction f arbitrary: n)
  case 0
  have "(1 :: rat) = 10 powi (e - 17) / 10 powi (e - 17)" by simp
  also have "\<dots> \<le> x / 10 powi (e - 17)"
    using assms(2) power_int_increasing [of "e - 17" "e - 1" "10::rat"] by (intro divide_right_mono) simp_all
  finally have "1 \<le> round_half_even (x / scale10 1 (e - 17))" using round_half_even_ge [of 1] by (simp add: scale10_one)
  then show ?case by simp
next
  case (Suc f)
  then show ?case using decimal_at_pos [OF assms(1)] by (auto split: option.split)
qed

lemma strip_zeros_pos: "0 < d \<Longrightarrow> 0 < fst (strip_zeros f d k)"
  by (induction f d k rule: strip_zeros.induct) auto

lemma digit_lists [simp]: "list_all is_digit (digits n)" "list_all is_digit (replicate k CHR ''0'')"
  using set_digits by (auto simp: list_all_iff)

lemma list_all_take_drop: "list_all P xs \<Longrightarrow> list_all P (take n xs)" "list_all P xs \<Longrightarrow> list_all P (drop n xs)"
  "list_all P xs \<Longrightarrow> list_all P (tl xs)"
  by (auto simp: list_all_iff dest: in_set_takeD in_set_dropD) (metis list.sel(2) list.set_sel(2))

lemma int_ok_zero [simp]: "int_ok ''0''"
  by (simp add: int_ok_def)

lemma format_f_json: "0 < n \<Longrightarrow> \<exists>ds f. format_f n k = ds @ f \<and> int_ok ds \<and> frac_ok f"
proof -
  assume n: "0 < n"
  let ?d = "digits (nat n)"
  let ?p = "int (length ?d) + k"
  have hd: "hd ?d \<noteq> CHR ''0''" using n by (simp add: hd_digits)
  consider "0 \<le> k" | "k < 0" "0 < ?p" | "k < 0" "?p \<le> 0" by linarith
  then show ?thesis
  proof cases
    case 1
    with hd show ?thesis
      by (intro exI [of _ "?d @ replicate (nat k) CHR ''0''"] exI [of _ "[]"]) (simp add: format_f_def int_ok_def)
  next
    case 2
    then have "take (nat ?p) ?d \<noteq> []" "drop (nat ?p) ?d \<noteq> []" by auto
    with 2 hd show ?thesis
      by (intro exI [of _ "take (nat ?p) ?d"] exI [of _ "CHR ''.'' # drop (nat ?p) ?d"])
        (simp add: format_f_def int_ok_def frac_ok_def list_all_take_drop Let_def hd_take)
  next
    case 3
    then show ?thesis
      by (intro exI [of _ "''0''"] exI [of _ "CHR ''.'' # replicate (nat (- ?p)) CHR ''0'' @ ?d"])
        (simp add: format_f_def frac_ok_def Let_def)
  qed
qed

lemma format_e_json: "0 < n \<Longrightarrow> \<exists>ds f e. format_e n k = ds @ f @ e \<and> int_ok ds \<and> frac_ok f \<and> exp_ok e"
proof -
  assume n: "0 < n"
  let ?d = "digits (nat n)"
  obtain c r where d: "?d = c # r" by (cases ?d) auto
  have c: "is_digit c" "list_all is_digit r" using digit_lists(1) [of "nat n"] unfolding d by simp_all
  let ?x = "int (length ?d) + k - 1"
  let ?e = "CHR ''e'' # (if ?x < 0 then ''-'' else ''+'') @ digits (nat \<bar>?x\<bar>)"
  have "exp_ok (CHR ''e'' # sg @ digits m)" if "sg \<in> {''+'', ''-''}" for sg m
    unfolding exp_ok_def using that by (intro disjI2 exI [of _ sg] exI [of _ "digits m"]) simp
  then have "exp_ok ?e" by simp
  moreover have "frac_ok (if r = [] then [] else CHR ''.'' # r)" using c by (simp add: frac_ok_def)
  moreover have "int_ok [c]" using c by (simp add: int_ok_def)
  moreover have "format_e n k = [c] @ (if r = [] then [] else CHR ''.'' # r) @ ?e" using d by (simp add: format_e_def Let_def)
  ultimately show ?thesis by metis
qed

text \<open>Every double but zero is at least \<open>2^-1074\<close> in magnitude.\<close>

definition dbl :: "f64 \<Rightarrow> bool" where
  "dbl f \<longleftrightarrow> (\<forall>q. f = Fin q \<longrightarrow> q = 0 \<or> (1 / 10) ^ 400 \<le> \<bar>q\<bar>)"

lemma encode_float_json:
  assumes "encode_float f = Some t" "dbl f" shows "jvalue d t (JNum t)"
proof -
  obtain q where q: "f = Fin q" using assms(1) by (auto simp: encode_float_def split: f64.splits)
  show ?thesis
  proof (cases "q = 0")
    case True
    with assms(1) q jnum_parts(1) [OF int_ok_zero parts_nil, of d] show ?thesis by (simp add: encode_float_def)
  next
    case False
    obtain d0 k0 where s: "shortest \<bar>q\<bar> = (d0, k0)" by fastforce
    obtain d1 k1 where z: "strip_zeros 20 d0 k0 = (d1, k1)" by fastforce
    have "0 < fst (shortest \<bar>q\<bar>)"
      unfolding shortest_def using False assms(2) q by (intro shortest_from_pos exp10_lower) (auto simp: dbl_def)
    then have d1: "0 < d1" using strip_zeros_pos [of d0 20 k0] s z by simp
    define x where "x = (if \<bar>q\<bar> < 1 / 10 ^ 6 \<or> 10 ^ 21 \<le> \<bar>q\<bar> then format_e d1 k1 else format_f d1 k1)"
    have t: "t = (if q < 0 then CHR ''-'' # x else x)"
      using assms(1) unfolding q encode_float_def f64.case Let_def s z prod.case x_def by (simp only: False if_False option.inject)
    have "\<exists>ds f e. x = ds @ f @ e \<and> int_ok ds \<and> frac_ok f \<and> exp_ok e"
      using format_e_json [OF d1, of k1] format_f_json [OF d1, of k1] unfolding x_def by (metis append_Nil2 parts_nil(2))
    with jnum_parts t show ?thesis by (metis (full_types))
  qed
qed

subsection \<open>Strings, objects and arrays\<close>

lemma str_ok_escape: "str_ok (escape_string k)"
proof (induction k rule: escape_string.induct)
  case (1 s)
  show ?case
  proof (cases s)
    case Nil then show ?thesis by (simp add: escape_string.simps [of "[]"] str_ok.str_nil)
  next
    case (Cons c s1)
    show ?thesis
    proof (cases "(of_char c :: nat) < 128")
      case True
      with 1(1) [OF Cons True] str_ok_escape_ascii [OF True] show ?thesis
        by (simp add: Cons escape_string.simps [of "c # s1"])
    next
      case hi: False
      show ?thesis
      proof (cases "utf8_len s = 0")
        case True
        with 1(2) [OF Cons hi refl] Cons hi show ?thesis
          by (simp add: escape_string.simps [of "c # s1"] str_ok_u_escape)
      next
        case len: False
        have rest: "str_ok (escape_string (drop (utf8_len s) s))" using 1(3) [OF Cons hi refl] len by simp
        have esc: "escape_string s = (case line_sep s of Some r \<Rightarrow> u_escape r | None \<Rightarrow> take (utf8_len s) s) @ escape_string (drop (utf8_len s) s)"
          using hi len unfolding Cons by (subst escape_string.simps) (simp add: Let_def)
        have "\<forall>x\<in>set (take (utf8_len s) s). 128 \<le> (of_char x :: nat)" using utf8_high [of c s1] hi len Cons by simp
        with esc rest str_ok_high_append line_sep_unquote str_ok_u_escape show ?thesis
          by (cases "line_sep s") (simp_all)
      qed
    qed
  qed
qed

lemma quote_string_json: "jvalue d (quote_string k) (JStr (escape_string k))"
  using jstr [OF str_ok_escape] by (simp add: quote_string_def)

text \<open>What an encoder writes for an object: its members joined by commas.\<close>

lemma jmembers_join:
  assumes "\<forall>(k, t, v)\<in>set ms. str_ok k \<and> jvalue d t v" "ms \<noteq> []"
  shows "jmembers d (join_comma (map (\<lambda>(k, t, v). quote_char # k @ quote_char # CHR '':'' # t) ms)) ms"
  using assms
proof (induction ms)
  case (Cons x ms)
  obtain k t v where x: "x = (k, t, v)" by (cases x)
  with Cons.prems have k: "str_ok k" "jvalue d t v" by auto
  show ?case
  proof (cases ms)
    case Nil
    with jmember [of "[]" k "[]" "[]" d t v "[]"] k x show ?thesis by simp
  next
    case (Cons y u)
    with Cons.IH Cons.prems have "jmembers d (join_comma (map (\<lambda>(k, t, v). quote_char # k @ quote_char # CHR '':'' # t) ms)) ms" by auto
    with jmember_cons [of "[]" k "[]" "[]" d t v "[]"] k x Cons show ?thesis by simp
  qed
qed simp

lemma jelems_join:
  assumes "\<forall>(t, v)\<in>set vs. jvalue d t v" "vs \<noteq> []"
  shows "jelems d (join_comma (map fst vs)) vs"
  using assms
proof (induction vs)
  case (Cons x vs)
  obtain t v where x: "x = (t, v)" by (cases x)
  with Cons.prems have k: "jvalue d t v" by auto
  show ?case
  proof (cases vs)
    case Nil
    with jelem [of "[]" d t v "[]"] k x show ?thesis by simp
  next
    case (Cons y u)
    with Cons.IH Cons.prems have "jelems d (join_comma (map fst vs)) vs" by auto
    with jelem_cons [of "[]" d t v "[]"] k x Cons show ?thesis by simp
  qed
qed simp

lemma object_json:
  assumes "\<forall>(k, t, v)\<in>set ms. str_ok k \<and> jvalue d t v"
  shows "jvalue (Suc d) (CHR ''{'' # join_comma (map (\<lambda>(k, t, v). quote_char # k @ quote_char # CHR '':'' # t) ms) @ ''}'') (JObj ms)"
  using jobj [OF jmembers_join [OF assms]] jobj0 [of "[]" d] by (cases "ms = []") simp_all

lemma array_json:
  assumes "\<forall>(t, v)\<in>set vs. jvalue d t v"
  shows "jvalue (Suc d) (CHR ''['' # join_comma (map fst vs) @ '']'') (JArr vs)"
  using jarr [OF jelems_join [OF assms]] jarr0 [of "[]" d] by (cases "vs = []") simp_all

text \<open>A text that is a value with at most \<open>d\<close> levels of nesting.\<close>

definition json_text :: "nat \<Rightarrow> bytes \<Rightarrow> bool" where
  "json_text d t \<longleftrightarrow> (\<exists>v. jvalue d t v)"

lemma json_text_mono: "json_text d t \<Longrightarrow> d \<le> d' \<Longrightarrow> json_text d' t"
  unfolding json_text_def by (blast intro: jvalue_mono(1))

lemma json_text_leaf [simp]: "json_text d (itoa n)" "json_text d (quote_string k)" "json_text d ''null''"
  using itoa_json quote_string_json jnull unfolding json_text_def by blast+

lemma json_text_float: "encode_float f = Some t \<Longrightarrow> dbl f \<Longrightarrow> json_text d t"
  unfolding json_text_def using encode_float_json by blast

lemma json_text_members:
  assumes "\<forall>(k, t)\<in>set ms. json_text d t"
  shows "json_text (Suc d) (CHR ''{'' # join_comma (map (\<lambda>(k, t). quote_string k @ CHR '':'' # t) ms) @ ''}'')"
proof -
  from assms have "\<exists>f. \<forall>(k, t)\<in>set ms. jvalue d t (f t)" unfolding json_text_def by (intro exI [of _ "\<lambda>t. SOME v. jvalue d t v"]) (auto intro: someI)
  then obtain f where f: "\<forall>(k, t)\<in>set ms. jvalue d t (f t)" by blast
  have "\<forall>(k, t, v)\<in>set (map (\<lambda>(k, t). (escape_string k, t, f t)) ms). str_ok k \<and> jvalue d t v"
    using f str_ok_escape by auto
  from object_json [OF this] show ?thesis
    unfolding json_text_def by (auto simp: comp_def case_prod_unfold quote_string_def)
qed

lemma json_text_array:
  assumes "\<forall>t\<in>set ts. json_text d t" shows "json_text (Suc d) (CHR ''['' # join_comma ts @ '']'')"
proof -
  from assms have "\<exists>f. \<forall>t\<in>set ts. jvalue d t (f t)" unfolding json_text_def by (intro exI [of _ "\<lambda>t. SOME v. jvalue d t v"]) (auto intro: someI)
  then obtain f where f: "\<forall>t\<in>set ts. jvalue d t (f t)" by blast
  then have "\<forall>(t, v)\<in>set (map (\<lambda>t. (t, f t)) ts). jvalue d t v" by auto
  from array_json [OF this] show ?thesis unfolding json_text_def by (auto simp: comp_def)
qed

lemma jvalue_parses: "jvalue d t v \<Longrightarrow> d \<le> max_depth \<Longrightarrow> parse_json t = Some v"
  unfolding parse_json_iff
  by (rule exI [of _ "[]"], rule exI [of _ t], rule exI [of _ "[]"]) (simp add: jvalue_mono(1))

end
