(* ===== verification/Inject.thy ===== *)
theory Inject
  imports JsonGrammar Proxy
begin

section \<open>Inject: what the gateway changes in a request\<close>

text \<open>
  \<open>maybeInjectUsage\<close> decodes the request into a map of raw values, adds
  \<open>stream_options.include_usage\<close> and encodes it again: keys are unquoted, sorted and quoted, values are
  compacted. With the grammar of \<open>JsonGrammar\<close> this file shows that the provider decodes the same request.
\<close>

subsection \<open>Compacting twice\<close>

lemma hex_compact: "is_hex h \<Longrightarrow> compact True (h # s) = h # compact True s"
proof -
  assume "is_hex h"
  then have "h \<noteq> quote_char" "h \<noteq> backslash" "\<not> html_char h" "h \<noteq> CHR 0xE2"
    by (auto simp: is_hex_def html_char_def)
  then show ?thesis by (simp add: compact.simps [of True "h # s"] line_sep_def)
qed

lemma compact_escape: "compact True (backslash # e # s) = backslash # e # compact True s"
  by (simp add: compact.simps [of True "backslash # e # s"])

lemma compact_u_escape: "n < 65536 \<Longrightarrow> compact True (u_escape n @ s) = u_escape n @ compact True s"
  by (simp add: u_escape_def compact_escape hex_compact hex_digit_ok less_mult_imp_div_less)

lemma u_escape_start: "u_escape n @ s = backslash # tl (u_escape n @ s)"
  by (simp add: u_escape_def)

lemma html_not: "\<not> html_char quote_char" "\<not> html_char backslash"
  by (simp_all add: html_char_def)

text \<open>A byte beyond ASCII that compacting puts out was there.\<close>

lemma compact_high:
  assumes "compact True s = x # t" "128 \<le> (of_char x :: nat)"
  shows "\<exists>u. s = x # u \<and> t = compact True u"
proof (cases s)
  case Nil with assms show ?thesis by simp
next
  case (Cons c u)
  have bs: "x \<noteq> backslash" "x \<noteq> quote_char" using assms(2) by auto
  show ?thesis
    using assms(1) bs u_escape_start unfolding Cons compact.simps [of True "c # u"]
    by (auto simp: u_escape_def split: if_splits list.splits option.splits)
qed

lemma line_sep_compact: "line_sep (c # s) = None \<Longrightarrow> line_sep (c # compact True s) = None"
proof (rule ccontr)
  assume n: "line_sep (c # s) = None" and "line_sep (c # compact True s) \<noteq> None"
  then obtain r where "line_sep (c # compact True s) = Some r" by blast
  then obtain x where x: "c = CHR 0xE2" "take 2 (compact True s) = [CHR 0x80, x]" "x = CHR 0xA8 \<or> x = CHR 0xA9"
    by (auto elim!: line_sep_cases)
  then obtain t where t: "compact True s = CHR 0x80 # x # t"
    using append_take_drop_id [of 2 "compact True s"] by (metis append_Cons append_Nil)
  from compact_high [OF t] obtain u where u: "s = CHR 0x80 # u" "x # t = compact True u" by auto
  have "128 \<le> (of_char x :: nat)" using x(3) by auto
  from compact_high [OF u(2) [symmetric] this] obtain w where "u = x # w" by blast
  with u n x show False by (auto simp: line_sep_def)
qed

lemma compact_idem: "compact b (compact b s) = compact b s"
proof (induction b s rule: compact.induct)
  case (1 b s)
  show ?case
  proof (cases s)
    case Nil then show ?thesis by simp
  next
    case (Cons c s1)
    note IH = 1 [OF Cons]
    show ?thesis
    proof (cases b)
      case False
      show ?thesis
      proof (cases "is_ws c")
        case True with IH(1) False Cons show ?thesis by (simp add: compact.simps [of False "c # s1"])
      next
        case nws: False
        with IH(2) False Cons show ?thesis by (simp add: compact.simps [of False "c # _"])
      qed
    next
      case b: True
      consider "c = quote_char" | "c = backslash" | "c \<noteq> quote_char" "c \<noteq> backslash" "html_char c"
        | r where "c \<noteq> quote_char" "c \<noteq> backslash" "\<not> html_char c" "line_sep s = Some r"
        | "c \<noteq> quote_char" "c \<noteq> backslash" "\<not> html_char c" "line_sep s = None"
        by (cases "line_sep s") auto
      then show ?thesis
      proof cases
        case 1 with IH(3) b Cons show ?thesis by (simp add: compact.simps [of True "quote_char # _"])
      next
        case 2
        show ?thesis
        proof (cases s1)
          case Nil with 2 b Cons show ?thesis by (simp add: compact.simps [of True "[backslash]"])
        next
          case s1: (Cons e s2)
          with IH(4) [OF _ _ 2 s1] 2 b Cons show ?thesis by (simp add: compact_escape)
        qed
      next
        case 3
        have "compact True s = u_escape (of_char c) @ compact True s1"
          using 3 Cons by (simp add: compact.simps [of True "c # s1"])
        moreover have "(of_char c :: nat) < 65536" using 3(3) by (auto simp: html_char_def)
        ultimately show ?thesis using IH(5) 3 b by (simp add: compact_u_escape)
      next
        case 4
        have "compact True s = u_escape r @ compact True (drop 3 s)"
          using 4 Cons by (simp add: compact.simps [of True "c # s1"])
        moreover have "r < 65536" using line_sep_unquote [OF 4(4)] by blast
        ultimately show ?thesis using IH(7) [OF _ _ _ _ 4(4)] 4 b by (simp add: compact_u_escape)
      next
        case 5
        have "compact True s = c # compact True s1"
          using 5 Cons by (simp add: compact.simps [of True "c # s1"])
        moreover have "line_sep (c # compact True s1) = None" using line_sep_compact 5(4) Cons by simp
        ultimately show ?thesis using IH(6) 5 b by (simp add: compact.simps [of True "c # compact True s1"])
      qed
    qed
  qed
qed

subsection \<open>Quoted strings are compact\<close>

lemma compact_escape_ascii:
  assumes "(of_char c :: nat) < 128" shows "compact True (escape_ascii c @ s) = escape_ascii c @ compact True s"
proof (cases "escape_ascii c = [c] \<and> html_char c")
  case True
  then have "escape_ascii c = u_escape (of_char c)" by (auto simp: escape_ascii_def html_char_def)
  with assms show ?thesis by (simp add: compact_u_escape)
next
  case False
  from escape_ascii_cases [OF assms] show ?thesis
  proof cases
    case 1
    have "c \<noteq> CHR 0xE2" using assms by auto
    with 1 False show ?thesis by (simp add: compact.simps [of True "c # s"] line_sep_def)
  next
    case 2 then show ?thesis by (simp add: compact_escape)
  next
    case 3 with assms show ?thesis by (simp add: compact_u_escape)
  qed
qed

text \<open>The bytes after the first of a character are continuation bytes.\<close>

lemma utf8_tail: "\<forall>x\<in>set (tl (take (utf8_len s) s)). 128 \<le> (of_char x :: nat) \<and> (of_char x :: nat) \<le> 191"
proof (cases s)
  case (Cons a r)
  have low: "in_range 0x80 b x \<Longrightarrow> 128 \<le> (of_char x :: nat)" "in_range 0x90 b x \<Longrightarrow> 128 \<le> (of_char x :: nat)"
    "in_range 0xA0 b x \<Longrightarrow> 128 \<le> (of_char x :: nat)" "in_range b 0xBF x \<Longrightarrow> (of_char x :: nat) \<le> 191"
    "in_range b 0x9F x \<Longrightarrow> (of_char x :: nat) \<le> 191" "in_range b 0x8F x \<Longrightarrow> (of_char x :: nat) \<le> 191" for b x
    by (simp_all add: in_range_def)
  let ?P = "\<lambda>n. \<forall>x\<in>set (tl (take n (a # r))). 128 \<le> (of_char x :: nat) \<and> (of_char x :: nat) \<le> 191"
  have A: "?P (case r of b # _ \<Rightarrow> if in_range 0x80 0xBF b then 2 else 0 | _ \<Rightarrow> 0)"
    by (auto split: list.split dest: low)
  have B: "?P (case r of x # y # _ \<Rightarrow> if in_range (if p then 0xA0 else 0x80) (if q then 0x9F else 0xBF) x \<and> in_range 0x80 0xBF y then 3 else 0
             | _ \<Rightarrow> 0)" for p q
    by (cases p; cases q) (auto split: list.split dest: low)
  have C: "?P (case r of x # y # z # _ \<Rightarrow>
               if in_range (if p then 0x90 else 0x80) (if q then 0x8F else 0xBF) x \<and> in_range 0x80 0xBF y \<and> in_range 0x80 0xBF z then 4 else 0
             | _ \<Rightarrow> 0)" for p q
    by (cases p; cases q) (auto split: list.split dest: low)
  show ?thesis unfolding Cons utf8_len_def list.case using A B C by (simp split: if_split)
qed simp

lemma compact_continuation:
  "\<forall>x\<in>set a. 128 \<le> (of_char x :: nat) \<and> (of_char x :: nat) \<le> 191 \<Longrightarrow> compact True (a @ s) = a @ compact True s"
proof (induction a)
  case (Cons x a)
  have "x \<noteq> quote_char" "x \<noteq> backslash" "\<not> html_char x" "x \<noteq> CHR 0xE2" using Cons.prems by (auto simp: html_char_def)
  with Cons show ?case by (simp add: compact.simps [of True "x # _"] line_sep_def)
qed simp

lemma line_sep_take: "take 3 a = take 3 b \<Longrightarrow> line_sep a = line_sep b"
  by (simp add: line_sep_def)

lemma compact_quoted: "utf8_ok k \<Longrightarrow> compact True (escape_string k @ quote_char # r) = escape_string k @ quote_char # compact False r"
proof (induction rule: utf8_ok.induct)
  case utf8_nil
  show ?case by (simp add: escape_string.simps [of "[]"] compact.simps [of True "quote_char # r"])
next
  case (utf8_char s)
  then obtain c s1 where s: "s = c # s1" by (cases s) (simp_all add: utf8_len_def)
  let ?n = "utf8_len s"
  let ?t = "escape_string (drop ?n s) @ quote_char # r"
  show ?case
  proof (cases "(of_char c :: nat) < 128")
    case True
    with utf8_char.IH show ?thesis
      by (simp add: s escape_string.simps [of "c # s1"] utf8_len_ascii compact_escape_ascii)
  next
    case hi: False
    have esc: "escape_string s = (case line_sep s of Some r \<Rightarrow> u_escape r | None \<Rightarrow> take ?n s) @ escape_string (drop ?n s)"
      using hi utf8_char.hyps(1) unfolding s by (subst escape_string.simps) (simp add: Let_def)
    show ?thesis
    proof (cases "line_sep s")
      case (Some x)
      with line_sep_unquote [OF Some] utf8_char.IH show ?thesis by (simp add: esc compact_u_escape)
    next
      case None
      obtain y where y: "take ?n s = c # y" using utf8_char.hyps(1) s by (cases ?n) simp_all
      have tail: "\<forall>x\<in>set y. 128 \<le> (of_char x :: nat) \<and> (of_char x :: nat) \<le> 191" using utf8_tail [of s] y by simp
      have "line_sep (c # y @ ?t) = None"
      proof (rule ccontr)
        assume "line_sep (c # y @ ?t) \<noteq> None"
        then obtain x where x: "line_sep (c # y @ ?t) = Some x" by blast
        from line_sep_unquote [OF x] have "utf8_len (take ?n s @ ?t) = 3" by (simp add: y)
        then have n: "?n = 3" using utf8_len_take [OF utf8_char.hyps(1)] by simp
        moreover have "?n \<le> length s" using utf8_len_props [OF utf8_char.hyps(1)] by blast
        ultimately have "take 3 (c # y @ ?t) = take 3 s" using arg_cong [OF y, of "\<lambda>u. take 3 (u @ ?t)"] by simp
        then have "line_sep s = Some x" using x line_sep_take by metis
        with None show False by simp
      qed
      moreover have "c \<noteq> quote_char" "c \<noteq> backslash" "\<not> html_char c" using hi by (auto simp: html_char_def)
      ultimately have "compact True (c # y @ ?t) = c # y @ compact True ?t"
        using compact_continuation [OF tail, of ?t] by (simp add: compact.simps [of True "c # _"])
      with None utf8_char.IH show ?thesis by (simp add: esc y)
    qed
  qed
qed

lemma compact_quote_string: "utf8_ok k \<Longrightarrow> compact False (quote_string k @ r) = quote_string k @ compact False r"
  by (simp add: quote_string_def compact.simps [of False "quote_char # _"] compact_quoted)

subsection \<open>Maps of raw values\<close>

text \<open>What \<open>json.Unmarshal\<close> puts in a \<open>map[string]json.RawMessage\<close>: distinct keys in UTF-8 and texts of values.\<close>

definition map_ok :: "nat \<Rightarrow> (bytes \<times> bytes) list \<Rightarrow> bool" where
  "map_ok d m \<longleftrightarrow> distinct (map fst m) \<and> (\<forall>(k, r)\<in>set m. utf8_ok k \<and> (\<exists>v. jvalue d r v))"

definition keymap :: "(bytes \<times> bytes) list \<Rightarrow> (bytes \<times> bytes \<times> json) list \<Rightarrow> (bytes \<times> bytes) list" where
  "keymap = foldl (\<lambda>m (k, r, v). AList.update (unquote k) r m)"

lemma map_ok_update: "map_ok d m \<Longrightarrow> utf8_ok k \<Longrightarrow> jvalue d r v \<Longrightarrow> map_ok d (AList.update k r m)"
proof -
  assume a: "map_ok d m" "utf8_ok k" "jvalue d r v"
  have "set (AList.update k r m) \<subseteq> insert (k, r) (set m)" by (induction m) auto
  with a show ?thesis unfolding map_ok_def by (fastforce simp: distinct_update)
qed

lemma map_ok_keymap:
  "map_ok d m \<Longrightarrow> \<forall>(k, r, v)\<in>set ms. str_ok k \<and> jvalue d r v \<Longrightarrow> map_ok d (keymap m ms)"
  unfolding keymap_def
proof (induction ms arbitrary: m)
  case (Cons x ms)
  then show ?case by (cases x) (auto intro!: Cons.IH map_ok_update utf8_ok_unquote)
qed simp

lemma jmembers_ok: "jmembers d t ms \<Longrightarrow> \<forall>(k, r, v)\<in>set ms. str_ok k \<and> jvalue d r v"
  by (induction rule: jvalue_jelems_jmembers.inducts(3) [where ?P1.0 = "\<lambda>_ _ _. True" and ?P2.0 = "\<lambda>_ _ _. True"]) auto

lemma map_of_keymap: "map_of (keymap m ms) = map_of m ++ map_of (rev (map (\<lambda>(k, r, v). (unquote k, r)) ms))"
  unfolding keymap_def
proof (induction ms arbitrary: m)
  case (Cons x ms)
  then show ?case by (cases x) (auto simp: fun_eq_iff map_add_def update_conv' split: option.splits)
qed simp

lemma Unmarshal_object:
  assumes "jvalue (Suc d) r (JObj ms)" "Suc d \<le> max_depth"
  shows "Unmarshal dec_map r None = (Some (keymap [] ms), True)"
proof -
  have "parse_json r = Some (JObj ms)"
    unfolding parse_json_iff by (rule exI [of _ "[]"], rule exI [of _ r], rule exI [of _ "[]"]) (simp add: jvalue_mono(1) [OF assms])
  then show ?thesis by (simp add: Unmarshal_def dec_map_def keymap_def)
qed

lemma object_members: "jvalue d r (JObj ms) \<Longrightarrow> \<exists>d'. d = Suc d' \<and> map_ok d' (keymap [] ms)"
proof (cases d)
  case 0
  assume "jvalue d r (JObj ms)"
  with 0 show ?thesis by (auto elim: jvalue.cases)
next
  case (Suc d')
  assume "jvalue d r (JObj ms)"
  then have "\<forall>(k, r, v)\<in>set ms. str_ok k \<and> jvalue d' r v" unfolding Suc jvalue_JObj_iff by (auto dest: jmembers_ok)
  with Suc map_ok_keymap [of d' "[]" ms] show ?thesis by (simp add: map_ok_def)
qed

lemma Unmarshal_map_ok:
  assumes "Unmarshal dec_map s None = (Some m, True)" shows "map_ok (max_depth - 1) m"
proof -
  from assms obtain ms where p: "parse_json s = Some (JObj ms)" and m: "m = keymap [] ms"
    by (auto simp: Unmarshal_def dec_map_def keymap_def split: option.splits json.splits)
  from p obtain t where "jvalue max_depth t (JObj ms)" unfolding parse_json_iff by blast
  from object_members [OF this] m show ?thesis by (metis diff_Suc_1)
qed

lemma Unmarshal_raw_ok:
  assumes "Unmarshal dec_map r None = (Some m, True)" "jvalue d r v" "d \<le> max_depth"
  shows "\<exists>d'. d = Suc d' \<and> map_ok d' m"
proof -
  have "parse_json r = Some v"
    unfolding parse_json_iff by (rule exI [of _ "[]"], rule exI [of _ r], rule exI [of _ "[]"]) (simp add: jvalue_mono(1) [OF assms(2,3)])
  with assms(1) obtain ms where "v = JObj ms" "m = keymap [] ms"
    by (auto simp: Unmarshal_def dec_map_def keymap_def split: json.splits)
  with object_members [of d r ms] assms(2) show ?thesis by simp
qed

subsection \<open>Marshalling a map\<close>

lemma sort_key_map:
  assumes "distinct (map fst m)"
  shows "distinct (map fst (sort_key fst m))" "map_of (sort_key fst m) = map_of m"
proof -
  show d: "distinct (map fst (sort_key fst m))"
    using assms by (simp add: distinct_map)
  show "map_of (sort_key fst m) = map_of m" using map_of_inject_set [OF d assms] by simp
qed

lemma map_of_rev: "distinct (map fst m) \<Longrightarrow> map_of (rev m) = map_of m"
  by (subst map_of_inject_set) (simp_all add: rev_map [symmetric])

lemma members_text:
  assumes "\<forall>(k, r)\<in>set m. utf8_ok k \<and> (\<exists>v. jvalue d r v)" "m \<noteq> []"
  shows "\<exists>ms. jmembers d (join_comma (map member_text m)) ms
    \<and> map (\<lambda>(k, r, v). (unquote k, r)) ms = map (\<lambda>(k, r). (k, compact False r)) m"
  using assms
proof (induction m)
  case (Cons x m)
  obtain k r where x: "x = (k, r)" by (cases x)
  with Cons.prems obtain v where "utf8_ok k" "jvalue d r v" by auto
  with compact_valid(1) obtain v' where v: "jvalue d (compact False r) v'" by blast
  note q = quote_roundtrip [OF \<open>utf8_ok k\<close>]
  have member: "member_text (k, r) = quote_char # escape_string k @ quote_char # CHR '':'' # compact False r"
    by (simp add: member_text_def quote_string_def)
  show ?case
  proof (cases m)
    case Nil
    with jmember [of "[]" "escape_string k" "[]" "[]", OF _ _ _ _ v, of "[]"] q show ?thesis
      by (intro exI [of _ "[(escape_string k, compact False r, v')]"]) (simp add: x member)
  next
    case (Cons y u)
    with Cons.IH Cons.prems obtain ms where ms: "jmembers d (join_comma (map member_text m)) ms"
      "map (\<lambda>(k, r, v). (unquote k, r)) ms = map (\<lambda>(k, r). (k, compact False r)) m" by auto
    with jmember_cons [of "[]" "escape_string k" "[]" "[]", OF _ _ _ _ v, of "[]"] q Cons show ?thesis
      by (intro exI [of _ "(escape_string k, compact False r, v') # ms"]) (simp add: x member)
  qed
qed simp

text \<open>Marshalling and unmarshalling again: the same keys, each with its compacted text.\<close>

lemma Marshal_object:
  assumes "map_ok d m"
  shows "\<exists>ms. jvalue (Suc d) (Marshal_map m) (JObj ms)
    \<and> (\<forall>k. map_of (keymap [] ms) k = map_option (compact False) (map_of m k))"
proof -
  let ?s = "sort_key fst m"
  note d = assms [unfolded map_ok_def]
  have "\<exists>ms. jvalue (Suc d) (Marshal_map m) (JObj ms) \<and> map (\<lambda>(k, r, v). (unquote k, r)) ms = map (\<lambda>(k, r). (k, compact False r)) ?s"
  proof (cases "?s = []")
    case True
    with jobj0 [of "[]" d] show ?thesis by (intro exI [of _ "[]"]) (simp add: Marshal_map_def)
  next
    case False
    with d members_text [of ?s d] obtain ms where "jmembers d (join_comma (map member_text ?s)) ms"
      "map (\<lambda>(k, r, v). (unquote k, r)) ms = map (\<lambda>(k, r). (k, compact False r)) ?s" by auto
    with jobj show ?thesis unfolding Marshal_map_def by blast
  qed
  then obtain ms where ms: "jvalue (Suc d) (Marshal_map m) (JObj ms)"
    "map (\<lambda>(k, r, v). (unquote k, r)) ms = map (\<lambda>(k, r). (k, compact False r)) ?s" by blast
  have "distinct (map fst (map (\<lambda>(k, r). (k, compact False r)) ?s))"
    using sort_key_map(1) [of m] d by (simp add: comp_def case_prod_unfold)
  from map_of_rev [OF this] have "map_of (keymap [] ms) k = map_option (compact False) (map_of m k)" for k
    using d by (simp add: map_of_keymap ms(2) map_of_map sort_key_map(2))
  with ms(1) show ?thesis by blast
qed

lemma Marshal_roundtrip:
  assumes "map_ok d m" "Suc d \<le> max_depth"
  shows "\<exists>m'. Unmarshal dec_map (Marshal_map m) None = (Some m', True)
    \<and> (\<forall>k. map_of m' k = map_option (compact False) (map_of m k))"
  using Marshal_object [OF assms(1)] Unmarshal_object assms(2) by meson

lemma compact_members:
  "\<forall>(k, r)\<in>set m. utf8_ok k \<and> (\<exists>v. jvalue d r v) \<Longrightarrow>
    compact False (join_comma (map member_text m) @ x) = join_comma (map member_text m) @ compact False x"
proof (induction m arbitrary: x)
  case (Cons y m)
  obtain k r where y: "y = (k, r)" by (cases y)
  with Cons.prems obtain v where k: "utf8_ok k" and r: "jvalue d r v" by auto
  from compact_valid(1) [OF r] compact_valid(1) have c: "closes (compact False r)" by blast
  have member: "compact False (member_text y @ z) = member_text y @ compact False z" for z
    by (simp add: y member_text_def compact_quote_string [OF k] compact_Cons compact_closes [OF c] compact_idem)
  show ?case
  proof (cases m)
    case Nil with member show ?thesis by simp
  next
    case (Cons a b) with member Cons.IH Cons.prems show ?thesis by (simp add: compact_Cons)
  qed
qed simp

lemma compact_Marshal: "map_ok d m \<Longrightarrow> compact False (Marshal_map m) = Marshal_map m"
  using compact_members [of "sort_key fst m" d "''}''"]
  by (simp add: Marshal_map_def map_ok_def compact_Cons)

subsection \<open>What the injection does to a request\<close>

lemma include_usage_object_ok: "jvalue 1 include_usage_object (JObj [(''include_usage'', ''true'', JBool True)])"
proof -
  have "parse_value 9 1 include_usage_object = Some (JObj [(''include_usage'', ''true'', JBool True)], [])" by code_simp
  from parse_value_sound [OF this] show ?thesis by simp
qed

lemma compact_include_usage: "compact False include_usage_object = include_usage_object" "compact False ''true'' = ''true''"
  by code_simp+

text \<open>One key replaced and the map marshalled: what the provider decodes.\<close>

lemma replace_key:
  assumes "map_ok d m" "utf8_ok k" "jvalue d r v" "Suc d \<le> max_depth"
  shows "\<exists>m'. Unmarshal dec_map (Marshal_map (AList.update k r m)) None = (Some m', True)
    \<and> map_of m' k = Some (compact False r) \<and> (\<forall>k'. k' \<noteq> k \<longrightarrow> map_of m' k' = map_option (compact False) (map_of m k'))"
  using Marshal_roundtrip [OF map_ok_update [OF assms(1-3)] assms(4)] by (auto simp: update_conv')

lemma utf8_ok_ascii: "\<forall>c\<in>set s. (of_char c :: nat) < 128 \<Longrightarrow> utf8_ok s"
  by (induction s) (simp_all add: utf8_ok.utf8_nil utf8_ok_Cons_ascii)

definition injected_into :: "(bytes \<times> bytes) list \<Rightarrow> bytes \<Rightarrow> bool" where
  "injected_into m body' \<longleftrightarrow> (\<exists>m' so' opts'.
     Unmarshal dec_map body' None = (Some m', True)
     \<and> (\<forall>k. k \<noteq> ''stream_options'' \<longrightarrow> map_of m' k = map_option (compact False) (map_of m k))
     \<and> map_of m' ''stream_options'' = Some so'
     \<and> Unmarshal dec_map so' None = (Some opts', True)
     \<and> map_of opts' ''include_usage'' = Some ''true''
     \<and> (\<forall>so opts k. map_of m ''stream_options'' = Some so \<longrightarrow> Unmarshal dec_map so None = (Some opts, True) \<longrightarrow>
          k \<noteq> ''include_usage'' \<longrightarrow> map_of opts' k = map_option (compact False) (map_of opts k)))"

lemma overwrite_injects:
  assumes "map_ok (max_depth - 1) m"
    and "\<forall>so. map_of m ''stream_options'' = Some so \<longrightarrow> (\<forall>opts. Unmarshal dec_map so None \<noteq> (Some opts, True))"
  shows "injected_into m (Marshal_map (AList.update ''stream_options'' include_usage_object m))"
proof -
  have "jvalue (max_depth - 1) include_usage_object (JObj [(''include_usage'', ''true'', JBool True)])"
    by (rule jvalue_mono(1) [OF include_usage_object_ok]) (simp add: max_depth_def)
  from replace_key [OF assms(1) utf8_ok_ascii this, of "''stream_options''"] obtain m' where
    "Unmarshal dec_map (Marshal_map (AList.update ''stream_options'' include_usage_object m)) None = (Some m', True)"
    "map_of m' ''stream_options'' = Some include_usage_object"
    "\<forall>k. k \<noteq> ''stream_options'' \<longrightarrow> map_of m' k = map_option (compact False) (map_of m k)"
    by (auto simp: max_depth_def compact_include_usage)
  moreover have "Unmarshal dec_map include_usage_object None = (Some [(''include_usage'', ''true'')], True)" by code_simp
  ultimately show ?thesis using assms(2) unfolding injected_into_def
    by (intro exI [of _ m'] exI [of _ include_usage_object] exI [of _ "[(''include_usage'', ''true'')]"]) auto
qed

lemma nested_injects:
  assumes m: "map_ok (max_depth - 1) m" and so: "map_of m ''stream_options'' = Some so"
    and opts: "Unmarshal dec_map so None = (Some opts, True)"
  shows "injected_into m (Marshal_map (AList.update ''stream_options'' (Marshal_map (AList.update ''include_usage'' ''true'' opts)) m))"
proof -
  let ?o = "AList.update ''include_usage'' ''true'' opts"
  from m so obtain v where "jvalue (max_depth - 1) so v" unfolding map_ok_def by (fastforce dest: map_of_SomeD)
  from Unmarshal_raw_ok [OF opts this] obtain d where d: "max_depth - 1 = Suc d" "map_ok d opts" by auto
  have ok: "map_ok d ?o" by (rule map_ok_update [OF d(2) utf8_ok_ascii jtrue]) simp
  obtain ms where nb: "jvalue (max_depth - 1) (Marshal_map ?o) (JObj ms)" using Marshal_object [OF ok] d(1) by auto
  from d(1) have "Suc d \<le> max_depth" by simp
  from Marshal_roundtrip [OF ok this] obtain opts' where o': "Unmarshal dec_map (Marshal_map ?o) None = (Some opts', True)"
    "\<forall>k. map_of opts' k = map_option (compact False) (map_of ?o k)" by blast
  from replace_key [OF m utf8_ok_ascii nb, of "''stream_options''"] obtain m' where
    "Unmarshal dec_map (Marshal_map (AList.update ''stream_options'' (Marshal_map ?o) m)) None = (Some m', True)"
    "map_of m' ''stream_options'' = Some (Marshal_map ?o)"
    "\<forall>k. k \<noteq> ''stream_options'' \<longrightarrow> map_of m' k = map_option (compact False) (map_of m k)"
    by (auto simp: max_depth_def compact_Marshal [OF ok])
  with o' so opts show ?thesis unfolding injected_into_def
    by (intro exI [of _ m'] exI [of _ "Marshal_map ?o"] exI [of _ opts']) (auto simp: update_conv' compact_include_usage)
qed

text \<open>C11: \<open>maybeInjectUsage\<close> changes nothing but \<open>stream_options.include_usage\<close>.
  A body it leaves alone is forwarded byte for byte. A body it changes still decodes, under the same
  decoder, to a map with the same keys: every value but \<open>stream_options\<close> is the client's own text,
  compacted; \<open>stream_options\<close> decodes to an object that has \<open>include_usage\<close> set to \<open>true\<close> and every
  other option the client sent there.\<close>

theorem injection_preserves_request:
  assumes "maybeInjectUsage body = Some (body', injected)"
  shows "if injected then \<exists>m. Unmarshal dec_map body None = (Some m, True) \<and> injected_into m body' else body' = body"
proof (cases injected)
  case False
  with assms show ?thesis by (auto simp: maybeInjectUsage_def Let_def split: prod.splits bool.splits option.splits if_splits)
next
  case True
  with assms obtain m where m: "Unmarshal dec_map body None = (Some m, True)"
    by (auto simp: maybeInjectUsage_def split: prod.splits bool.splits option.splits)
  note ok = Unmarshal_map_ok [OF m]
  have "injected_into m body'"
  proof (cases "map_of m ''stream_options''")
    case None
    with assms True m overwrite_injects [OF ok] show ?thesis
      by (auto simp: maybeInjectUsage_def split: option.splits if_splits)
  next
    case (Some so)
    obtain mo b where u: "Unmarshal dec_map so None = (mo, b)" by (cases "Unmarshal dec_map so None")
    show ?thesis
    proof (cases "b \<and> mo \<noteq> None")
      case False
      with assms True m u Some overwrite_injects [OF ok] show ?thesis
        by (cases b; cases mo) (auto simp: maybeInjectUsage_def Let_def split: option.splits if_splits)
    next
      case True
      then obtain opts where "Unmarshal dec_map so None = (Some opts, True)" using u by auto
      with assms \<open>injected\<close> m Some nested_injects [OF ok Some] show ?thesis
        by (auto simp: maybeInjectUsage_def Let_def split: option.splits if_splits)
    qed
  qed
  with m True show ?thesis by simp
qed

theorem injection_preserves_request_witness:
  "\<exists>m. Unmarshal dec_map ''{\"model\":\"gpt-4o\", \"stream\": true}'' None = (Some m, True)
     \<and> injected_into m ''{\"model\":\"gpt-4o\",\"stream\":true,\"stream_options\":{\"include_usage\":true}}''"
proof -
  have "maybeInjectUsage ''{\"model\":\"gpt-4o\", \"stream\": true}''
    = Some (''{\"model\":\"gpt-4o\",\"stream\":true,\"stream_options\":{\"include_usage\":true}}'', True)" by code_simp
  from injection_preserves_request [OF this] show ?thesis by simp
qed

end
