(* ===== verification/Replies.thy ===== *)
theory Replies
  imports JsonEncode Inject Gateway Dashboard
begin

section \<open>Replies: the JSON the gateway and the dashboard answer with\<close>

text \<open>
  The refusal of \<open>internal/proxy/proxy.go\<close> and the summary of \<open>internal/dashboard\<close> are texts of
  the JSON grammar, with the members their clients read, whatever the names in them are.
\<close>

subsection \<open>Doubles\<close>

lemma round_mag_least:
  assumes "0 < q" "round_mag q \<noteq> 0" shows "(1 / 10) ^ 400 \<le> round_mag q"
proof -
  let ?u = "ulp_exp q"
  have u: "-1074 \<le> ?u" by (simp add: ulp_exp_def)
  have p: "(0::rat) < 2 powi ?u" by simp
  obtain n where n: "round_mag q = of_int n * 2 powi ?u" using assms(1) by (auto simp: round_mag_def)
  have "0 \<le> round_mag q" using assms(1) by (intro round_mag_nonneg) simp
  with assms(2) have "0 < of_int n * (2::rat) powi ?u" using n by linarith
  then have "0 < n" using p zero_less_mult_pos2 [of "of_int n" "2 powi ?u :: rat"] by simp
  then have "1 * 2 powi ?u \<le> (of_int n * 2 powi ?u :: rat)" by (intro mult_right_mono) simp_all
  moreover have "(2::rat) powi (-1074) \<le> 2 powi ?u" using u by (simp only: powi2_le_iff)
  moreover have "(1 / 10) ^ 400 \<le> (2::rat) powi (-1074)" by (simp add: power_int_minus power_int_def power_divide divide_simps)
  ultimately show ?thesis using n by linarith
qed

lemma dbl_simps [simp]: "dbl (fneg f) = dbl f" "dbl PInf" "dbl NInf" "dbl NaN" "dbl (Fin 0)"
  by (cases f) (auto simp: dbl_def)

lemma dbl_overflow: "0 < q \<Longrightarrow> dbl (overflow (round_mag q))"
  using round_mag_least [of q] round_mag_nonneg [of q] unfolding overflow_def dbl_def by (simp split: if_split) linarith

lemma dbl_rnd64 [simp]: "dbl (rnd64 q)"
  using dbl_overflow [of q] dbl_overflow [of "- q"] by (simp add: rnd64_def)

lemma dbl_fdiv_const: "dbl (fdiv_const x c)"
  by (cases x) (simp_all add: finf_def)

lemma rnd64_small:
  assumes "\<bar>q\<bar> < 2 powi k" "-1022 \<le> k" "k \<le> 1023" shows "\<exists>r. rnd64 q = Fin r \<and> \<bar>r\<bar> \<le> 2 powi k"
proof (cases "0 \<le> q")
  case True
  with rnd64_Fin [OF True _ assms(2,3)] assms(1) show ?thesis by (metis abs_of_nonneg)
next
  case False
  then have "0 \<le> - q" "- q < 2 powi k" using assms(1) by auto
  from rnd64_Fin [OF this assms(2,3)] obtain r where r: "rnd64 (- q) = Fin r" "0 \<le> r" "r \<le> 2 powi k" by metis
  then have "rnd64 q = Fin (- r)" using rnd64_minus [of "- q"] by simp
  with r show ?thesis by simp
qed

lemma micro_finite: "in_int64 n \<Longrightarrow> \<exists>q. fdiv_const (f64_of_int n) 1000000 = Fin q"
proof -
  assume "in_int64 n"
  then have "- (2 ^ 63) \<le> n" "n < 2 ^ 63" by (auto simp: int64_defs)
  then have "- of_int (2 ^ 63) \<le> (of_int n :: rat)" "(of_int n :: rat) < of_int (2 ^ 63)"
    by (simp_all only: of_int_less_iff of_int_minus [symmetric] of_int_le_iff)
  then have "\<bar>of_int n\<bar> < (2::rat) powi 64" by auto
  from rnd64_small [OF this] obtain a where a: "f64_of_int n = Fin a" "\<bar>a\<bar> \<le> 2 powi 64" by (auto simp: f64_of_int_def)
  then have "\<bar>a / 1000000\<bar> < 2 powi 65" by (simp add: field_simps)
  from rnd64_small [OF this] a show ?thesis by auto
qed

lemma encode_finite: "\<exists>b. encode_float (Fin q) = Some b"
  by (cases "encode_float (Fin q)") (auto simp: encode_float_def Let_def split: prod.splits if_splits)

subsection \<open>The refusal of a request over its budget\<close>

definition refusal_value :: "bytes \<Rightarrow> bytes \<Rightarrow> Tenant \<Rightarrow> (bytes \<times> bytes \<times> json) list" where
  "refusal_value b s t =
     [(''budget_usd'', b, JNum b), (''spend_usd'', s, JNum s),
      (''tenant'', quote_string (Name t), JStr (escape_string (Name t))),
      (''type'', quote_string ''budget_exceeded'', JStr ''budget_exceeded'')]"

lemma plain_escape: "escape_string ''error'' = ''error''" "escape_string ''budget_usd'' = ''budget_usd''"
  "escape_string ''spend_usd'' = ''spend_usd''" "escape_string ''tenant'' = ''tenant''" "escape_string ''type'' = ''type''"
  "escape_string ''budget_exceeded'' = ''budget_exceeded''"
  by code_simp+

lemma parse_line: "jvalue d t v \<Longrightarrow> d \<le> max_depth \<Longrightarrow> parse_json (t @ [CHR 0x0A]) = Some v"
  unfolding parse_json_iff
  by (intro exI [of _ "[]"] exI [of _ t] exI [of _ "[CHR 0x0A]"]) (auto intro: jvalue_mono(1) simp: is_ws_def)

lemma refusal_json:
  assumes "encode_float bud = Some b" "encode_float spd = Some s" "dbl bud" "dbl spd"
  shows "\<exists>raw body. encode_line (VMap [(''error'', VMap [(''budget_usd'', jval.VFloat bud), (''spend_usd'', jval.VFloat spd),
      (''tenant'', VStr (Name t)), (''type'', VStr ''budget_exceeded'')])]) = Some body
    \<and> parse_json body = Some (JObj [(''error'', raw, JObj (refusal_value b s t))])"
proof -
  let ?ms = "refusal_value b s t"
  let ?text = "\<lambda>ms. CHR ''{'' # join_comma (map (\<lambda>(k, t, v). quote_char # k @ quote_char # CHR '':'' # t) ms) @ ''}''"
  have "\<forall>(k, t, v)\<in>set ?ms. str_ok k \<and> jvalue 0 t v"
    using encode_float_json [OF assms(1,3)] encode_float_json [OF assms(2,4)] quote_string_json [of 0 "''budget_exceeded''"]
      str_ok_escape [of "''budget_usd''"] str_ok_escape [of "''spend_usd''"] str_ok_escape [of "''tenant''"] str_ok_escape [of "''type''"]
    by (simp add: refusal_value_def quote_string_json plain_escape)
  from object_json [OF this] have inner: "jvalue 1 (?text ?ms) (JObj ?ms)" by simp
  let ?e = "[(''error'', ?text ?ms, JObj ?ms)]"
  have "\<forall>(k, t, v)\<in>set ?e. str_ok k \<and> jvalue 1 t v" using inner str_ok_escape [of "''error''"] by (simp add: plain_escape)
  from object_json [OF this] have "jvalue 2 (?text ?e) (JObj ?e)" by (simp add: numeral_2_eq_2)
  from parse_line [OF this] have "parse_json (?text ?e @ [CHR 0x0A]) = Some (JObj ?e)" by (simp add: max_depth_def)
  moreover have "encode_line (VMap [(''error'', VMap [(''budget_usd'', jval.VFloat bud), (''spend_usd'', jval.VFloat spd),
      (''tenant'', VStr (Name t)), (''type'', VStr ''budget_exceeded'')])]) = Some (?text ?e @ [CHR 0x0A])"
    by (simp add: encode_line_def assms(1,2) refusal_value_def quote_string_def plain_escape)
  ultimately show ?thesis by blast
qed



subsection \<open>The summary\<close>

text \<open>The text of a time needs no escaping.\<close>

definition time_char :: "char \<Rightarrow> bool" where
  "time_char c \<longleftrightarrow> is_digit c \<or> c \<in> set ''-+:.TZ''"

lemma str_ok_plain: "list_all (\<lambda>c. 32 \<le> (of_char c :: nat) \<and> c \<noteq> quote_char \<and> c \<noteq> backslash) t \<Longrightarrow> str_ok t"
  by (induction t) (simp_all add: str_ok.str_nil str_ok.str_char)

lemma time_chars: "list_all time_char (digits n)" "list_all time_char (pad_int w m)"
  using set_digits by (auto simp: list_all_iff time_char_def pad_int_def Let_def split: if_splits)

lemma time_frac: "fmtFrac v p = (f, v') \<Longrightarrow> list_all time_char f"
proof -
  have "list_all time_char acc \<Longrightarrow> list_all time_char (fst (frac_digits n u b acc))" for n u b acc
    by (induction n u b acc rule: frac_digits.induct) (simp_all add: Let_def time_char_def is_digit_digit nat_less_iff)
  from this [of "[]" p v False] show "fmtFrac v p = (f, v') \<Longrightarrow> list_all time_char f"
    by (auto simp: fmtFrac_def time_char_def split: prod.splits if_splits)
qed

lemma time_json:
  assumes "format_rfc3339 zone n = Some t" shows "json_text d (CHR 0x22 # t @ [CHR 0x22])"
proof -
  have c: "time_char c" if "c \<in> set ''-+:.TZ''" for c using that by (simp add: time_char_def)
  have "list_all time_char t"
    using assms time_chars by (auto simp: format_rfc3339_def zone_text_def Let_def c dest: time_frac split: prod.splits if_splits)
  moreover have "32 \<le> (of_char c :: nat) \<and> c \<noteq> quote_char \<and> c \<noteq> backslash" if "time_char c" for c
    using that by (auto simp: time_char_def is_digit_def)
  ultimately have "str_ok t" by (intro str_ok_plain) (auto simp: list_all_iff)
  from jstr [OF this] show ?thesis unfolding json_text_def by auto
qed

text \<open>An object of the encoder, member by member.\<close>

lemma json_object_members:
  assumes "json_object fs = Some t" "\<forall>(k, x)\<in>set fs. utf8_ok k \<and> (\<forall>r. x = Some r \<longrightarrow> json_text d r)"
  shows "\<exists>ms. jvalue (Suc d) t (JObj ms) \<and> map (\<lambda>(k, r, v). (unquote k, Some r)) ms = fs \<and> (\<forall>(k, r, v)\<in>set ms. jvalue d r v)"
proof -
  define f where "f r = (SOME v. jvalue d r v)" for r
  define ms where "ms = map (\<lambda>(k, x). (escape_string k, the x, f (the x))) fs"
  from assms(1) have s: "\<forall>(k, x)\<in>set fs. x \<noteq> None"
    and t: "t = CHR ''{'' # join_comma (map (\<lambda>(k, v). quote_string k @ CHR '':'' # the v) fs) @ [CHR ''}'']"
    by (auto simp: json_object_def list_all_iff split: if_splits)
  have v: "\<forall>(k, r, v)\<in>set ms. str_ok k \<and> jvalue d r v"
    using s assms(2) str_ok_escape unfolding ms_def f_def json_text_def by (fastforce intro: someI)
  have "map (\<lambda>(k, t, v). quote_char # k @ quote_char # CHR '':'' # t) ms = map (\<lambda>(k, v). quote_string k @ CHR '':'' # the v) fs"
    by (simp add: ms_def case_prod_unfold quote_string_def)
  with object_json [OF v] have "jvalue (Suc d) t (JObj ms)" by (simp add: t)
  moreover have "map (\<lambda>(k, r, v). (unquote k, Some r)) ms = fs"
    unfolding ms_def using s assms(2) quote_roundtrip by (auto simp: map_idI case_prod_unfold)
  ultimately show ?thesis using v by blast
qed

lemma json_object_text:
  assumes "json_object fs = Some t" "\<forall>(k, x)\<in>set fs. utf8_ok k \<and> (\<forall>r. x = Some r \<longrightarrow> json_text d r)"
  shows "json_text (Suc d) t"
  using json_object_members [OF assms] unfolding json_text_def by blast

text \<open>A list of the summary: \<open>null\<close> when it is empty, and else an array of as many elements.\<close>

definition json_list :: "json \<Rightarrow> nat \<Rightarrow> bool" where
  "json_list v n \<longleftrightarrow> (if n = 0 then v = JNull else \<exists>vs. v = JArr vs \<and> length vs = n)"

lemma json_slice_list:
  assumes "json_slice enc xs = Some t" "\<forall>x\<in>set xs. \<forall>r. enc x = Some r \<longrightarrow> json_text d r"
  shows "\<exists>v. jvalue (Suc d) t v \<and> json_list v (length xs)"
proof (cases "xs = []")
  case True
  with assms(1) jnull show ?thesis by (auto simp: json_slice_def json_list_def)
next
  case False
  define f where "f r = (SOME v. jvalue d r v)" for r
  define vs where "vs = map (\<lambda>x. (the (enc x), f (the (enc x)))) xs"
  from assms(1) False have s: "\<forall>x\<in>set xs. enc x \<noteq> None" and t: "t = CHR ''['' # join_comma (map (\<lambda>x. the (enc x)) xs) @ '']''"
    by (auto simp: json_slice_def list_all_iff split: if_splits)
  have "\<forall>(r, v)\<in>set vs. jvalue d r v"
    using s assms(2) unfolding vs_def f_def json_text_def by (fastforce intro: someI)
  from array_json [OF this] have "jvalue (Suc d) t (JArr vs)" by (simp add: t vs_def comp_def)
  with False show ?thesis by (auto simp: json_list_def vs_def)
qed

text \<open>Amounts that come from the database are doubles.\<close>

definition summary_dbl :: "Summary \<Rightarrow> bool" where
  "summary_dbl s \<longleftrightarrow> dbl (TotalSpendUSD s)
     \<and> list_all (\<lambda>t. dbl (ts_SpendUSD t) \<and> dbl (ts_EstimatedShare t)) (Tenants s)
     \<and> list_all (\<lambda>f. dbl (fs_SpendUSD f)) (Features s) \<and> list_all (\<lambda>m. dbl (ms_SpendUSD m)) (Models s)"

lemma encode_rows:
  "encode_tenant x = Some r \<Longrightarrow> dbl (ts_SpendUSD x) \<Longrightarrow> dbl (ts_EstimatedShare x) \<Longrightarrow> json_text 1 r"
  "encode_feature y = Some r \<Longrightarrow> dbl (fs_SpendUSD y) \<Longrightarrow> json_text 1 r"
  "encode_model z = Some r \<Longrightarrow> dbl (ms_SpendUSD z) \<Longrightarrow> json_text 1 r"
  unfolding encode_tenant_def encode_feature_def encode_model_def One_nat_def
  by (erule json_object_text; auto simp: json_text_float utf8_ok_ascii)+

definition summary_keys :: "bytes list" where
  "summary_keys = [''window'', ''total_spend_usd'', ''total_requests'', ''tenants'', ''features'', ''models'', ''generated_at'']"

text \<open>C36: whatever a summary holds, what the endpoint and the live stream send is one JSON object with the
  seven members the page reads, in their order; its lists have an element for each row of the summary, and are
  \<open>null\<close> when there is none.\<close>

theorem summary_is_json:
  assumes "encode_summary zone s = Some t" "summary_dbl s"
  shows "\<exists>ms. parse_json t = Some (JObj ms) \<and> map (\<lambda>(k, r, v). unquote k) ms = summary_keys
    \<and> (\<forall>(k, r, v)\<in>set ms. (unquote k = ''tenants'' \<longrightarrow> json_list v (length (Tenants s)))
        \<and> (unquote k = ''features'' \<longrightarrow> json_list v (length (Features s)))
        \<and> (unquote k = ''models'' \<longrightarrow> json_list v (length (Models s))))"
proof -
  have tenants: "json_slice encode_tenant (Tenants s) = Some r \<Longrightarrow> \<exists>v. jvalue 2 r v \<and> json_list v (length (Tenants s))"
    and features: "json_slice encode_feature (Features s) = Some r \<Longrightarrow> \<exists>v. jvalue 2 r v \<and> json_list v (length (Features s))"
    and models: "json_slice encode_model (Models s) = Some r \<Longrightarrow> \<exists>v. jvalue 2 r v \<and> json_list v (length (Models s))" for r
    using assms(2) unfolding numeral_2_eq_2 One_nat_def [symmetric] summary_dbl_def list_all_iff
    by (auto intro!: json_slice_list dest: encode_rows)
  note obj = assms(1) [unfolded encode_summary_def]
  have "\<exists>ms. jvalue 3 t (JObj ms) \<and> map (\<lambda>(k, r, v). (unquote k, Some r)) ms = [
     (''window'', Some (quote_string (Window s))),
     (''total_spend_usd'', encode_float (TotalSpendUSD s)), (''total_requests'', Some (itoa (TotalRequests s))),
     (''tenants'', json_slice encode_tenant (Tenants s)), (''features'', json_slice encode_feature (Features s)),
     (''models'', json_slice encode_model (Models s)),
     (''generated_at'', map_option (\<lambda>t. CHR 0x22 # t @ [CHR 0x22]) (format_rfc3339 zone (GeneratedAt s)))]
     \<and> (\<forall>(k, r, v)\<in>set ms. jvalue 2 r v)"
    unfolding numeral_3_eq_3 numeral_2_eq_2
    using assms(2) tenants features models
    by (intro json_object_members [OF obj])
      (auto simp: utf8_ok_ascii summary_dbl_def json_text_def numeral_2_eq_2 intro: json_text_float [unfolded json_text_def] time_json [unfolded json_text_def]
        json_text_leaf [unfolded json_text_def])
  then obtain ms where ms: "jvalue 3 t (JObj ms)" "map (\<lambda>(k, r, v). (unquote k, Some r)) ms = [
     (''window'', Some (quote_string (Window s))),
     (''total_spend_usd'', encode_float (TotalSpendUSD s)), (''total_requests'', Some (itoa (TotalRequests s))),
     (''tenants'', json_slice encode_tenant (Tenants s)), (''features'', json_slice encode_feature (Features s)),
     (''models'', json_slice encode_model (Models s)),
     (''generated_at'', map_option (\<lambda>t. CHR 0x22 # t @ [CHR 0x22]) (format_rfc3339 zone (GeneratedAt s)))]"
     "\<forall>(k, r, v)\<in>set ms. jvalue 2 r v" by (elim exE conjE)
  have "parse_json t = Some (JObj ms)" by (rule jvalue_parses [OF ms(1)]) (simp add: max_depth_def)
  moreover have "map (\<lambda>(k, r, v). unquote k) ms = map fst (map (\<lambda>(k, r, v). (unquote k, Some r)) ms)"
    by (simp add: case_prod_unfold)
  then have "map (\<lambda>(k, r, v). unquote k) ms = summary_keys" by (simp add: ms(2) summary_keys_def)
  moreover have "(unquote k = ''tenants'' \<longrightarrow> json_list v (length (Tenants s)))
        \<and> (unquote k = ''features'' \<longrightarrow> json_list v (length (Features s)))
        \<and> (unquote k = ''models'' \<longrightarrow> json_list v (length (Models s)))" if "(k, r, v) \<in> set ms" for k r v
  proof -
    have m: "(unquote k, Some r) \<in> set (map (\<lambda>(k, r, v). (unquote k, Some r)) ms)" using that by force
    have v: "jvalue 2 r v" using ms(3) that by blast
    have "unquote k = ''tenants'' \<Longrightarrow> json_slice encode_tenant (Tenants s) = Some r"
      "unquote k = ''features'' \<Longrightarrow> json_slice encode_feature (Features s) = Some r"
      "unquote k = ''models'' \<Longrightarrow> json_slice encode_model (Models s) = Some r"
      using m unfolding ms(2) by simp_all
    with tenants features models jvalue_unique [OF v] show ?thesis by metis
  qed
  ultimately show ?thesis by blast
qed

definition demo_summary :: Summary where
  "demo_summary = \<lparr>Window = ''24h0m0s'', TotalSpendUSD = Fin 0, TotalRequests = 1,
     Tenants = [\<lparr>ts_TenantID = 7, ts_Name = ''Acme'', ts_SpendUSD = Fin 0, ts_Requests = 1, ts_EstimatedShare = Fin 0\<rparr>],
     Features = [], Models = [], GeneratedAt = 0\<rparr>"

theorem summary_is_json_witness:
  "\<exists>t ms. encode_summary 0 demo_summary = Some t \<and> parse_json t = Some (JObj ms)
    \<and> map (\<lambda>(k, r, v). unquote k) ms = summary_keys
    \<and> (\<forall>(k, r, v)\<in>set ms. (unquote k = ''tenants'' \<longrightarrow> json_list v 1) \<and> (unquote k = ''features'' \<longrightarrow> json_list v 0))"
proof -
  have g: "format_rfc3339 0 0 = Some ''1970-01-01T00:00:00Z''" by code_simp
  have "\<exists>t. encode_summary 0 demo_summary = Some t"
    by (simp add: demo_summary_def encode_summary_def json_object_def json_slice_def encode_tenant_def encode_float_def g)
  then obtain t where t: "encode_summary 0 demo_summary = Some t" by blast
  have d: "summary_dbl demo_summary" by (simp add: summary_dbl_def demo_summary_def)
  have n: "length (Tenants demo_summary) = 1" "length (Features demo_summary) = 0" by (simp_all add: demo_summary_def)
  from summary_is_json [OF t d, unfolded n] t show ?thesis by fast
qed

end
