(* ===== verification/FakeProvider.thy ===== *)
theory FakeProvider
  imports Replies
begin

section \<open>FakeProvider: the provider of the load test\<close>

text \<open>
  \<open>bench/fakeprovider/main.go\<close>: an OpenAI-like provider that reports the token counts it is started
  with, in one JSON body or in the last frame of a stream. \<open>isp\<close> is \<open>strconv.IsPrint\<close> on code points from
  U+0080 on; its table is not written out.
\<close>

subsection \<open>The fake provider: quoting with \<open>%q\<close>\<close>

definition rune_of :: "bytes \<Rightarrow> nat" where
  "rune_of s =
     (case map of_char s of
        [a] \<Rightarrow> a
      | [a, b] \<Rightarrow> (a - 0xC0) * 64 + (b - 0x80)
      | [a, b, c] \<Rightarrow> ((a - 0xE0) * 64 + (b - 0x80)) * 64 + (c - 0x80)
      | [a, b, c, d] \<Rightarrow> (((a - 0xF0) * 64 + (b - 0x80)) * 64 + (c - 0x80)) * 64 + (d - 0x80)
      | _ \<Rightarrow> 0xFFFD)"

definition hex2 :: "nat \<Rightarrow> bytes" where
  "hex2 n = [hex_digit (n div 16), hex_digit (n mod 16)]"

definition go_escape :: "(nat \<Rightarrow> bool) \<Rightarrow> bytes \<Rightarrow> bytes" where
  "go_escape isp c =
     (let r = rune_of c
      in if c = [quote_char] \<or> c = [backslash] then backslash # c
         else if (if r < 0x80 then 0x20 \<le> r \<and> r < 0x7F else isp r) then c
         else if r = 7 then [backslash, CHR ''a''] else if r = 8 then [backslash, CHR ''b'']
         else if r = 12 then [backslash, CHR ''f''] else if r = 10 then [backslash, CHR ''n'']
         else if r = 13 then [backslash, CHR ''r''] else if r = 9 then [backslash, CHR ''t'']
         else if r = 11 then [backslash, CHR ''v'']
         else if r < 0x20 \<or> r = 0x7F then [backslash, CHR ''x''] @ hex2 r
         else if r < 0x10000 then [backslash, CHR ''u''] @ hex2 (r div 256) @ hex2 (r mod 256)
         else [backslash, CHR ''U''] @ hex2 (r div 16777216) @ hex2 (r div 65536 mod 256) @ hex2 (r div 256 mod 256) @ hex2 (r mod 256))"

function go_escapes :: "(nat \<Rightarrow> bool) \<Rightarrow> bytes \<Rightarrow> bytes" where
  "go_escapes isp s =
     (case s of
        [] \<Rightarrow> []
      | c # s1 \<Rightarrow>
          (let n = utf8_len s
           in if n = 0 then [backslash, CHR ''x''] @ hex2 (of_char c) @ go_escapes isp s1
              else go_escape isp (take n s) @ go_escapes isp (drop n s)))"
  by pat_completeness auto

termination
  by (relation "measure (\<lambda>(isp, s). length s)") auto

declare go_escapes.simps [simp del]

definition Quote :: "(nat \<Rightarrow> bool) \<Rightarrow> bytes \<Rightarrow> bytes" where
  "Quote isp s = quote_char # go_escapes isp s @ [quote_char]"

subsection \<open>The fake provider: the handler\<close>

record chat_request =
  cr_Model :: bytes
  cr_Stream :: bool

definition dec_bool :: "bool decoder" where
  "dec_bool rw j x = (case j of JBool b \<Rightarrow> (b, True) | JNull \<Rightarrow> (x, True) | _ \<Rightarrow> (x, False))"

definition chat_request_fields :: "chat_request field list" where
  "chat_request_fields =
     [field ''model'' cr_Model (\<lambda>v c. c\<lparr>cr_Model := v\<rparr>) dec_string,
      field ''stream'' cr_Stream (\<lambda>v c. c\<lparr>cr_Stream := v\<rparr>) dec_bool]"

definition nonStream_value :: "bytes \<Rightarrow> int \<Rightarrow> int \<Rightarrow> jval" where
  "nonStream_value model promptTokens completionTokens = VMap [
     (''choices'', VList [VMap [(''finish_reason'', VStr ''stop''), (''index'', jval.VInt 0),
        (''message'', VMap [(''content'', VStr ''hello from fakeprovider''), (''role'', VStr ''assistant'')])]]),
     (''id'', VStr ''chatcmpl-bench''),
     (''model'', VStr model),
     (''object'', VStr ''chat.completion''),
     (''usage'', VMap [(''completion_tokens'', jval.VInt completionTokens), (''prompt_tokens'', jval.VInt promptTokens),
        (''total_tokens'', jval.VInt (wrap64 (promptTokens + completionTokens)))])]"

definition nonStream :: "ResponseWriter \<Rightarrow> bytes \<Rightarrow> int \<Rightarrow> int \<Rightarrow> ResponseWriter" where
  "nonStream w model promptTokens completionTokens =
     (let w1 = w\<lparr>w_header := Header_Set (w_header w) ''Content-Type'' ''application/json''\<rparr>
      in case encode_line (nonStream_value model promptTokens completionTokens) of
           None \<Rightarrow> w1 | Some t \<Rightarrow> fst (Write w1 t))"

definition chunk_head :: "(nat \<Rightarrow> bool) \<Rightarrow> bytes \<Rightarrow> bytes" where
  "chunk_head isp model = ''data: {\"id\":\"chatcmpl-bench\",\"object\":\"chat.completion.chunk\",\"model\":'' @ Quote isp model"

definition delta_frame :: "(nat \<Rightarrow> bool) \<Rightarrow> bytes \<Rightarrow> bytes \<Rightarrow> bytes" where
  "delta_frame isp model content = chunk_head isp model @ '',\"choices\":[{\"index\":0,\"delta\":{\"content\":'' @ Quote isp content
     @ ''}}]}'' @ [CHR 0x0A, CHR 0x0A]"

definition usage_frame :: "(nat \<Rightarrow> bool) \<Rightarrow> bytes \<Rightarrow> int \<Rightarrow> int \<Rightarrow> bytes" where
  "usage_frame isp model promptTokens completionTokens = chunk_head isp model @ '',\"choices\":[],\"usage\":{\"prompt_tokens\":''
     @ itoa promptTokens @ '',\"completion_tokens\":'' @ itoa completionTokens
     @ '',\"total_tokens\":'' @ itoa (wrap64 (promptTokens + completionTokens)) @ ''}}'' @ [CHR 0x0A, CHR 0x0A]"

definition streamed_tokens :: "bytes list" where
  "streamed_tokens = [''hello'', '' from'', '' fake'', '' provider'']"

definition fake_streamResponse :: "(nat \<Rightarrow> bool) \<Rightarrow> ResponseWriter \<Rightarrow> bytes \<Rightarrow> int \<Rightarrow> int \<Rightarrow> ResponseWriter" where
  "fake_streamResponse isp w model promptTokens completionTokens =
     (let h = Header_Set (Header_Set (w_header w) ''Content-Type'' ''text/event-stream'') ''Cache-Control'' ''no-cache'';
          w1 = WriteHeader (w\<lparr>w_header := h\<rparr>) 200;
          w2 = foldl (\<lambda>w tok. fst (Write w (delta_frame isp model tok))) w1 streamed_tokens;
          w3 = fst (Write w2 (usage_frame isp model promptTokens completionTokens))
      in fst (Write w3 (''data: [DONE]'' @ [CHR 0x0A, CHR 0x0A])))"

definition fakeprovider :: "(nat \<Rightarrow> bool) \<Rightarrow> int \<Rightarrow> int \<Rightarrow> ResponseWriter \<Rightarrow> bytes \<Rightarrow> ResponseWriter" where
  "fakeprovider isp promptTokens completionTokens w body =
     (let req = fst (Unmarshal (dec_struct chat_request_fields) body \<lparr>cr_Model = [], cr_Stream = False\<rparr>);
          model = (if cr_Model req = [] then ''gpt-4o-mini'' else cr_Model req)
      in if cr_Stream req then fake_streamResponse isp w model promptTokens completionTokens
         else nonStream w model promptTokens completionTokens)"

definition provider_response :: "(nat \<Rightarrow> bool) \<Rightarrow> int \<Rightarrow> int \<Rightarrow> bytes \<Rightarrow> upstream_response" where
  "provider_response isp promptTokens completionTokens body =
     (let w = fakeprovider isp promptTokens completionTokens (fresh_writer None) body
      in \<lparr>up_StatusCode = (case w_status w of Some c \<Rightarrow> c | None \<Rightarrow> 200), up_Header = w_header w,
          up_Body = concat (w_body w), up_eof = None\<rparr>)"

text \<open>Printable ASCII without quotes and backslashes is quoted as it is.\<close>

lemma go_escapes_plain:
  "list_all (\<lambda>c. 0x20 \<le> (of_char c :: nat) \<and> (of_char c :: nat) < 0x7F \<and> c \<noteq> quote_char \<and> c \<noteq> backslash) s \<Longrightarrow> go_escapes isp s = s"
proof (induction s)
  case (Cons c s)
  then have "utf8_len (c # s) = 1" by (simp add: utf8_len_ascii)
  with Cons show ?case by (simp add: go_escapes.simps [of isp "c # s"] go_escape_def rune_of_def)
qed (simp add: go_escapes.simps [of isp "[]"])

lemma Quote_bench:
  "Quote isp ''gpt-4o-mini'' = ''\"gpt-4o-mini\"''"
  "Quote isp ''hello'' = ''\"hello\"''" "Quote isp '' from'' = ''\" from\"''" "Quote isp '' fake'' = ''\" fake\"''"
  "Quote isp '' provider'' = ''\" provider\"''"
  by (simp_all add: Quote_def go_escapes_plain)

subsection \<open>Decoding what the fake provider wrote\<close>

lemma chunk_keys:
  "find_field openai_chunk_fields (unquote ''id'') = None" "find_field openai_chunk_fields (unquote ''object'') = None"
  "find_field openai_chunk_fields (unquote ''choices'') = None" "find_field openai_usage_fields (unquote ''total_tokens'') = None"
  "unquote ''model'' = ''model''" "unquote ''usage'' = ''usage''" "unquote ''prompt_tokens'' = ''prompt_tokens''"
  "unquote ''completion_tokens'' = ''completion_tokens''" "unquote ''gpt-4o-mini'' = ''gpt-4o-mini''"
  by code_simp+

lemma dec_chunk:
  "find_field openai_chunk_fields (unquote k) = None \<Longrightarrow> dec_member openai_chunk_fields (x, ok) (k, r, v) = (x, ok)"
  "dec_member openai_chunk_fields (x, ok) (''model'', r, JStr ''gpt-4o-mini'') = (x\<lparr>oc_Model := ''gpt-4o-mini''\<rparr>, ok)"
  "oc_Usage x = None \<Longrightarrow> dec_member openai_chunk_fields (x, ok) (''usage'', r, JObj us) =
     (case foldl (dec_member openai_usage_fields) (\<lparr>PromptTokens = 0, CompletionTokens = 0\<rparr>, True) us of
        (n, ok') \<Rightarrow> (x\<lparr>oc_Usage := Some n\<rparr>, ok \<and> ok'))"
  by (auto simp: dec_member_def chunk_keys find_field_def openai_chunk_fields_def field_def dec_string_def dec_ptr_def
      dec_struct_def split: prod.split)

lemma dec_usage:
  "dec_member openai_usage_fields (x, ok) (''total_tokens'', r, v) = (x, ok)"
  "in_int64 n \<Longrightarrow> dec_member openai_usage_fields (x, ok) (''prompt_tokens'', r, JNum (itoa n)) = (x\<lparr>PromptTokens := n\<rparr>, ok)"
  "in_int64 n \<Longrightarrow> dec_member openai_usage_fields (x, ok) (''completion_tokens'', r, JNum (itoa n)) = (x\<lparr>CompletionTokens := n\<rparr>, ok)"
  by (simp_all add: dec_member_def chunk_keys) (simp_all add: find_field_def openai_usage_fields_def field_def dec_int_def)

definition num_member :: "bytes \<Rightarrow> int \<Rightarrow> bytes \<times> bytes \<times> json" where
  "num_member k n = (k, itoa n, JNum (itoa n))"

definition obj_text :: "(bytes \<times> bytes \<times> json) list \<Rightarrow> bytes" where
  "obj_text ms = CHR ''{'' # join_comma (map (\<lambda>(k, t, v). quote_char # k @ quote_char # CHR '':'' # t) ms) @ ''}''"

definition reported :: "int \<Rightarrow> int \<Rightarrow> Usage" where
  "reported pt ct = \<lparr>us_InputTokens = pt, us_OutputTokens = ct, us_Model = ''gpt-4o-mini'', HasUsage = True\<rparr>"

definition named :: "Usage \<Rightarrow> Usage" where
  "named u = u\<lparr>us_Model := ''gpt-4o-mini''\<rparr>"

text \<open>An object with the model and the usage, its other members unknown to the extractor.\<close>

lemma observe_object:
  assumes "parse_json t = Some (JObj ms)" "in_int64 pt" "in_int64 ct"
    and "us \<in> {[num_member ''prompt_tokens'' pt, num_member ''completion_tokens'' ct, num_member ''total_tokens'' tot],
      [num_member ''completion_tokens'' ct, num_member ''prompt_tokens'' pt, num_member ''total_tokens'' tot]}"
    and "ms = a @ [(''model'', r, JStr ''gpt-4o-mini'')] @ b @ [(''usage'', x, JObj us)]"
    and "\<forall>(k, r, v)\<in>set (a @ b). find_field openai_chunk_fields (unquote k) = None"
  shows "openai_observe t u = u\<lparr>us_Model := ''gpt-4o-mini'', us_InputTokens := pt, us_OutputTokens := ct, HasUsage := True\<rparr>"
proof -
  have skip: "foldl (dec_member openai_chunk_fields) (y, ok) c = (y, ok)"
    if "\<forall>(k, r, v)\<in>set c. find_field openai_chunk_fields (unquote k) = None" for y ok c
    using that by (induction c) (auto simp: dec_chunk(1))
  have us: "foldl (dec_member openai_usage_fields) (\<lparr>PromptTokens = 0, CompletionTokens = 0\<rparr>, True) us
      = (\<lparr>PromptTokens = pt, CompletionTokens = ct\<rparr>, True)"
    using assms(2-4) by (auto simp: num_member_def dec_usage)
  have "foldl (dec_member openai_chunk_fields) (\<lparr>oc_Model = [], oc_Usage = None\<rparr>, True) ms
      = (\<lparr>oc_Model = ''gpt-4o-mini'', oc_Usage = Some \<lparr>PromptTokens = pt, CompletionTokens = ct\<rparr>\<rparr>, True)"
    using assms(6) by (simp add: assms(5) skip dec_chunk(2,3) us)
  then show ?thesis using assms(1) by (simp add: openai_observe_def Unmarshal_def dec_struct_def)
qed

lemma plain_keys: "k \<in> {''id'', ''object'', ''choices'', ''model'', ''usage'', ''prompt_tokens'', ''completion_tokens'', ''total_tokens''}
    \<Longrightarrow> str_ok k"
  by (auto intro!: str_ok_plain)

lemma usage_json:
  "jvalue 1 (obj_text [num_member ''prompt_tokens'' pt, num_member ''completion_tokens'' ct, num_member ''total_tokens'' tot])
     (JObj [num_member ''prompt_tokens'' pt, num_member ''completion_tokens'' ct, num_member ''total_tokens'' tot])"
  "jvalue 1 (obj_text [num_member ''completion_tokens'' ct, num_member ''prompt_tokens'' pt, num_member ''total_tokens'' tot])
     (JObj [num_member ''completion_tokens'' ct, num_member ''prompt_tokens'' pt, num_member ''total_tokens'' tot])"
  unfolding obj_text_def One_nat_def
  by (rule object_json; simp add: num_member_def itoa_json plain_keys)+

text \<open>The usage frame of a stream.\<close>

definition usage_payload :: "int \<Rightarrow> int \<Rightarrow> bytes" where
  "usage_payload pt ct = ''{\"id\":\"chatcmpl-bench\",\"object\":\"chat.completion.chunk\",\"model\":\"gpt-4o-mini\",\"choices\":[],\"usage\":{\"prompt_tokens\":''
     @ itoa pt @ '',\"completion_tokens\":'' @ itoa ct @ '',\"total_tokens\":'' @ itoa (wrap64 (pt + ct)) @ ''}}''"

lemma usage_frame_bench: "usage_frame isp ''gpt-4o-mini'' pt ct = ''data: '' @ usage_payload pt ct @ [CHR 0x0A, CHR 0x0A]"
  by (simp add: usage_frame_def chunk_head_def Quote_bench usage_payload_def)

lemma str_json: "str_ok l \<Longrightarrow> t = quote_char # l @ [quote_char] \<Longrightarrow> jvalue d t (JStr l)"
  by (simp add: jstr)

lemma observe_usage_payload:
  assumes "in_int64 pt" "in_int64 ct"
  shows "openai_observe (usage_payload pt ct) u = u\<lparr>us_Model := ''gpt-4o-mini'', us_InputTokens := pt, us_OutputTokens := ct, HasUsage := True\<rparr>"
proof -
  let ?us = "[num_member ''prompt_tokens'' pt, num_member ''completion_tokens'' ct, num_member ''total_tokens'' (wrap64 (pt + ct))]"
  let ?a = "[(''id'', ''\"chatcmpl-bench\"'', JStr ''chatcmpl-bench''), (''object'', ''\"chat.completion.chunk\"'', JStr ''chat.completion.chunk'')]"
  let ?m = "(''model'', ''\"gpt-4o-mini\"'', JStr ''gpt-4o-mini'')"
  let ?b = "[(''choices'', ''[]'', JArr [])]"
  let ?ms = "?a @ [?m] @ ?b @ [(''usage'', obj_text ?us, JObj ?us)]"
  have "\<forall>(k, t, v)\<in>set ?ms. str_ok k \<and> jvalue 1 t v"
    using usage_json(1) [of pt ct "wrap64 (pt + ct)"] jarr0 [of "[]" 0]
    by (simp add: plain_keys str_json str_ok_plain)
  from object_json [OF this] have "jvalue 2 (obj_text ?ms) (JObj ?ms)" by (simp add: obj_text_def numeral_2_eq_2)
  from jvalue_parses [OF this] have p: "parse_json (obj_text ?ms) = Some (JObj ?ms)" by (simp add: max_depth_def)
  have t: "obj_text ?ms = usage_payload pt ct" by (simp add: obj_text_def usage_payload_def num_member_def)
  show ?thesis
    by (rule observe_object [OF p [unfolded t] assms, where us = ?us and a = ?a and b = ?b and tot = "wrap64 (pt + ct)"]) (simp_all add: chunk_keys)
qed

text \<open>The body of an unstreamed answer.\<close>

lemma observe_body:
  assumes "in_int64 pt" "in_int64 ct"
  shows "\<exists>t. encode_line (nonStream_value ''gpt-4o-mini'' pt ct) = Some t
    \<and> openai_observe t u = u\<lparr>us_Model := ''gpt-4o-mini'', us_InputTokens := pt, us_OutputTokens := ct, HasUsage := True\<rparr>"
proof -
  let ?us = "[num_member ''completion_tokens'' ct, num_member ''prompt_tokens'' pt, num_member ''total_tokens'' (wrap64 (pt + ct))]"
  let ?c = "''[{\"finish_reason\":\"stop\",\"index\":0,\"message\":{\"content\":\"hello from fakeprovider\",\"role\":\"assistant\"}}]''"
  have "map_option snd (parse_value 200 3 ?c) = Some []" by code_simp
  then obtain v where "parse_value 200 3 ?c = Some (v, [])" by auto
  from parse_value_sound [OF this] have c: "jvalue 3 ?c v" by simp
  let ?a = "[(''choices'', ?c, v), (''id'', ''\"chatcmpl-bench\"'', JStr ''chatcmpl-bench'')]"
  let ?m = "(''model'', ''\"gpt-4o-mini\"'', JStr ''gpt-4o-mini'')"
  let ?b = "[(''object'', ''\"chat.completion\"'', JStr ''chat.completion'')]"
  let ?ms = "?a @ [?m] @ ?b @ [(''usage'', obj_text ?us, JObj ?us)]"
  have "jvalue 3 (obj_text ?us) (JObj ?us)" using usage_json(2) by (rule jvalue_mono(1)) simp
  with c have "\<forall>(k, t, v)\<in>set ?ms. str_ok k \<and> jvalue 3 t v" by (simp add: plain_keys str_json str_ok_plain)
  from object_json [OF this] have "jvalue 4 (obj_text ?ms) (JObj ?ms)" by (simp add: obj_text_def eval_nat_numeral)
  from parse_line [OF this] have p: "parse_json (obj_text ?ms @ [CHR 0x0A]) = Some (JObj ?ms)" by (simp add: max_depth_def)
  have q: "quote_string ''choices'' = ''\"choices\"''" "quote_string ''finish_reason'' = ''\"finish_reason\"''" "quote_string ''stop'' = ''\"stop\"''"
    "quote_string ''index'' = ''\"index\"''" "quote_string ''message'' = ''\"message\"''" "quote_string ''content'' = ''\"content\"''"
    "quote_string ''hello from fakeprovider'' = ''\"hello from fakeprovider\"''" "quote_string ''role'' = ''\"role\"''"
    "quote_string ''assistant'' = ''\"assistant\"''" "quote_string ''id'' = ''\"id\"''" "quote_string ''chatcmpl-bench'' = ''\"chatcmpl-bench\"''"
    "quote_string ''model'' = ''\"model\"''" "quote_string ''gpt-4o-mini'' = ''\"gpt-4o-mini\"''" "quote_string ''object'' = ''\"object\"''"
    "quote_string ''chat.completion'' = ''\"chat.completion\"''" "quote_string ''usage'' = ''\"usage\"''"
    "quote_string ''completion_tokens'' = ''\"completion_tokens\"''" "quote_string ''prompt_tokens'' = ''\"prompt_tokens\"''"
    "quote_string ''total_tokens'' = ''\"total_tokens\"''" "itoa 0 = ''0''" by code_simp+
  have "encode_line (nonStream_value ''gpt-4o-mini'' pt ct) = Some (obj_text ?ms @ [CHR 0x0A])"
    by (simp add: encode_line_def nonStream_value_def q obj_text_def num_member_def)
  moreover have "openai_observe (obj_text ?ms @ [CHR 0x0A]) u
      = u\<lparr>us_Model := ''gpt-4o-mini'', us_InputTokens := pt, us_OutputTokens := ct, HasUsage := True\<rparr>"
    by (rule observe_object [OF p assms, where us = ?us and a = ?a and b = ?b and tot = "wrap64 (pt + ct)"]) (simp_all add: chunk_keys)
  ultimately show ?thesis by blast
qed

subsection \<open>Framed events\<close>

lemma trim_seqs_visible:
  assumes "visible c" "\<And>p. p \<in> set ps \<Longrightarrow> \<exists>d q. p = d # q \<and> \<not> visible d" shows "trim_seqs ps (c # s) = c # s"
proof -
  have "cut_any ps (c # s) = None" unfolding cut_any_None
  proof (intro ballI impI)
    fix p assume "p \<in> set ps"
    with assms(2) obtain d q where "p = d # q" "\<not> visible d" by blast
    with assms(1) show "\<not> has_prefix (c # s) p" by (auto simp: has_prefix_iff)
  qed
  then show ?thesis by (rule trim_seqs_id)
qed

lemma cut_space: "cut_any space_seqs (CHR '' '' # x) = Some x"
  by (simp add: space_seqs_def ascii_spaces_def)

lemma TrimSpace_ends: "x \<noteq> [] \<Longrightarrow> visible (hd x) \<Longrightarrow> visible (last x) \<Longrightarrow> trim_seqs space_seqs x = x \<and> TrimSpace x = x"
proof -
  assume x: "x \<noteq> []" "visible (hd x)" "visible (last x)"
  from x(1,2) trim_seqs_visible [of "hd x" space_seqs "tl x"] space_seqs_visible have a: "trim_seqs space_seqs x = x" by auto
  have r: "rev x = last x # rev (butlast x)" using x(1) by (metis append_butlast_last_id rev_eq_Cons_iff rev_rev_ident)
  have "\<exists>d q. p = d # q \<and> \<not> visible d" if "p \<in> set (map rev space_seqs)" for p
  proof -
    from that obtain p0 where "p0 \<in> set space_seqs" "p = rev p0" by auto
    with space_seqs_rev_visible show ?thesis by blast
  qed
  from trim_seqs_visible [OF x(3) this, where s = "rev (butlast x)"]
  have b: "trim_seqs (map rev space_seqs) (rev x) = rev x" unfolding r .
  show ?thesis using a b by (simp add: TrimSpace_def)
qed

lemma TrimSpace_payload: "x \<noteq> [] \<Longrightarrow> visible (hd x) \<Longrightarrow> visible (last x) \<Longrightarrow> TrimSpace (CHR '' '' # x) = x"
proof -
  assume x: "x \<noteq> []" "visible (hd x)" "visible (last x)"
  have "trim_seqs space_seqs (CHR '' '' # x) = x"
    by (subst trim_seqs.simps) (simp add: cut_space TrimSpace_ends [OF x])
  then have "TrimSpace (CHR '' '' # x) = TrimSpace x" by (simp add: TrimSpace_def TrimSpace_ends [OF x])
  with TrimSpace_ends [OF x] show ?thesis by simp
qed

definition frame :: "bytes \<Rightarrow> bytes" where
  "frame x = ''data: '' @ x @ [CHR 0x0A, CHR 0x0A]"

definition payload_ok :: "bytes \<Rightarrow> bool" where
  "payload_ok x \<longleftrightarrow> x \<noteq> [] \<and> visible (hd x) \<and> visible (last x) \<and> CHR 0x0A \<notin> set x"

lemma ReadBytes_line: "CHR 0x0A \<notin> set t \<Longrightarrow> ReadBytes (t @ CHR 0x0A # r) = (t @ [CHR 0x0A], r, True)"
  by (induction t) auto

lemma lines_of_line: "CHR 0x0A \<notin> set t \<Longrightarrow> lines_of (t @ CHR 0x0A # r) = (t @ [CHR 0x0A]) # lines_of r"
  by (subst lines_of.simps) (simp add: ReadBytes_line)

lemma lines_of_frame: "payload_ok x \<Longrightarrow> lines_of (frame x @ r) = (''data: '' @ x @ [CHR 0x0A]) # [CHR 0x0A] # lines_of r"
proof -
  assume "payload_ok x"
  then have "lines_of ((''data: '' @ x) @ CHR 0x0A # CHR 0x0A # r) = ((''data: '' @ x) @ [CHR 0x0A]) # lines_of (CHR 0x0A # r)"
    by (intro lines_of_line) (simp add: payload_ok_def)
  moreover have "lines_of (CHR 0x0A # r) = [CHR 0x0A] # lines_of r" using lines_of_line [of "[]" r] by simp
  ultimately show ?thesis by (simp add: frame_def)
qed

lemma trimmed_data: "payload_ok x \<Longrightarrow> trimmed_line (''data: '' @ x @ [CHR 0x0A]) = ''data: '' @ x"
proof -
  assume x: "payload_ok x"
  have r: "rev x = last x # rev (butlast x)" using x by (metis append_butlast_last_id payload_ok_def rev_eq_Cons_iff rev_rev_ident)
  have "last x \<noteq> CHR 0x0A" "last x \<noteq> CHR 0x0D" using x by (auto simp: payload_ok_def visible_def)
  then have "dropWhile (\<lambda>c. c \<in> set [CHR 0x0D, CHR 0x0A]) (rev (''data: '' @ x @ [CHR 0x0A])) = rev (''data: '' @ x)" by (simp add: r)
  then show ?thesis unfolding trimmed_line_def TrimRight_def by simp
qed

lemma not_blank_data: "payload_ok x \<Longrightarrow> \<not> is_blank (''data: '' @ x @ [CHR 0x0A])"
proof -
  assume x: "payload_ok x"
  then have "TrimSpace (''data: '' @ x) = ''data: '' @ x"
    by (intro TrimSpace_ends [THEN conjunct2]) (simp_all add: payload_ok_def visible_def)
  then show ?thesis unfolding is_blank_def trimmed_data [OF x] by simp
qed

lemma blank_line: "is_blank [CHR 0x0A]"
  by code_simp

text \<open>A framed payload is one event, whose payload is what was framed.\<close>

lemma events_of_frame: "payload_ok x \<Longrightarrow> events_of (frame x @ r) = [''data: '' @ x @ [CHR 0x0A], [CHR 0x0A]] # events_of r"
  using not_blank_data [of x] blank_line unfolding events_of_def by (subst lines_of_frame) simp_all

lemma payloads_frame: "payload_ok x \<Longrightarrow> payloads [''data: '' @ x @ [CHR 0x0A], [CHR 0x0A]] = [x]"
proof -
  assume x: "payload_ok x"
  have "line_data (''data: '' @ x @ [CHR 0x0A]) = [x]"
    unfolding line_data_def trimmed_data [OF x] using not_blank_data [OF x] TrimSpace_payload [of x] x
    by (simp add: payload_ok_def)
  moreover have "line_data [CHR 0x0A] = []" by (simp add: line_data_def blank_line)
  ultimately show ?thesis by (simp add: payloads_def)
qed

lemma events_of_nil: "events_of [] = []"
  by (simp add: events_of_def lines_of.simps [of "[]"])

lemma payloads_of_frames: "list_all payload_ok xs \<Longrightarrow> concat (map payloads (events_of (concat (map frame xs)))) = xs"
  by (induction xs) (simp_all add: events_of_nil events_of_frame payloads_frame del: append.simps)

subsection \<open>A whole answer\<close>

definition delta_payload :: "bytes \<Rightarrow> bytes" where
  "delta_payload c = ''{\"id\":\"chatcmpl-bench\",\"object\":\"chat.completion.chunk\",\"model\":\"gpt-4o-mini\",\"choices\":[{\"index\":0,\"delta\":{\"content\":\"''
     @ c @ ''\"}}]}''"

definition stream_payloads :: "int \<Rightarrow> int \<Rightarrow> bytes list" where
  "stream_payloads pt ct = map delta_payload streamed_tokens @ [usage_payload pt ct, ''[DONE]'']"

lemma delta_frames: "c \<in> set streamed_tokens \<Longrightarrow> delta_frame isp ''gpt-4o-mini'' c = frame (delta_payload c)"
  by (auto simp: streamed_tokens_def delta_frame_def chunk_head_def Quote_bench frame_def delta_payload_def)

lemma usage_frame_frame: "usage_frame isp ''gpt-4o-mini'' pt ct = frame (usage_payload pt ct)"
  by (simp only: usage_frame_bench frame_def)

lemma Write_stays: "w_gone w = None \<Longrightarrow> w_status w = Some c \<Longrightarrow> fst (Write w b) = w\<lparr>w_body := w_body w @ [b]\<rparr>"
  by (simp add: Write_def Let_def)

lemma stream_answer:
  assumes "w_gone w = None" "w_status w = None" "w_body w = []"
  shows "w_body (fake_streamResponse isp w ''gpt-4o-mini'' pt ct) = map frame (stream_payloads pt ct)
    \<and> w_status (fake_streamResponse isp w ''gpt-4o-mini'' pt ct) = Some 200
    \<and> w_header (fake_streamResponse isp w ''gpt-4o-mini'' pt ct)
        = Header_Set (Header_Set (w_header w) ''Content-Type'' ''text/event-stream'') ''Cache-Control'' ''no-cache''"
proof -
  define w1 where "w1 = WriteHeader (w\<lparr>w_header := Header_Set (Header_Set (w_header w) ''Content-Type'' ''text/event-stream'')
      ''Cache-Control'' ''no-cache''\<rparr>) 200"
  have w1: "w_gone w1 = None" "w_status w1 = Some 200" "w_body w1 = []"
    "w_header w1 = Header_Set (Header_Set (w_header w) ''Content-Type'' ''text/event-stream'') ''Cache-Control'' ''no-cache''"
    using assms by (simp_all add: w1_def)
  have fold: "foldl (\<lambda>w tok. fst (Write w (delta_frame isp ''gpt-4o-mini'' tok))) w1 toks = w1\<lparr>w_body := map (\<lambda>tok. frame (delta_payload tok)) toks\<rparr>"
    if "set toks \<subseteq> set streamed_tokens" for toks
    using that by (induction toks rule: rev_induct) (simp_all add: w1 Write_stays delta_frames)
  have last_frame: "frame ''[DONE]'' = ''data: [DONE]'' @ [CHR 0x0A, CHR 0x0A]" by (simp add: frame_def)
  have "fake_streamResponse isp w ''gpt-4o-mini'' pt ct = w1\<lparr>w_body := map frame (stream_payloads pt ct)\<rparr>"
    unfolding fake_streamResponse_def Let_def w1_def [symmetric]
    by (subst fold) (simp_all add: Write_stays w1 usage_frame_frame stream_payloads_def last_frame comp_def)
  with w1 show ?thesis by simp
qed

lemma payloads_ok: "list_all payload_ok (stream_payloads pt ct)"
proof -
  have "one_line (usage_payload pt ct)" by (simp add: usage_payload_def)
  then have "CHR 0x0A \<notin> set (usage_payload pt ct)" by (auto simp: one_line_def list_all_iff printable_def)
  then have "payload_ok (usage_payload pt ct)" by (simp add: payload_ok_def usage_payload_def visible_def)
  moreover have "list_all payload_ok (map delta_payload streamed_tokens)" "payload_ok ''[DONE]''" by code_simp+
  ultimately show ?thesis by (simp add: stream_payloads_def)
qed

definition delta_choices :: "bytes \<Rightarrow> bytes" where
  "delta_choices c = ''[{\"index\":0,\"delta\":{\"content\":\"'' @ c @ ''\"}}]''"

lemma delta_choices_json: "c \<in> set streamed_tokens \<Longrightarrow> \<exists>v. jvalue 3 (delta_choices c) v"
proof -
  assume c: "c \<in> set streamed_tokens"
  have "map_option snd (parse_value 200 3 (delta_choices ''hello'')) = Some []"
    "map_option snd (parse_value 200 3 (delta_choices '' from'')) = Some []"
    "map_option snd (parse_value 200 3 (delta_choices '' fake'')) = Some []"
    "map_option snd (parse_value 200 3 (delta_choices '' provider'')) = Some []" by code_simp+
  with c have "map_option snd (parse_value 200 3 (delta_choices c)) = Some []" by (auto simp: streamed_tokens_def)
  then obtain v where "parse_value 200 3 (delta_choices c) = Some (v, [])" by auto
  from parse_value_sound [OF this] show ?thesis by auto
qed

lemma observe_deltas: "c \<in> set streamed_tokens \<Longrightarrow> openai_observe (delta_payload c) u = named u"
proof -
  assume "c \<in> set streamed_tokens"
  from delta_choices_json [OF this] obtain v where v: "jvalue 3 (delta_choices c) v" by blast
  let ?ms = "[(''id'', ''\"chatcmpl-bench\"'', JStr ''chatcmpl-bench''), (''object'', ''\"chat.completion.chunk\"'', JStr ''chat.completion.chunk''),
    (''model'', ''\"gpt-4o-mini\"'', JStr ''gpt-4o-mini''), (''choices'', delta_choices c, v)]"
  have "\<forall>(k, t, v)\<in>set ?ms. str_ok k \<and> jvalue 3 t v" using v by (simp add: plain_keys str_json str_ok_plain)
  from object_json [OF this] have "jvalue 4 (obj_text ?ms) (JObj ?ms)" by (simp add: obj_text_def eval_nat_numeral)
  from jvalue_parses [OF this] have "parse_json (obj_text ?ms) = Some (JObj ?ms)" by (simp add: max_depth_def)
  moreover have "obj_text ?ms = delta_payload c" by (simp add: obj_text_def delta_payload_def delta_choices_def)
  ultimately show "openai_observe (delta_payload c) u = named u"
    by (simp add: openai_observe_def Unmarshal_def dec_struct_def dec_chunk chunk_keys named_def)
qed

lemma observe_done: "openai_observe ''[DONE]'' u = u"
proof -
  have "snd (Unmarshal (dec_struct openai_chunk_fields) ''[DONE]'' \<lparr>oc_Model = [], oc_Usage = None\<rparr>) = False" by code_simp
  then obtain c where "Unmarshal (dec_struct openai_chunk_fields) ''[DONE]'' \<lparr>oc_Model = [], oc_Usage = None\<rparr> = (c, False)"
    by (metis prod.collapse)
  then show ?thesis by (simp add: openai_observe_def)
qed

lemma observe_stream:
  assumes "in_int64 pt" "in_int64 ct" shows "fold openai_observe (stream_payloads pt ct) zero_Usage = reported pt ct"
  using assms
  by (simp add: stream_payloads_def streamed_tokens_def observe_deltas [unfolded streamed_tokens_def] observe_usage_payload observe_done reported_def named_def zero_Usage_def)

end
