(* ===== verification/LoadGen.thy ===== *)
theory LoadGen
  imports FakeProvider
begin

section \<open>LoadGen: the load generator, and the load test as a whole\<close>

text \<open>
  \<open>bench/loadgen/main.go\<close>, which sends one request after the other and reports percentiles. The context that
  ends a phase is the environment: a phase is given, for each worker, the results of the calls it made before its
  context expired.
\<close>

subsection \<open>The load generator\<close>

record flags =
  fl_url :: bytes
  fl_c :: int
  fl_d :: int
  fl_key :: bytes
  fl_stream :: bool
  fl_out :: bytes

definition bench_body :: "bool \<Rightarrow> bytes" where
  "bench_body stream =
     (if stream
      then ''{\"model\":\"gpt-4o-mini\",\"messages\":[{\"role\":\"user\",\"content\":\"hello\"}],\"max_tokens\":50,\"stream\":true}''
      else ''{\"model\":\"gpt-4o-mini\",\"messages\":[{\"role\":\"user\",\"content\":\"hello\"}],\"max_tokens\":50}'')"

definition bench_request :: "flags \<Rightarrow> outbound" where
  "bench_request F =
     (let h = Header_Set (Header_Set Map.empty ''Content-Type'' ''application/json'') ''X-Spendgate-Feature'' ''bench'';
          h = (if fl_key F \<noteq> [] then Header_Set h ''Authorization'' (''Bearer '' @ fl_key F) else h)
      in \<lparr>ob_Method = ''POST'', ob_Target = fl_url F, ob_Header = h, ob_Body = bench_body (fl_stream F)\<rparr>)"

text \<open>One call: the time it took and whether it counts; \<open>None\<close> is the panic of a URL that does not parse,
  whose request is nil.\<close>

definition bench_do :: "flags \<Rightarrow> bool \<Rightarrow> (outbound \<Rightarrow> upstream_error + upstream_response) \<Rightarrow> int \<Rightarrow> int \<Rightarrow> (int \<times> bool) option" where
  "bench_do F parses client start now =
     (if \<not> parses then None
      else case client (bench_request F) of
             Inl _ \<Rightarrow> Some (0, False)
           | Inr resp \<Rightarrow>
               if up_StatusCode resp < 200 \<or> 300 \<le> up_StatusCode resp then Some (0, False)
               else Some (now - start, True))"

definition worker_step :: "bool \<Rightarrow> int list \<times> int \<Rightarrow> int \<times> bool \<Rightarrow> int list \<times> int" where
  "worker_step record_it r call =
     (if \<not> record_it then r
      else if snd call then (fst r @ [fst call], snd r) else (fst r, snd r + 1))"

definition runPhase :: "bool \<Rightarrow> (int \<times> bool) list list \<Rightarrow> int list \<times> int" where
  "runPhase record_it calls =
     (let results = map (foldl (worker_step record_it) ([], 0)) calls
      in foldl (\<lambda>(lats, errs) r. (lats @ fst r, errs + snd r)) ([], 0) results)"

definition pct :: "arch \<Rightarrow> int list \<Rightarrow> f64 \<Rightarrow> int option" where
  "pct A lats p =
     (if lats = [] then Some 0
      else let i = f64_to_int64 A (fmul p (f64_of_int (int (length lats))));
               i = (if int (length lats) \<le> i then int (length lats) - 1 else i)
           in if i < 0 then None else Some (lats ! nat i))"

text \<open>\<open>time.Duration\<close>'s \<open>Microseconds\<close> and \<open>Seconds\<close> truncate toward zero.\<close>

definition tdiv :: "int \<Rightarrow> int \<Rightarrow> int" where
  "tdiv a b = (if 0 \<le> a then a div b else - (- a div b))"

definition ms :: "int \<Rightarrow> f64" where
  "ms d = fdiv_const (f64_of_int (tdiv d 1000)) 1000"

definition Seconds :: "int \<Rightarrow> f64" where
  "Seconds d = fadd (f64_of_int (tdiv d 1000000000)) (fdiv_const (f64_of_int (d - tdiv d 1000000000 * 1000000000)) 1000000000)"

text \<open>\<open>%.nf\<close>: the exact value rounded to \<open>n\<close> decimals.\<close>

definition format_fixed :: "nat \<Rightarrow> f64 \<Rightarrow> bytes" where
  "format_fixed n x =
     (case x of
        NaN \<Rightarrow> ''NaN'' | PInf \<Rightarrow> ''+Inf'' | NInf \<Rightarrow> ''-Inf''
      | Fin q \<Rightarrow>
          (let v = nat (round_half_even (\<bar>q\<bar> * 10 ^ n));
               t = digits (v div 10 ^ n) @ (if n = 0 then [] else CHR ''.'' # pad_int n (int (v mod 10 ^ n)))
           in if q < 0 then CHR ''-'' # t else t))"

definition percentiles :: "arch \<Rightarrow> int list \<Rightarrow> (int \<times> int \<times> int) option" where
  "percentiles A lats =
     (case (pct A lats (rnd64 (1 / 2)), pct A lats (rnd64 (95 / 100)), pct A lats (rnd64 (99 / 100))) of
        (Some p50, Some p95, Some p99) \<Rightarrow> Some (p50, p95, p99)
      | _ \<Rightarrow> None)"

definition result_line :: "flags \<Rightarrow> int list \<Rightarrow> int \<Rightarrow> int \<times> int \<times> int \<Rightarrow> bytes" where
  "result_line F lats errs = (\<lambda>(p50, p95, p99).
     let rps = fdiv (f64_of_int (int (length lats))) (Seconds (fl_d F))
     in format_fixed 3 (ms p50) @ '' '' @ format_fixed 3 (ms p95) @ '' '' @ format_fixed 3 (ms p99) @ '' ''
          @ format_fixed 0 rps @ '' '' @ itoa (int (length lats)) @ '' '' @ itoa errs @ [CHR 0x0A])"

definition printed_line :: "flags \<Rightarrow> int list \<Rightarrow> int \<Rightarrow> int \<times> int \<times> int \<Rightarrow> bytes" where
  "printed_line F lats errs = (\<lambda>(p50, p95, p99).
     let rps = fdiv (f64_of_int (int (length lats))) (Seconds (fl_d F))
     in ''count='' @ itoa (int (length lats)) @ '' errors='' @ itoa errs @ '' rps='' @ format_fixed 0 rps
          @ '' p50='' @ format_fixed 3 (ms p50) @ ''ms p95='' @ format_fixed 3 (ms p95) @ ''ms p99='' @ format_fixed 3 (ms p99)
          @ ''ms'' @ [CHR 0x0A])"

text \<open>The measured phase and its report: the exit status 2 of a missing URL, or what is printed and what is
  written to the file of \<open>-out\<close>. The warm-up phase has no result.\<close>

definition loadgen :: "arch \<Rightarrow> flags \<Rightarrow> (int \<times> bool) list list \<Rightarrow> (int + bytes \<times> bytes option) option" where
  "loadgen A F calls =
     (if fl_url F = [] then Some (Inl 2)
      else case runPhase True calls of
             (lats, errs) \<Rightarrow>
               map_option (\<lambda>p. Inr (printed_line F (sort lats) errs p,
                     if fl_out F = [] then None else Some (result_line F (sort lats) errs p)))
                 (percentiles A (sort lats)))"

subsection \<open>The gateway between the load generator and the fake provider\<close>

definition bench_forwarded :: "bool \<Rightarrow> bytes" where
  "bench_forwarded stream = (if stream
     then ''{\"max_tokens\":50,\"messages\":[{\"role\":\"user\",\"content\":\"hello\"}],\"model\":\"gpt-4o-mini\",\"stream\":true,\"stream_options\":{\"include_usage\":true}}''
     else bench_body False)"

lemma bench_injected: "maybeInjectUsage (bench_body st) = Some (bench_forwarded st, st)"
  by (induction st) code_simp+

lemma bench_decodes:
  "fst (Unmarshal (dec_struct chat_request_fields) (bench_forwarded st) \<lparr>cr_Model = [], cr_Stream = False\<rparr>)
     = \<lparr>cr_Model = ''gpt-4o-mini'', cr_Stream = st\<rparr>"
  by (induction st) code_simp+

text \<open>What the fake provider answers to the load generator's request, as the gateway forwards it.\<close>

lemma content_types:
  "contains (Header_Get (Header_Set (Header_Set Map.empty ''Content-Type'' ''text/event-stream'') ''Cache-Control'' ''no-cache'') ''Content-Type'') ''text/event-stream''"
  "\<not> contains (Header_Get (Header_Set Map.empty ''Content-Type'' ''application/json'') ''Content-Type'') ''text/event-stream''"
  by code_simp+

lemma streamed_answer: "provider_response isp pt ct (bench_forwarded True) =
    \<lparr>up_StatusCode = 200, up_Header = Header_Set (Header_Set Map.empty ''Content-Type'' ''text/event-stream'') ''Cache-Control'' ''no-cache'',
     up_Body = concat (map frame (stream_payloads pt ct)), up_eof = None\<rparr>"
  using stream_answer [of "fresh_writer None" isp pt ct]
  by (simp add: provider_response_def fakeprovider_def Let_def bench_decodes fresh_writer_def)

lemma plain_answer:
  assumes "in_int64 pt" "in_int64 ct"
  shows "\<exists>t. provider_response isp pt ct (bench_forwarded False) =
     \<lparr>up_StatusCode = 200, up_Header = Header_Set Map.empty ''Content-Type'' ''application/json'', up_Body = t, up_eof = None\<rparr>
     \<and> parseUsage ''openai'' t = reported pt ct"
proof -
  from observe_body [OF assms, of zero_Usage] obtain t where t: "encode_line (nonStream_value ''gpt-4o-mini'' pt ct) = Some t"
    "openai_observe t zero_Usage = reported pt ct" by (auto simp: reported_def zero_Usage_def)
  then have "provider_response isp pt ct (bench_forwarded False) =
     \<lparr>up_StatusCode = 200, up_Header = Header_Set Map.empty ''Content-Type'' ''application/json'', up_Body = t, up_eof = None\<rparr>"
    by (simp add: provider_response_def fakeprovider_def Let_def bench_decodes nonStream_def fresh_writer_def Write_def WriteHeader_def)
  with t(2) show ?thesis by (simp add: parseUsage_def openaiNonStreamUsage_def)
qed

lemma bench_send:
  assumes "in_int64 pt" "in_int64 ct" "pv_Name pv = ''openai''" "url_ok E"
    and "upstream E = (\<lambda>req. Inr (provider_response isp pt ct (ob_Body req)))" "w_status w = None" "w_gone w = None"
    and "send_upstream P E w r pv t (bench_forwarded st) st res g = (w', g')"
  shows "w_status w' = Some 200 \<and> g' = enqueue P E res t (Header_Get (rq_Header r) ''X-Spendgate-Feature'') ''openai'' ''gpt-4o-mini'' pt ct False 200
    (g\<lparr>gw_sent := gw_sent g @ [outbound_request r pv (bench_forwarded st)]\<rparr>)"
proof (cases st)
  case False
  from plain_answer [OF assms(1,2), of isp] obtain t where
    a: "provider_response isp pt ct (bench_forwarded False) =
      \<lparr>up_StatusCode = 200, up_Header = Header_Set Map.empty ''Content-Type'' ''application/json'', up_Body = t, up_eof = None\<rparr>"
    "parseUsage ''openai'' t = reported pt ct" by blast
  have "ob_Body (outbound_request r pv b) = b" for b by (simp add: outbound_request_def Let_def)
  with assms(3-8) False a content_types(2) show ?thesis
    by (auto simp: send_upstream_def Let_def bufferedResponse_def reported_def modelOr_def)
next
  case True
  define w1 where "w1 = WriteHeader (w\<lparr>w_header := copyResponseHeaders (w_header w)
      (Header_Set (Header_Set Map.empty ''Content-Type'' ''text/event-stream'') ''Cache-Control'' ''no-cache'')\<rparr>) 200"
  obtain w2 u e where s: "streamSSE Write w1 (concat (map frame (stream_payloads pt ct))) None openai_observe zero_Usage
      (Some usage_frame_filter) = ((w2, u), e)" by (metis prod.collapse)
  from sse_stream_events [OF s] obtain ok where
    "relay_events Write openai_observe (Some usage_frame_filter) (events_of (concat (map frame (stream_payloads pt ct)))) w1 zero_Usage = ((w2, u), ok)"
    by blast
  from relay_stays [OF _ this] have u: "u = reported pt ct"
    using assms(7) by (simp add: w1_def payloads_of_frames [OF payloads_ok] observe_stream [OF assms(1,2)])
  have "w_status w1 = Some 200" using assms(6) by (simp add: w1_def)
  from streamSSE_status [OF this] s have w2: "w_status w2 = Some 200" by (metis fst_conv)
  have "ob_Body (outbound_request r pv b) = b" for b by (simp add: outbound_request_def Let_def)
  with assms(3-5,8) True streamed_answer [of isp pt ct] content_types(1) s u w2 show ?thesis
    by (auto simp: send_upstream_def Let_def streamResponse_def newExtractor_def w1_def [symmetric] reported_def modelOr_def)
qed

text \<open>C14: the load test meters what the provider reports. Whatever counts the fake provider is started with, a
  request of the load generator that the budget admits, streamed or not, is answered 200 through the gateway, and
  exactly one event is handed to the meter: the counts of the provider, its model, not estimated.\<close>

theorem load_test_is_metered:
  assumes "in_int64 pt" "in_int64 ct" "pv_Name pv = ''openai''" "url_ok E"
    and "upstream E = (\<lambda>req. Inr (provider_response isp pt ct (ob_Body req)))" "w_status w = None" "w_gone w = None"
    and "rq_Body r = bench_body st"
    and "checkBudget P E w pv (request_tenant r) (bench_forwarded st) (gw_redis g) = (w1, r1, res, True)"
    and "forward P E w r pv g = (w', g', out)"
  shows "out = Served \<and> w_status w' = Some 200
    \<and> g' = enqueue P E res (request_tenant r) (Header_Get (rq_Header r) ''X-Spendgate-Feature'') ''openai'' ''gpt-4o-mini'' pt ct False 200
        (g\<lparr>gw_redis := r1, gw_sent := gw_sent g @ [outbound_request r pv (bench_forwarded st)]\<rparr>)"
proof -
  have b: "outgoing_body pv (rq_Body r) = Some (bench_forwarded st, st)"
    using assms(3,8) by (simp add: outgoing_body_def bench_injected)
  have w: "w1 = w" using checkBudget_go [OF assms(9)] .
  obtain w2 g2 where s: "send_upstream P E w r pv (request_tenant r) (bench_forwarded st) st res (g\<lparr>gw_redis := r1\<rparr>) = (w2, g2)"
    by fastforce
  from forward_unfold [OF b assms(9)] assms(10) s w have "w' = w2" "g' = g2" "out = Served" by auto
  with bench_send [OF assms(1-7) s] show ?thesis by simp
qed

definition bench_arrives :: "bool \<Rightarrow> Tenant Request" where
  "bench_arrives st = \<lparr>Method = ''POST'', Path = ''/openai/v1/chat/completions'', RawQuery = [],
     rq_Header = Map.empty, rq_Body = bench_body st, rq_tenant = Some \<lparr>ID = 7, Name = ''bench'', FailOpen = True, MonthlyBudgetUSD = None\<rparr>\<rparr>"

definition bench_weather :: weather where
  "bench_weather = (demo_weather Delivered [])\<lparr>upstream := (\<lambda>req. Inr (provider_response (\<lambda>_. True) 12 8 (ob_Body req)))\<rparr>"

theorem load_test_is_metered_witness:
  "\<exists>w' g'. forward demo_proxy bench_weather (fresh_writer None) (bench_arrives True) demo_openai (demo_gateway 0) = (w', g', Served)
    \<and> w_status w' = Some 200
    \<and> g' = enqueue demo_proxy bench_weather no_reservation (request_tenant (bench_arrives True)) [] ''openai'' ''gpt-4o-mini'' 12 8 False 200
        (demo_gateway 0\<lparr>gw_sent := [outbound_request (bench_arrives True) demo_openai (bench_forwarded True)]\<rparr>)"
proof -
  obtain w' g' out where f: "forward demo_proxy bench_weather (fresh_writer None) (bench_arrives True) demo_openai (demo_gateway 0) = (w', g', out)"
    by (metis prod_cases3)
  have c: "checkBudget demo_proxy bench_weather (fresh_writer None) demo_openai (request_tenant (bench_arrives True)) (bench_forwarded True)
      (gw_redis (demo_gateway 0)) = (fresh_writer None, gw_redis (demo_gateway 0), no_reservation, True)"
    by (simp add: checkBudget_def bench_arrives_def)
  have i: "in_int64 12" "in_int64 8" by (simp_all add: int64_defs)
  have p: "pv_Name demo_openai = ''openai''" "rq_Body (bench_arrives True) = bench_body True" "rq_Header (bench_arrives True) = Map.empty"
    "gw_sent (demo_gateway 0) = []" by (simp_all add: demo_openai_def bench_arrives_def demo_gateway_def)
  have E: "url_ok bench_weather" "upstream bench_weather = (\<lambda>req. Inr (provider_response (\<lambda>_. True) 12 8 (ob_Body req)))"
    by (simp_all add: bench_weather_def demo_weather_def)
  have w: "w_status (fresh_writer None) = None" "w_gone (fresh_writer None) = None" by (simp_all add: fresh_writer_def)
  have h: "Header_Get Map.empty ''X-Spendgate-Feature'' = []" by (simp add: Header_Get_def)
  from load_test_is_metered [OF i p(1) E w p(2) c f] f show ?thesis by (simp add: p(3,4) h)
qed

subsection \<open>What the load generator reports\<close>

lemma worker_result: "foldl (worker_step True) r cs =
    (fst r @ map fst (filter snd cs), snd r + int (length (filter (\<lambda>c. \<not> snd c) cs)))"
  by (induction cs arbitrary: r) (auto simp: worker_step_def)

lemma runPhase_result: "runPhase True calls =
    (map fst (filter snd (concat calls)), int (length (filter (\<lambda>c. \<not> snd c) (concat calls))))"
proof -
  have "foldl (\<lambda>(lats, errs) r. (lats @ fst r, errs + snd r)) a (map (foldl (worker_step True) ([], 0)) cs) =
      (fst a @ map fst (filter snd (concat cs)), snd a + int (length (filter (\<lambda>c. \<not> snd c) (concat cs))))" for a cs
    by (induction cs arbitrary: a) (auto simp: worker_result)
  from this [of "([], 0)" calls] show ?thesis by (simp add: runPhase_def)
qed

lemma sorted_rank:
  assumes "sorted (xs :: int list)" "k < length xs" shows "k < length (filter (\<lambda>x. x \<le> xs ! k) xs)"
proof -
  have "\<forall>x\<in>set (take (Suc k) xs). x \<le> xs ! k"
    using assms by (auto simp: in_set_conv_nth sorted_nth_mono)
  then have "length (filter (\<lambda>x. x \<le> xs ! k) (take (Suc k) xs)) = Suc k" using assms(2) by simp
  moreover have "length (filter (\<lambda>x. x \<le> xs ! k) xs) = length (filter (\<lambda>x. x \<le> xs ! k) (take (Suc k) xs @ drop (Suc k) xs))"
    by simp
  ultimately show ?thesis unfolding filter_append length_append by linarith
qed

lemma errors_add:
  fixes r x y e :: rat
  assumes "\<bar>r - x\<bar> \<le> e" "\<bar>x - y\<bar> \<le> 1 / 2 ^ 12" "e \<le> 1 / 2 ^ 11" "x \<le> 2 ^ 41"
  shows "y - 1 / 1000 \<le> r \<and> r \<le> 2 ^ 50"
proof -
  have "x - e \<le> r" "r \<le> x + e" "y - 1 / 2 ^ 12 \<le> x" using assms(1,2) by linarith+
  with assms(3,4) show ?thesis by simp
qed

text \<open>The index of a percentile, for the share \<open>a\<close> percent.\<close>

lemma pct_index:
  assumes "1 \<le> a" "a \<le> 100" "0 < n" "n \<le> 2 ^ 40"
  obtains d r where "rnd64 (of_int a / 100) = Fin d" "0 \<le> d" "fmul (Fin d) (f64_of_int n) = Fin r" "0 \<le> r"
    "of_int a * of_int n / 100 - 1 / 1000 \<le> r" "r \<le> 2 ^ 50"
proof -
  let ?q = "of_int a / 100 :: rat"
  have q: "0 \<le> ?q" "?q \<le> 1" using assms(1,2) by simp_all
  then have "?q < 2 powi 1" by simp
  from rnd64_error [OF q(1) this] obtain d where d: "rnd64 ?q = Fin d" "0 \<le> d" "\<bar>d - ?q\<bar> \<le> ?q / 2 ^ 53 + 1 / 2 ^ 200" by auto
  have n: "(1::rat) \<le> of_int n" "(of_int n :: rat) \<le> 2 ^ 40" using assms(3,4) of_int_le_iff [of n "2 ^ 40", where ?'a = rat] by simp_all
  have e: "f64_of_int n = Fin (of_int n)" using assms(3,4) by (intro f64_of_int_exact) simp
  have "?q / 2 ^ 53 + 1 / 2 ^ 200 \<le> (1 / 2 ^ 52 :: rat)" using q(2) by simp
  with d(3) have d1: "\<bar>d - ?q\<bar> \<le> 1 / 2 ^ 52" by linarith
  then have "\<bar>d - ?q\<bar> * of_int n \<le> 1 / 2 ^ 52 * 2 ^ 40" using n by (intro mult_mono) simp_all
  then have dn: "\<bar>d * of_int n - ?q * of_int n\<bar> \<le> 1 / 2 ^ 12"
  proof -
    assume 1: "\<bar>d - ?q\<bar> * of_int n \<le> 1 / 2 ^ 52 * 2 ^ 40"
    have "\<bar>(d - ?q) * of_int n\<bar> = \<bar>d - ?q\<bar> * of_int n" using n by (simp only: abs_mult)
    with 1 show ?thesis unfolding left_diff_distrib by simp
  qed
  have "?q * of_int n \<le> 1 * 2 ^ 40" using q n by (intro mult_mono) simp_all
  then have "?q * of_int n + 1 / 2 ^ 12 \<le> 2 ^ 41" by simp
  moreover have "d * of_int n \<le> ?q * of_int n + 1 / 2 ^ 12" using dn unfolding abs_diff_le_iff by blast
  ultimately have u: "d * of_int n \<le> 2 ^ 41" by (rule order_trans [rotated])
  then have h: "d * of_int n < 2 powi 42" by simp
  have nn: "0 \<le> d * of_int n" using d(2) n by simp
  obtain r where r: "rnd64 (d * of_int n) = Fin r" "0 \<le> r" "\<bar>r - d * of_int n\<bar> \<le> d * of_int n / 2 ^ 53 + 1 / 2 ^ 200"
    by (rule rnd64_error [OF nn h]) simp_all
  have "d * of_int n / 2 ^ 53 + 1 / 2 ^ 200 \<le> (1 / 2 ^ 11 :: rat)" using u by simp
  from errors_add [OF r(3) dn this u] have "?q * of_int n - 1 / 1000 \<le> r" "r \<le> 2 ^ 50" by simp_all
  with d r e show ?thesis by (intro that [of d r]) simp_all
qed

lemma pct_value:
  assumes "1 \<le> a" "a \<le> 100" "sorted (xs :: int list)" "xs \<noteq> []" "length xs \<le> 2 ^ 40"
  obtains k r where "fmul (rnd64 (of_int a / 100)) (f64_of_int (int (length xs))) = Fin r"
    "k = min (nat \<lfloor>r\<rfloor>) (length xs - 1)" "pct A xs (rnd64 (of_int a / 100)) = Some (xs ! k)"
    "a * int (length xs) \<le> 100 * int (length (filter (\<lambda>x. x \<le> xs ! k) xs))"
proof -
  let ?n = "int (length xs)"
  have n: "0 < ?n" "?n \<le> 2 ^ 40" using assms(4,5) by (simp_all flip: of_nat_le_iff)
  from pct_index [OF assms(1,2) n] obtain d r where r: "rnd64 (of_int a / 100) = Fin d" "0 \<le> d" "fmul (Fin d) (f64_of_int ?n) = Fin r" "0 \<le> r"
    "of_int a * of_int ?n / 100 - 1 / 1000 \<le> r" "r \<le> 2 ^ 50" by metis
  define k where "k = min (nat \<lfloor>r\<rfloor>) (length xs - 1)"
  have "\<lfloor>r\<rfloor> \<le> \<lfloor>2 ^ 50 :: rat\<rfloor>" by (rule floor_mono [OF r(6)])
  then have fl: "0 \<le> \<lfloor>r\<rfloor>" "\<lfloor>r\<rfloor> \<le> 2 ^ 50" using r(4) by simp_all
  then have "f64_to_int64 A (Fin r) = \<lfloor>r\<rfloor>" using r(4) by (simp add: f64_to_int64_def int64_defs)
  then have p: "pct A xs (Fin d) = Some (xs ! k)"
  proof -
    define i where "i = (if ?n \<le> \<lfloor>r\<rfloor> then ?n - 1 else \<lfloor>r\<rfloor>)"
    have "0 \<le> i" using n(1) fl(1) by (simp add: i_def)
    have "nat i = k"
    proof (cases "?n \<le> \<lfloor>r\<rfloor>")
      case True
      then have "length xs \<le> nat \<lfloor>r\<rfloor>" by linarith
      then have "k = length xs - 1" using assms(4) unfolding k_def by (intro min_absorb2) simp
      moreover have "i = ?n - 1" using True by (simp add: i_def)
      ultimately show ?thesis by simp
    next
      case False
      then have "nat \<lfloor>r\<rfloor> \<le> length xs - 1" using fl(1) by linarith
      with False show ?thesis by (simp add: i_def k_def min_def)
    qed
    with \<open>0 \<le> i\<close> show ?thesis using assms(4) \<open>f64_to_int64 A (Fin r) = \<lfloor>r\<rfloor>\<close>
      by (simp add: pct_def r(3) Let_def flip: i_def)
  qed
  have "k < length xs" using assms(4) by (cases xs) (simp_all add: k_def)
  from sorted_rank [OF assms(3) this] have c: "k < length (filter (\<lambda>x. x \<le> xs ! k) xs)" .
  have "a * ?n \<le> 100 * int (length (filter (\<lambda>x. x \<le> xs ! k) xs))"
  proof (cases "nat \<lfloor>r\<rfloor> \<le> length xs - 1")
    case True
    then have "\<lfloor>r\<rfloor> + 1 \<le> int (length (filter (\<lambda>x. x \<le> xs ! k) xs))" using c fl(1) by (simp add: k_def)
    then have "of_int (\<lfloor>r\<rfloor> + 1) \<le> (of_int (int (length (filter (\<lambda>x. x \<le> xs ! k) xs))) :: rat)" by (simp only: of_int_le_iff)
    moreover have "r < of_int (\<lfloor>r\<rfloor> + 1)" by linarith
    ultimately have "(of_int (a * ?n) :: rat) < of_int (100 * int (length (filter (\<lambda>x. x \<le> xs ! k) xs)) + 1)" using r(5) by simp
    then show ?thesis by (simp only: of_int_less_iff)
  next
    case False
    then have "k = length xs - 1" by (simp add: k_def)
    then have "length (filter (\<lambda>x. x \<le> xs ! k) xs) = length xs" using c assms(4) length_filter_le [of "\<lambda>x. x \<le> xs ! k" xs] by linarith
    moreover have "a * ?n \<le> 100 * ?n" using assms(2) by (intro mult_right_mono) simp_all
    ultimately show ?thesis by simp
  qed
  then show ?thesis using p r(3) k_def by (intro that [of r k]) (simp_all only: r(1))
qed

lemma product_mono:
  assumes "a \<le> b" "0 \<le> n" "rnd64 a \<noteq> NaN" "fmul (rnd64 a) (Fin n) = Fin r" "fmul (rnd64 b) (Fin n) = Fin r'"
    "rnd64 a = Fin d" "rnd64 b = Fin d'"
  shows "r \<le> r'"
proof -
  have "d \<le> d'" using rnd64_mono [OF assms(1)] assms(6,7) by simp
  then have "d * n \<le> d' * n" using assms(2) by (rule mult_right_mono)
  from rnd64_mono [OF this] assms(4-7) show ?thesis by simp
qed

lemma pct_mono:
  assumes "1 \<le> a" "a \<le> b" "b \<le> 100" "sorted (xs :: int list)" "xs \<noteq> []" "length xs \<le> 2 ^ 40"
    and "pct A xs (rnd64 (of_int a / 100)) = Some x" "pct A xs (rnd64 (of_int b / 100)) = Some y"
  shows "x \<le> y"
proof -
  let ?n = "int (length xs)"
  have n: "0 < ?n" "?n \<le> 2 ^ 40" using assms(5,6) by (simp_all flip: of_nat_le_iff)
  have e: "f64_of_int ?n = Fin (of_int ?n)" using n by (intro f64_of_int_exact) simp
  from assms(1-3) have ab: "1 \<le> b" "a \<le> 100" by simp_all
  from pct_index [OF assms(1) ab(2) n] obtain d where d: "rnd64 (of_int a / 100) = Fin d" by metis
  from pct_index [OF ab(1) assms(3) n] obtain d' where d': "rnd64 (of_int b / 100) = Fin d'" by metis
  obtain k r where
    k: "fmul (rnd64 (of_int a / 100)) (Fin (of_int ?n)) = Fin r" "k = min (nat \<lfloor>r\<rfloor>) (length xs - 1)" "x = xs ! k"
    by (rule pct_value [OF assms(1) ab(2) assms(4-6), of A]) (use assms(7) e in simp)
  obtain j s where
    j: "fmul (rnd64 (of_int b / 100)) (Fin (of_int ?n)) = Fin s" "j = min (nat \<lfloor>s\<rfloor>) (length xs - 1)" "y = xs ! j"
    by (rule pct_value [OF ab(1) assms(3-6), of A]) (use assms(8) e in simp)
  have "r \<le> s" by (rule product_mono [OF _ _ _ k(1) j(1) d d']) (use assms(2) n in simp_all)
  then have "nat \<lfloor>r\<rfloor> \<le> nat \<lfloor>s\<rfloor>" by (intro nat_mono floor_mono)
  then have "k \<le> j" "j < length xs" using k(2) j(2) assms(5) by (cases xs; simp)+
  with assms(4) k(3) j(3) show ?thesis by (simp add: sorted_nth_mono)
qed

lemma pct_share:
  assumes "1 \<le> a" "a \<le> 100" "sorted (xs :: int list)" "xs \<noteq> []" "length xs \<le> 2 ^ 40"
  shows "\<exists>v. pct A xs (rnd64 (of_int a / 100)) = Some v \<and> v \<in> set xs
    \<and> a * int (length xs) \<le> 100 * int (length (filter (\<lambda>x. x \<le> v) xs))"
proof -
  obtain k r where k: "fmul (rnd64 (of_int a / 100)) (f64_of_int (int (length xs))) = Fin r" "k = min (nat \<lfloor>r\<rfloor>) (length xs - 1)"
    "pct A xs (rnd64 (of_int a / 100)) = Some (xs ! k)" "a * int (length xs) \<le> 100 * int (length (filter (\<lambda>x. x \<le> xs ! k) xs))"
    by (rule pct_value [OF assms, of A])
  from k(2) have "k < length xs" using assms(4) by (cases xs) simp_all
  with k(3,4) show ?thesis by auto
qed

text \<open>The load generator's report accounts for every call, and its percentiles are what they are called: each
  is a latency that was measured, they are ordered, and 50, 95 and 99 of a hundred successful calls took no longer.\<close>

theorem loadgen_percentiles:
  assumes "runPhase True calls = (lats, errs)" "lats \<noteq> []" "length lats \<le> 2 ^ 40"
  shows "int (length lats) + errs = int (length (concat calls)) \<and> (\<forall>l. l \<in> set lats \<longleftrightarrow> (l, True) \<in> set (concat calls))
    \<and> (\<exists>p50 p95 p99. percentiles A (sort lats) = Some (p50, p95, p99) \<and> {p50, p95, p99} \<subseteq> set lats \<and> p50 \<le> p95 \<and> p95 \<le> p99
        \<and> 50 * length lats \<le> 100 * length (filter (\<lambda>l. l \<le> p50) lats)
        \<and> 95 * length lats \<le> 100 * length (filter (\<lambda>l. l \<le> p95) lats)
        \<and> 99 * length lats \<le> 100 * length (filter (\<lambda>l. l \<le> p99) lats))"
proof -
  have l: "lats = map fst (filter snd (concat calls))" and e: "errs = int (length (filter (\<lambda>c. \<not> snd c) (concat calls)))"
    using assms(1) unfolding runPhase_result by simp_all
  have acc: "int (length lats) + errs = int (length (concat calls))"
    unfolding l e using sum_length_filter_compl [of snd "concat calls"] by simp
  have mem: "l \<in> set lats \<longleftrightarrow> (l, True) \<in> set (concat calls)" for l unfolding l by force
  let ?s = "sort lats"
  have s: "sorted ?s" "?s \<noteq> []" "length ?s \<le> 2 ^ 40" using assms(2,3) by (simp_all, metis length_0_conv length_sort)
  have share: "length (filter P ?s) = length (filter P lats)" for P
    by (metis mset_filter mset_sort size_mset)
  have val: "\<exists>v. pct A ?s (rnd64 (of_int a / 100)) = Some v \<and> v \<in> set lats
      \<and> a * int (length lats) \<le> 100 * int (length (filter (\<lambda>x. x \<le> v) lats))" if "1 \<le> a" "a \<le> 100" for a
    using pct_share [OF that s, of A] by (simp add: share)
  from val [of 50] obtain p50 where p50: "pct A ?s (rnd64 (1 / 2)) = Some p50" "p50 \<in> set lats"
    "50 * int (length lats) \<le> 100 * int (length (filter (\<lambda>x. x \<le> p50) lats))" by auto
  from val [of 95] obtain p95 where p95: "pct A ?s (rnd64 (95 / 100)) = Some p95" "p95 \<in> set lats"
    "95 * int (length lats) \<le> 100 * int (length (filter (\<lambda>x. x \<le> p95) lats))" by auto
  from val [of 99] obtain p99 where p99: "pct A ?s (rnd64 (99 / 100)) = Some p99" "p99 \<in> set lats"
    "99 * int (length lats) \<le> 100 * int (length (filter (\<lambda>x. x \<le> p99) lats))" by auto
  have o1: "p50 \<le> p95" using pct_mono [OF _ _ _ s, of 50 95 A p50 p95] p50(1) p95(1) by simp
  have o2: "p95 \<le> p99" using pct_mono [OF _ _ _ s, of 95 99 A p95 p99] p95(1) p99(1) by simp
  have ps: "percentiles A ?s = Some (p50, p95, p99)" unfolding percentiles_def p50(1) p95(1) p99(1) by simp
  have sh: "50 * length lats \<le> 100 * length (filter (\<lambda>x. x \<le> p50) lats)" "95 * length lats \<le> 100 * length (filter (\<lambda>x. x \<le> p95) lats)"
    "99 * length lats \<le> 100 * length (filter (\<lambda>x. x \<le> p99) lats)" using p50(3) p95(3) p99(3) by linarith+
  have set: "{p50, p95, p99} \<subseteq> set lats" using p50(2) p95(2) p99(2) by simp
  show ?thesis
    by (intro conjI allI acc mem exI [of _ p50] exI [of _ p95] exI [of _ p99] ps set o1 o2 sh)
qed

theorem loadgen_percentiles_witness:
  "int (length [30, 10, 20 :: int]) + 1 = int (length (concat [[(30 :: int, True), (0, False)], [(10, True), (20, True)]]))
    \<and> (\<exists>p50 p95 p99. percentiles amd64 (sort [30, 10, 20]) = Some (p50, p95, p99) \<and> {p50, p95, p99} \<subseteq> set [30, 10, 20] \<and> p50 \<le> p95 \<and> p95 \<le> p99)"
proof -
  have r: "runPhase True [[(30, True), (0, False)], [(10, True), (20, True)]] = ([30, 10, 20], 1)" by code_simp
  have n: "[30, 10, 20 :: int] \<noteq> []" "length [30, 10, 20 :: int] \<le> 2 ^ 40" by simp_all
  from loadgen_percentiles [OF r n, of amd64] show ?thesis by fast
qed

end
