(* ===== verification/Ledger.thy ===== *)
theory Ledger
  imports Gateway SummaryQueries
begin

section \<open>Ledger: counters, events and the dashboard\<close>

text \<open>
  The money of one tenant in the three places it is kept: the Redis counter, the events on their way to
  Postgres, and the figures of the dashboard. The handlers of all gateways run concurrently; a handler
  touches shared state twice, in \<open>checkBudget\<close> and when it settles, so a run is a sequence of those two
  steps of any handlers and of the steps of the metering goroutine. One gateway is followed to its table;
  of the other replicas, which share the Redis server, the events they accept are kept (\<open>lg_elsewhere\<close>).
\<close>

subsection \<open>Concurrent handlers\<close>

record attempt =
  op_weather :: weather
  op_writer :: ResponseWriter
  op_request :: "Tenant Request"
  op_provider :: Provider
  op_body :: bytes
  op_injected :: bool
  op_res :: reservation

record ('r, 's) ledger =
  lg_redis :: 'r
  lg_open :: "attempt list"
  lg_mt :: "'s metering"
  lg_elsewhere :: "Event list"

abbreviation op_tenant :: "attempt \<Rightarrow> int" where
  "op_tenant a \<equiv> ID (request_tenant (op_request a))"

text \<open>
  What the account of tenant \<open>i\<close> in the month of \<open>t0\<close> needs of the tenant's own requests: a cap that is exact in
  a double, an estimate that fits, and Redis calls that are delivered. Requests of other tenants are arbitrary.
\<close>

definition accountable :: "'r Proxy \<Rightarrow> int \<Rightarrow> instant \<Rightarrow> weather \<Rightarrow> Tenant Request \<Rightarrow> Provider \<Rightarrow> bytes \<Rightarrow> bool" where
  "accountable P i t0 E r pv body \<longleftrightarrow> (ID (request_tenant r) = i \<longrightarrow>
     (\<exists>cap. MonthlyBudgetUSD (request_tenant r) = Some cap \<and> toMicro (px_arch P) cap < 2 ^ 53)
   \<and> 0 \<le> estimateMicro P pv body \<and> year_month (at_budget E) = year_month t0
   \<and> reserve_link E = Delivered \<and> reconcile_link E = Delivered)"

definition settle :: "'r Proxy \<Rightarrow> attempt \<Rightarrow> 'r \<Rightarrow> 's Writer \<Rightarrow> ResponseWriter \<times> ('r, 's) gateway" where
  "settle P a rd wr = send_upstream P (op_weather a) (op_writer a) (op_request a) (op_provider a)
     (request_tenant (op_request a)) (op_body a) (op_injected a) (op_res a)
     \<lparr>gw_redis = rd, gw_writer = wr, gw_sent = []\<rparr>"

text \<open>The events a handler has put on the channel.\<close>

definition handed :: "'s Writer \<Rightarrow> 's Writer \<Rightarrow> Event list" where
  "handed wr wr' = drop (length (ch wr)) (ch wr')"

inductive lstep :: "'r Proxy \<Rightarrow> 's write_op \<Rightarrow> int \<Rightarrow> instant \<Rightarrow> ('r, 's) ledger \<Rightarrow> ('r, 's) ledger \<Rightarrow> bool" for P W i t0 where
  admit: "route (providers P) (Path r) = Some pv \<Longrightarrow> outgoing_body pv (rq_Body r) = Some (body, injected) \<Longrightarrow>
     accountable P i t0 E r pv body \<Longrightarrow>
     checkBudget P E (fresh_writer gone) pv (request_tenant r) body (lg_redis s) = (w, rd, res, True) \<Longrightarrow>
     lstep P W i t0 s (s\<lparr>lg_redis := rd, lg_open := \<lparr>op_weather = E, op_writer = w, op_request = r, op_provider = pv,
       op_body = body, op_injected = injected, op_res = res\<rparr> # lg_open s\<rparr>)"
| refuse: "route (providers P) (Path r) = Some pv \<Longrightarrow> outgoing_body pv (rq_Body r) = Some (body, injected) \<Longrightarrow>
     accountable P i t0 E r pv body \<Longrightarrow>
     checkBudget P E (fresh_writer gone) pv (request_tenant r) body (lg_redis s) = (w, rd, res, False) \<Longrightarrow>
     lstep P W i t0 s (s\<lparr>lg_redis := rd\<rparr>)"
| settled: "a \<in> set (lg_open s) \<Longrightarrow> wr = Writer.truncate (lg_mt s) \<Longrightarrow> length (ch wr) < bufferSize \<Longrightarrow>
     settle P a (lg_redis s) wr = (w, g) \<Longrightarrow>
     lstep P W i t0 s (s\<lparr>lg_redis := gw_redis g, lg_open := remove1 a (lg_open s),
       lg_mt := (lg_mt s)\<lparr>ch := ch (gw_writer g), accepted := accepted (lg_mt s) @ handed wr (gw_writer g)\<rparr>\<rparr>)"
| settled_elsewhere: "a \<in> set (lg_open s) \<Longrightarrow> length (ch (wr :: 's Writer)) < bufferSize \<Longrightarrow> settle P a (lg_redis s) wr = (w, g) \<Longrightarrow>
     lstep P W i t0 s (s\<lparr>lg_redis := gw_redis g, lg_open := remove1 a (lg_open s),
       lg_elsewhere := lg_elsewhere s @ handed wr (gw_writer g)\<rparr>)"
| writer: "mstep W (lg_mt s) m \<Longrightarrow> accepted m = accepted (lg_mt s) \<Longrightarrow> refused m = refused (lg_mt s) \<Longrightarrow>
     lstep P W i t0 s (s\<lparr>lg_mt := m\<rparr>)"

inductive lreach :: "'r Proxy \<Rightarrow> 's write_op \<Rightarrow> int \<Rightarrow> instant \<Rightarrow> 'r \<Rightarrow> 's Writer \<Rightarrow> ('r, 's) ledger \<Rightarrow> bool"
  for P W i t0 r0 w0 where
  start: "lreach P W i t0 r0 w0 \<lparr>lg_redis = r0, lg_open = [], lg_mt = start_run w0, lg_elsewhere = []\<rparr>"
| step: "lreach P W i t0 r0 w0 s \<Longrightarrow> lstep P W i t0 s t \<Longrightarrow> lreach P W i t0 r0 w0 t"

text \<open>A handler that nothing interleaves with is these two steps.\<close>

lemma forward_steps:
  assumes "outgoing_body pv (rq_Body r) = Some (body, injected)"
    and "checkBudget P E w pv (request_tenant r) body rd = (w1, rd1, res, True)"
  shows "forward P E w r pv \<lparr>gw_redis = rd, gw_writer = wr, gw_sent = []\<rparr>
     = (case settle P \<lparr>op_weather = E, op_writer = w1, op_request = r, op_provider = pv, op_body = body,
          op_injected = injected, op_res = res\<rparr> rd1 wr of (w2, g) \<Rightarrow> (w2, g, Served))"
  using assms by (simp add: forward_unfold settle_def)

subsection \<open>The account of a tenant\<close>

definition charge :: "'r Proxy \<Rightarrow> Event \<Rightarrow> int" where
  "charge P e = toMicro (px_arch P) (CostUSD e)"

definition tenant_events :: "int \<Rightarrow> Event list \<Rightarrow> Event list" where
  "tenant_events i evs = filter (\<lambda>e. TenantID e = i) evs"

definition charges :: "'r Proxy \<Rightarrow> int \<Rightarrow> Event list \<Rightarrow> int" where
  "charges P i evs = sum_list (map (charge P) (tenant_events i evs))"

definition held :: "int \<Rightarrow> attempt list \<Rightarrow> int" where
  "held i ops = sum_list (map (\<lambda>a. estMicro (op_res a)) (filter (\<lambda>a. op_tenant a = i) ops))"

text \<open>No cost is negative, and the account stays below \<open>2^62\<close> micro-USD.\<close>

definition fits :: "'r Proxy \<Rightarrow> int \<Rightarrow> int \<Rightarrow> Event list \<Rightarrow> bool" where
  "fits P i c0 evs \<longleftrightarrow> (\<forall>e\<in>set (tenant_events i evs). 0 \<le> charge P e) \<and> c0 + charges P i evs < 2 ^ 62"

text \<open>All events the gateways have accepted.\<close>

definition booked :: "('r, 's) ledger \<Rightarrow> Event list" where
  "booked s = accepted (lg_mt s) @ lg_elsewhere s"

lemma booked_simps [simp]:
  "booked (s\<lparr>lg_redis := rd\<rparr>) = booked s" "booked (s\<lparr>lg_open := ops\<rparr>) = booked s"
  "booked (s\<lparr>lg_mt := m\<rparr>) = accepted m @ lg_elsewhere s"
  "booked (s\<lparr>lg_elsewhere := evs\<rparr>) = accepted (lg_mt s) @ evs"
  by (simp_all add: booked_def)

lemma charges_simps [simp]:
  "charges P i [] = 0"
  "charges P i (e # evs) = (if TenantID e = i then charge P e else 0) + charges P i evs"
  "charges P i (evs @ evs') = charges P i evs + charges P i evs'"
  by (simp_all add: charges_def tenant_events_def)

lemma charges_nonneg: "fits P i c0 evs \<Longrightarrow> 0 \<le> charges P i evs"
  unfolding fits_def charges_def by (rule sum_list_nonneg) auto

lemma fits_insert:
  "fits P i c0 (evs @ e # evs') \<Longrightarrow> fits P i c0 (evs @ evs')"
  "fits P i c0 (evs @ e # evs') \<Longrightarrow> TenantID e = i \<Longrightarrow> 0 \<le> charge P e"
  by (auto simp: fits_def tenant_events_def split: if_splits)

lemma held_simps [simp]:
  "held i [] = 0"
  "held i (a # ops) = (if op_tenant a = i then estMicro (op_res a) else 0) + held i ops"
  by (simp_all add: held_def)

lemma held_remove1 [simp]:
  "a \<in> set ops \<Longrightarrow> held i (remove1 a ops) = held i ops - (if op_tenant a = i then estMicro (op_res a) else 0)"
  by (induction ops) auto

lemma held_bounds:
  "\<forall>a\<in>set ops. op_tenant a = i \<longrightarrow> 0 \<le> estMicro (op_res a) \<Longrightarrow>
     0 \<le> held i ops \<and> (\<forall>a\<in>set ops. op_tenant a = i \<longrightarrow> estMicro (op_res a) \<le> held i ops)"
  by (induction ops) auto

subsection \<open>Redis calls of other tenants\<close>

context redis_server
begin

lemma script_other:
  "j \<noteq> k \<Longrightarrow> counter R (snd (reserve_script R s k limit est)) j = counter R s j"
  by (auto simp: reserve_script_def Let_def counter_expire counter_incrby ttlSeconds_def split: option.split prod.split)

lemma Reserve_other:
  "j \<noteq> k \<Longrightarrow> counter R (fst (Reserve R net s k limit est)) j = counter R s j"
  using script_other [of j k s limit est] by (auto simp: Reserve_def split: link.split prod.split option.split)

end

lemma checkBudget_redis:
  "px_budget P = Some R \<Longrightarrow> checkBudget P E w pv t body rd = (w1, rd', res, go) \<Longrightarrow>
     rd' = rd \<or> (\<exists>limit est. rd' = fst (Reserve R (reserve_link E) rd (MonthKey (ID t) (at_budget E)) limit est))"
  by (auto simp: checkBudget_def Let_def split: option.splits prod.splits sum.splits if_splits intro: rev_image_eqI)
     (metis fst_conv)+

lemma checkBudget_key:
  "checkBudget P E w pv t body rd = (w1, rd', res, go) \<Longrightarrow> active res \<Longrightarrow> res_key res = MonthKey (ID t) (at_budget E)"
  by (auto simp: checkBudget_def Let_def no_reservation_def split: option.splits prod.splits sum.splits if_splits)

lemma checkBudget_account:
  assumes "redis_server R" "px_budget P = Some R" "reserve_link E = Delivered"
    and "MonthlyBudgetUSD t = Some cap" "toMicro (px_arch P) cap < 2 ^ 53"
    and "0 \<le> counter R rd (MonthKey (ID t) (at_budget E))" "0 \<le> estimateMicro P pv body"
    and "checkBudget P E w pv t body rd = (w1, rd', res, go)"
  shows "go = (counter R rd (MonthKey (ID t) (at_budget E)) + estimateMicro P pv body \<le> toMicro (px_arch P) cap)"
    and "counter R rd' j = (if go \<and> j = MonthKey (ID t) (at_budget E) then counter R rd j + estimateMicro P pv body
           else counter R rd j)"
    and "go \<Longrightarrow> res = \<lparr>active = True, res_key = MonthKey (ID t) (at_budget E), estMicro = estimateMicro P pv body\<rparr>"
proof -
  let ?k = "MonthKey (ID t) (at_budget E)" and ?est = "estimateMicro P pv body" and ?lim = "toMicro (px_arch P) cap"
  obtain s' r where rs: "Reserve R Delivered rd ?k ?lim ?est = (s', r)" by fastforce
  note eff = redis_server.reserve_effect [OF assms(1,6,7,5) rs]
  from eff(2) obtain sp where r: "r = Inr (counter R rd ?k + ?est \<le> ?lim, sp)" by blast
  have c: "rd' = s'" "go = (counter R rd ?k + ?est \<le> ?lim)"
      "go \<Longrightarrow> res = \<lparr>active = True, res_key = ?k, estMicro = ?est\<rparr>"
    using assms(2-4,8) rs by (auto simp: checkBudget_def Let_def r split: if_splits)
  show "go = (counter R rd ?k + ?est \<le> ?lim)" by (rule c(2))
  show "counter R rd' j = (if go \<and> j = ?k then counter R rd j + ?est else counter R rd j)"
    using eff(1) [of j] by (simp add: c(1,2))
  show "go \<Longrightarrow> res = \<lparr>active = True, res_key = ?k, estMicro = ?est\<rparr>" by (rule c(3))
qed

subsection \<open>The invariant\<close>

lemma settle_event:
  assumes "settle P a rd wr = (w, g)" "w_status (op_writer a) = None" "length (ch wr) < bufferSize"
  obtains ev where "gw_redis g = reconcile P (op_weather a) (op_res a) (CostUSD ev) rd"
    and "ch (gw_writer g) = ch wr @ [ev]" "handed wr (gw_writer g) = [ev]" and "TenantID ev = op_tenant a"
proof -
  obtain ev where "settles P (op_weather a) (op_res a) (op_request a) (op_provider a) (op_body a) ev
      \<lparr>gw_redis = rd, gw_writer = wr, gw_sent = []\<rparr> (settle P a rd wr)"
    using send_upstream_settles [OF assms(2)] unfolding settle_def by blast
  with assms(1,3) show ?thesis
    by (intro that [of ev]) (auto simp: settles_def Enqueue_def handed_def)
qed

lemma reconcile_other:
  assumes "redis_server R" "px_budget P = Some R" "active res \<longrightarrow> res_key res \<noteq> k"
  shows "counter R (reconcile P E res cost rd) k = counter R rd k"
proof (cases "active res")
  case True
  obtain s' x where rc: "Reconcile R (reconcile_link E) rd (res_key res) (wrap64 (toMicro (px_arch P) cost - estMicro res)) = (s', x)"
    by fastforce
  with True assms(2,3) redis_server.reconcile_effect [OF assms(1) rc, of k] show ?thesis by (simp add: reconcile_def)
qed (simp add: reconcile_def assms(2))

lemma reconcile_account:
  assumes "redis_server R" "px_budget P = Some R" "reconcile_link E = Delivered"
    and "active res" "res_key res = k"
    and "in_int64 (toMicro (px_arch P) cost - estMicro res)"
    and "in_int64 (counter R rd k + (toMicro (px_arch P) cost - estMicro res))"
  shows "counter R (reconcile P E res cost rd) k = counter R rd k + (toMicro (px_arch P) cost - estMicro res)"
proof -
  obtain s' x where rc: "Reconcile R Delivered rd k (toMicro (px_arch P) cost - estMicro res) = (s', x)" by fastforce
  with assms(2-6) redis_server.reconcile_effect [OF assms(1) rc, of k] assms(7) show ?thesis
    by (simp add: reconcile_def)
qed

lemma checkBudget_refusal:
  assumes "redis_server R" "px_budget P = Some R" "reserve_link E = Delivered"
    and "MonthlyBudgetUSD t = Some cap" "toMicro (px_arch P) cap < 2 ^ 53"
    and "0 \<le> counter R rd (MonthKey (ID t) (at_budget E))" "0 \<le> estimateMicro P pv body"
    and "checkBudget P E w pv t body rd = (w1, rd', res, False)" "w_status w = None"
  shows "w_status w1 = Some 429"
proof -
  let ?k = "MonthKey (ID t) (at_budget E)"
  obtain s' r where rs: "Reserve R Delivered rd ?k (toMicro (px_arch P) cap) (estimateMicro P pv body) = (s', r)" by fastforce
  from redis_server.reserve_effect(2) [OF assms(1,6,7,5) rs] obtain x sp where "r = Inr (x, sp)" by blast
  with assms(2-4,8,9) rs show ?thesis
    by (auto simp: checkBudget_def Let_def writeBudgetExceeded_def split: if_splits)
qed

definition op_ok :: "int \<Rightarrow> bytes \<Rightarrow> attempt \<Rightarrow> bool" where
  "op_ok i k a \<longleftrightarrow> w_status (op_writer a) = None \<and> (op_tenant a \<noteq> i \<longrightarrow> active (op_res a) \<longrightarrow> res_key (op_res a) \<noteq> k)"

definition op_held :: "int \<Rightarrow> bytes \<Rightarrow> attempt \<Rightarrow> bool" where
  "op_held i k a \<longleftrightarrow> (op_tenant a = i \<longrightarrow> active (op_res a) \<and> res_key (op_res a) = k \<and> 0 \<le> estMicro (op_res a)
     \<and> reconcile_link (op_weather a) = Delivered)"

definition balanced :: "'r redis \<Rightarrow> 'r Proxy \<Rightarrow> int \<Rightarrow> bytes \<Rightarrow> int \<Rightarrow> ('r, 's) ledger \<Rightarrow> bool" where
  "balanced R P i k c0 s \<longleftrightarrow>
     counter R (lg_redis s) k = c0 + charges P i (booked s) + held i (lg_open s)
   \<and> held i (lg_open s) < 2 ^ 53 \<and> (\<forall>a\<in>set (lg_open s). op_held i k a)"

definition linv :: "'r redis \<Rightarrow> 'r Proxy \<Rightarrow> int \<Rightarrow> bytes \<Rightarrow> int \<Rightarrow> ('r, 's) ledger \<Rightarrow> bool" where
  "linv R P i k c0 s \<longleftrightarrow> (\<forall>a\<in>set (lg_open s). op_ok i k a)
     \<and> (fits P i c0 (booked s) \<longrightarrow> balanced R P i k c0 s)"

lemma balanced_held: "balanced R P i k c0 s \<Longrightarrow> 0 \<le> held i (lg_open s)"
  using held_bounds [of "lg_open s" i] by (auto simp: balanced_def op_held_def)

lemma balanced_nonneg: "balanced R P i k c0 s \<Longrightarrow> fits P i c0 (booked s) \<Longrightarrow> 0 \<le> c0 \<Longrightarrow> 0 \<le> counter R (lg_redis s) k"
  using balanced_held [of R P i k c0 s] charges_nonneg [of P i c0 "booked s"] by (simp add: balanced_def)

lemma same_month_key: "year_month t = year_month t' \<Longrightarrow> MonthKey i t = MonthKey i t'"
  by (simp add: MonthKey_def format_month_def)

text \<open>The budget check of tenant \<open>i\<close> moves the estimate of an admitted request to the counter.\<close>

lemma admit_account:
  assumes "redis_server R" "px_budget P = Some R" "0 \<le> c0" "fits P i c0 (booked s)" "balanced R P i (MonthKey i t0) c0 s"
    and "accountable P i t0 E r pv body" "ID (request_tenant r) = i"
    and "checkBudget P E w0 pv (request_tenant r) body (lg_redis s) = (w, rd, res, go)"
  shows "counter R rd (MonthKey i t0) = counter R (lg_redis s) (MonthKey i t0) + (if go then estMicro res else 0)"
    and "go \<Longrightarrow> active res \<and> res_key res = MonthKey i t0 \<and> 0 \<le> estMicro res
           \<and> counter R rd (MonthKey i t0) < 2 ^ 53 \<and> reconcile_link E = Delivered"
proof -
  obtain cap where a: "MonthlyBudgetUSD (request_tenant r) = Some cap" "toMicro (px_arch P) cap < 2 ^ 53"
      "0 \<le> estimateMicro P pv body" "year_month (at_budget E) = year_month t0"
      "reserve_link E = Delivered" "reconcile_link E = Delivered"
    using assms(6,7) by (auto simp: accountable_def)
  have k: "MonthKey (ID (request_tenant r)) (at_budget E) = MonthKey i t0" using same_month_key [OF a(4)] assms(7) by simp
  have n: "0 \<le> counter R (lg_redis s) (MonthKey (ID (request_tenant r)) (at_budget E))"
    using balanced_nonneg [OF assms(5,4,3)] by (simp only: k)
  note c = checkBudget_account [OF assms(1,2) a(5,1,2) n a(3) assms(8), unfolded k]
  show "counter R rd (MonthKey i t0) = counter R (lg_redis s) (MonthKey i t0) + (if go then estMicro res else 0)"
    using c(2) [of "MonthKey i t0"] c(3) by simp
  show "go \<Longrightarrow> active res \<and> res_key res = MonthKey i t0 \<and> 0 \<le> estMicro res
           \<and> counter R rd (MonthKey i t0) < 2 ^ 53 \<and> reconcile_link E = Delivered"
    using c(1) c(2) [of "MonthKey i t0"] c(3) a by simp
qed

lemma other_account:
  assumes "redis_server R" "px_budget P = Some R" "ID (request_tenant r) \<noteq> i"
    and "checkBudget P E w0 pv (request_tenant r) body rd = (w, rd', res, go)"
  shows "counter R rd' (MonthKey i t0) = counter R rd (MonthKey i t0)"
    and "active res \<longrightarrow> res_key res \<noteq> MonthKey i t0"
proof -
  have k: "MonthKey i t0 \<noteq> MonthKey (ID (request_tenant r)) (at_budget E)"
    using MonthKey_inject assms(3) by metis
  from checkBudget_redis [OF assms(2,4)] redis_server.Reserve_other [OF assms(1) k]
  show "counter R rd' (MonthKey i t0) = counter R rd (MonthKey i t0)" by auto
  from checkBudget_key [OF assms(4)] k show "active res \<longrightarrow> res_key res \<noteq> MonthKey i t0" by auto
qed

text \<open>Settling replaces the estimate by the cost of the event.\<close>

lemma settle_account:
  assumes "redis_server R" "px_budget P = Some R" "0 \<le> c0" "balanced R P i k c0 s" "booked s = evs @ evs'"
    and "fits P i c0 (evs @ ev # evs')" "a \<in> set (lg_open s)" "op_ok i k a" "TenantID ev = op_tenant a"
  shows "counter R (reconcile P (op_weather a) (op_res a) (CostUSD ev) (lg_redis s)) k
     = c0 + charges P i (evs @ ev # evs') + held i (remove1 a (lg_open s))"
proof (cases "op_tenant a = i")
  case False
  then have "active (op_res a) \<longrightarrow> res_key (op_res a) \<noteq> k" using assms(8) by (simp add: op_ok_def)
  from reconcile_other [OF assms(1,2) this] show ?thesis using False assms(4,5,7,9) by (simp add: balanced_def)
next
  case True
  have h: "active (op_res a)" "res_key (op_res a) = k" "0 \<le> estMicro (op_res a)" "reconcile_link (op_weather a) = Delivered"
    using assms(4,7) True by (auto simp: balanced_def op_held_def)
  have le: "estMicro (op_res a) \<le> held i (lg_open s)"
    using held_bounds [of "lg_open s" i] assms(4,7) True by (auto simp: balanced_def op_held_def)
  have c: "counter R (lg_redis s) k = c0 + charges P i (evs @ evs') + held i (lg_open s)" "held i (lg_open s) < 2 ^ 53"
    using assms(4,5) by (simp_all add: balanced_def)
  have ev: "TenantID ev = i" using assms(9) True by simp
  have m: "0 \<le> charge P ev" "0 \<le> charges P i (evs @ evs')" "c0 + charges P i (evs @ evs') + charge P ev < 2 ^ 62"
    using fits_insert(2) [OF assms(6) ev] charges_nonneg [OF fits_insert(1) [OF assms(6)]] assms(6) ev by (simp_all add: fits_def)
  have "in_int64 (toMicro (px_arch P) (CostUSD ev) - estMicro (op_res a))"
    "in_int64 (counter R (lg_redis s) k + (toMicro (px_arch P) (CostUSD ev) - estMicro (op_res a)))"
    using m le c h(3) assms(3) by (simp_all add: int64_defs charge_def)
  from reconcile_account [OF assms(1,2) h(4,1,2) this] c(1) show ?thesis
    using assms(7) True ev by (simp add: charge_def)
qed

lemma settle_balanced:
  assumes "redis_server R" "px_budget P = Some R" "0 \<le> c0" "balanced R P i k c0 s" "booked s = evs @ evs'"
    and "fits P i c0 (evs @ ev # evs')" "a \<in> set (lg_open s)" "op_ok i k a" "TenantID ev = op_tenant a"
    and "lg_redis t = reconcile P (op_weather a) (op_res a) (CostUSD ev) (lg_redis s)"
    and "lg_open t = remove1 a (lg_open s)" "booked t = evs @ ev # evs'"
  shows "balanced R P i k c0 t"
proof -
  have "\<forall>a'\<in>set (remove1 a (lg_open s)). op_held i k a'"
    using assms(4) by (intro ball_remove1) (simp add: balanced_def)
  moreover have "held i (remove1 a (lg_open s)) \<le> held i (lg_open s)"
    using assms(4,7) by (auto simp: balanced_def op_held_def)
  ultimately show ?thesis using settle_account [OF assms(1-9)] assms(4)
    by (simp add: assms(10-12) balanced_def del: charges_simps held_remove1)
qed

lemma linv_step:
  assumes "redis_server R" "px_budget P = Some R" "0 \<le> c0"
    and "lstep P W i t0 s t" "linv R P i (MonthKey i t0) c0 s"
  shows "linv R P i (MonthKey i t0) c0 t"
  using assms(4)
proof cases
  case (admit r pv body injected E gone w rd res)
  let ?a = "\<lparr>op_weather = E, op_writer = w, op_request = r, op_provider = pv, op_body = body, op_injected = injected, op_res = res\<rparr>"
  have w: "w_status w = None" using checkBudget_go [OF admit(5)] by (simp add: fresh_writer_def)
  show ?thesis
  proof (cases "ID (request_tenant r) = i")
    case True
    have "balanced R P i (MonthKey i t0) c0 t" if "fits P i c0 (booked s)"
    proof -
      have b: "balanced R P i (MonthKey i t0) c0 s" using assms(5) that by (simp add: linv_def)
      note ac = admit_account [OF assms(1-3) that b admit(4) True admit(5)]
      from ac b charges_nonneg [OF that] assms(3) True show ?thesis by (auto simp: admit(1) balanced_def op_held_def)
    qed
    with assms(5) w True show ?thesis by (auto simp: linv_def admit(1) op_ok_def)
  next
    case False
    note oc = other_account [OF assms(1,2) False admit(5), of t0]
    with assms(5) w False show ?thesis by (auto simp: linv_def admit(1) op_ok_def balanced_def op_held_def)
  qed
next
  case (refuse r pv body injected E gone w rd res)
  show ?thesis
  proof (cases "ID (request_tenant r) = i")
    case True
    have "balanced R P i (MonthKey i t0) c0 t" if "fits P i c0 (booked s)"
    proof -
      have b: "balanced R P i (MonthKey i t0) c0 s" using assms(5) that by (simp add: linv_def)
      from admit_account(1) [OF assms(1-3) that b refuse(4) True refuse(5)] b show ?thesis
        by (simp add: refuse(1) balanced_def)
    qed
    with assms(5) show ?thesis by (simp add: linv_def refuse(1))
  next
    case False
    from other_account(1) [OF assms(1,2) False refuse(5), of t0] assms(5) show ?thesis
      by (simp add: linv_def refuse(1) balanced_def)
  qed
next
  case (settled a wr w g)
  have ok: "op_ok i (MonthKey i t0) a" using assms(5) settled(2) by (simp add: linv_def)
  obtain ev where ev: "gw_redis g = reconcile P (op_weather a) (op_res a) (CostUSD ev) (lg_redis s)"
      "handed wr (gw_writer g) = [ev]" "TenantID ev = op_tenant a"
    using ok settle_event [OF settled(5) _ settled(4)] by (auto simp: op_ok_def)
  have bk: "booked s = accepted (lg_mt s) @ lg_elsewhere s" "booked t = accepted (lg_mt s) @ ev # lg_elsewhere s"
    by (simp_all add: booked_def settled(1) ev(2))
  have "balanced R P i (MonthKey i t0) c0 t" if f: "fits P i c0 (booked t)"
    using assms(5) fits_insert(1) [OF f [unfolded bk(2)]]
    by (intro settle_balanced [OF assms(1-3) _ bk(1) f [unfolded bk(2)] settled(2) ok ev(3) _ _ bk(2)])
       (simp_all add: linv_def bk(1) settled(1) ev(1))
  moreover have "\<forall>a'\<in>set (remove1 a (lg_open s)). op_ok i (MonthKey i t0) a'"
    using assms(5) by (intro ball_remove1) (simp add: linv_def)
  ultimately show ?thesis by (simp add: linv_def settled(1))
next
  case (settled_elsewhere a wr w g)
  have ok: "op_ok i (MonthKey i t0) a" using assms(5) settled_elsewhere(2) by (simp add: linv_def)
  obtain ev where ev: "gw_redis g = reconcile P (op_weather a) (op_res a) (CostUSD ev) (lg_redis s)"
      "handed wr (gw_writer g) = [ev]" "TenantID ev = op_tenant a"
    using ok settle_event [OF settled_elsewhere(4) _ settled_elsewhere(3)] by (auto simp: op_ok_def)
  have bk: "booked s = booked s @ []" "booked t = booked s @ [ev]"
    by (simp_all add: booked_def settled_elsewhere(1) ev(2))
  have "balanced R P i (MonthKey i t0) c0 t" if f: "fits P i c0 (booked t)"
    using assms(5) fits_insert(1) [OF f [unfolded bk(2)]]
    by (intro settle_balanced [OF assms(1-3) _ bk(1) f [unfolded bk(2)] settled_elsewhere(2) ok ev(3) _ _ bk(2)])
       (simp_all add: linv_def settled_elsewhere(1) ev(1))
  moreover have "\<forall>a'\<in>set (remove1 a (lg_open s)). op_ok i (MonthKey i t0) a'"
    using assms(5) by (intro ball_remove1) (simp add: linv_def)
  ultimately show ?thesis by (simp add: linv_def settled_elsewhere(1))
next
  case (writer m)
  then have "booked t = booked s" by (simp add: booked_def)
  with writer(1) assms(5) show ?thesis by (simp add: linv_def balanced_def)
qed

lemma lreach_linv:
  assumes "redis_server R" "px_budget P = Some R" "0 \<le> counter R r0 (MonthKey i t0)" "lreach P W i t0 r0 w0 s"
  shows "linv R P i (MonthKey i t0) (counter R r0 (MonthKey i t0)) s"
  using assms(4)
proof (induction rule: lreach.induct)
  case start
  then show ?case by (simp add: linv_def balanced_def booked_def start_run_def Writer.extend_def)
next
  case (step s t)
  show ?case by (rule linv_step [OF assms(1-3) step.hyps(2) step.IH])
qed

text \<open>C2: while the handlers of any number of gateways run concurrently, the counter of a tenant is at every moment
  what it was at the start, plus the metered costs of all its events, plus the estimates of its requests still in
  flight.\<close>

theorem counter_is_the_account:
  assumes "redis_server R" and "px_budget P = Some R" and "0 \<le> counter R r0 (MonthKey i t0)"
    and "lreach P W i t0 r0 w0 s" and "fits P i (counter R r0 (MonthKey i t0)) (booked s)"
  shows "counter R (lg_redis s) (MonthKey i t0)
       = counter R r0 (MonthKey i t0) + charges P i (booked s) + held i (lg_open s)
     \<and> 0 \<le> charges P i (booked s) \<and> 0 \<le> held i (lg_open s)"
proof -
  have b: "balanced R P i (MonthKey i t0) (counter R r0 (MonthKey i t0)) s"
    using lreach_linv [OF assms(1-4)] assms(5) by (simp add: linv_def)
  from charges_nonneg [OF assms(5)] balanced_held [OF b] b show ?thesis by (simp add: balanced_def)
qed

text \<open>C3: the budget is enforced exactly, however many handlers of however many gateways run: the budget check
  lets a request through if and only if what the tenant was charged, what its requests in flight have reserved and the
  estimate of this request together stay within the cap; otherwise the answer is 429.\<close>

theorem admission_is_exact:
  assumes "redis_server R" and "px_budget P = Some R" and "counter R r0 (MonthKey i t0) = 0"
    and "lreach P W i t0 r0 w0 s" and "fits P i 0 (booked s)"
    and "accountable P i t0 E r pv body" and "ID (request_tenant r) = i"
    and "MonthlyBudgetUSD (request_tenant r) = Some cap"
    and "checkBudget P E (fresh_writer gone) pv (request_tenant r) body (lg_redis s) = (w, rd, res, go)"
  shows "(go \<longleftrightarrow> charges P i (booked s) + held i (lg_open s) + estimateMicro P pv body \<le> toMicro (px_arch P) cap)
    \<and> (\<not> go \<longrightarrow> w_status w = Some 429 \<and> counter R rd = counter R (lg_redis s))"
proof -
  have b: "balanced R P i (MonthKey i t0) 0 s" using lreach_linv [OF assms(1,2) _ assms(4)] assms(3,5) by (simp add: linv_def)
  have a: "toMicro (px_arch P) cap < 2 ^ 53" "0 \<le> estimateMicro P pv body" "reserve_link E = Delivered"
      and k: "MonthKey (ID (request_tenant r)) (at_budget E) = MonthKey i t0"
    using assms(6-8) same_month_key [of "at_budget E" t0 i] by (auto simp: accountable_def)
  have n: "0 \<le> counter R (lg_redis s) (MonthKey (ID (request_tenant r)) (at_budget E))"
    using balanced_nonneg [OF b assms(5)] by (simp only: k)
  note c = checkBudget_account [OF assms(1,2) a(3) assms(8) a(1) n a(2) assms(9), unfolded k]
  have "counter R rd = counter R (lg_redis s)" if "\<not> go" using c(2) that by auto
  moreover have "w_status w = Some 429" if "\<not> go"
    using checkBudget_refusal [OF assms(1,2) a(3) assms(8) a(1) n a(2), of "fresh_writer gone" w rd res] assms(9) that
    by (simp add: fresh_writer_def)
  ultimately show ?thesis using c(1) b by (auto simp: balanced_def)
qed

subsection \<open>The events of a run reach the table\<close>

lemma lreach_mreach:
  assumes "lreach P W i t0 r0 w0 s"
  shows "mreach W w0 (lg_mt s) \<and> (\<forall>a\<in>set (lg_open s). w_status (op_writer a) = None)"
  using assms
proof (induction rule: lreach.induct)
  case start then show ?case by (simp add: mreach.start)
next
  case (step s t)
  from step.hyps(2) show ?case
  proof cases
    case (admit r pv body injected E gone w rd res)
    with step.IH checkBudget_go [OF admit(5)] show ?thesis by (simp add: fresh_writer_def)
  next
    case (refuse r pv body injected E gone w rd res)
    with step.IH show ?thesis by simp
  next
    case (settled a wr w g)
    with step.IH obtain ev where ev: "ch (gw_writer g) = ch (lg_mt s) @ [ev]" "handed wr (gw_writer g) = [ev]"
      using settle_event [OF settled(5) _ settled(4)] by (auto simp: Writer.defs)
    have "Enqueue (lg_mt s) ev = ((lg_mt s)\<lparr>ch := ch (lg_mt s) @ [ev]\<rparr>, True)"
      using settled(3,4) by (simp add: Enqueue_def Writer.defs)
    from mreach.step [OF _ mstep.enqueue_ok [OF this]] step.IH
    have "mreach W w0 (lg_mt t)" by (simp add: settled(1) ev)
    moreover have "\<forall>a'\<in>set (remove1 a (lg_open s)). w_status (op_writer a') = None"
      using step.IH by (intro ball_remove1) simp
    ultimately show ?thesis by (simp add: settled(1))
  next
    case (settled_elsewhere a wr w g)
    have "\<forall>a'\<in>set (remove1 a (lg_open s)). w_status (op_writer a') = None"
      using step.IH by (intro ball_remove1) simp
    with step.IH show ?thesis by (simp add: settled_elsewhere(1))
  next
    case (writer m)
    with step.IH show ?thesis by (auto intro: mreach.step)
  qed
qed

lemma all_stored:
  assumes "mreach W (New snk n iv) m" "ch m = []" "batch m = []" "\<forall>x\<in>set (writes m). snd x = Inr ()"
  shows "stored m = accepted m"
proof -
  have "filter (\<lambda>(b, r). r = Inr ()) (writes m) = writes m"
    using assms(4) by (intro filter_True) auto
  with mreach_minv [OF assms(1)] assms(2,3) show ?thesis by (simp add: minv_def stored_def attempted_def)
qed

subsection \<open>The table and the summary\<close>

text \<open>
  The dashboard reads the table that the writer fills: \<open>read_row\<close> is a row as the queries see it. Postgres keeps
  a time to the microsecond, and rounds an amount to the six decimals of its column after the driver has
  sent a decimal that reads back as the double.
\<close>

locale dashboard_tables = postgres_copy copy table + requests_view Q view
  for copy :: "'db copy_op" and table :: "'db \<Rightarrow> bytes \<Rightarrow> row list"
    and Q :: "'db summary_queries" and view :: "'db \<Rightarrow> tables" +
  fixes read_row :: "row \<Rightarrow> request_row"
  assumes view_requests: "tb_requests (view db) = map read_row (table db ''requests'')"
    and read_tenant: "rr_tenant_id (read_row (requests_row e)) = TenantID e"
    and read_created: "rr_created (read_row (requests_row e)) \<le> CreatedAt e
          \<and> CreatedAt e < rr_created (read_row (requests_row e)) + 1000"
    and read_cost: "CostUSD e = Fin q \<Longrightarrow> 0 \<le> q \<Longrightarrow> q < 1000000 \<Longrightarrow>
          \<bar>of_int (rr_cost (read_row (requests_row e))) - q * 1000000\<bar> \<le> 1 / 2 + q * 1000000 / 2 ^ 53"

text \<open>An amount the table can hold.\<close>

definition priced :: "Event \<Rightarrow> bool" where
  "priced e \<longleftrightarrow> (\<exists>q. CostUSD e = Fin q \<and> 0 \<le> q \<and> q < 1000000)"

lemma two_roundings:
  assumes "\<bar>of_int c - s * 1000000\<bar> \<le> 1 / 2 + s * 1000000 / 2 ^ 53" "0 \<le> s" "s < 1000000"
  shows "\<bar>c - toMicro A (Fin s)\<bar> \<le> 1"
proof -
  have "\<bar>of_int (toMicro A (Fin s)) - s * 1000000\<bar> \<le> 1 / 2 + s * 1000000 / 2 ^ 53 + 1 / 2 ^ 200"
    using assms(2,3) by (intro toMicro_error) simp_all
  then have "\<bar>of_int c - of_int (toMicro A (Fin s)) :: rat\<bar> < 2"
    using assms unfolding abs_le_iff abs_less_iff by (simp add: field_simps)
  then show ?thesis by linarith
qed

lemma priced_charge_nonneg: "priced e \<Longrightarrow> 0 \<le> charge P e"
proof -
  assume "priced e"
  then obtain q where q: "CostUSD e = Fin q" "0 \<le> q" "q < 1000000" by (auto simp: priced_def)
  have "\<bar>of_int (toMicro (px_arch P) (Fin q)) - q * 1000000\<bar> \<le> 1 / 2 + q * 1000000 / 2 ^ 53 + 1 / 2 ^ 200"
    using q by (intro toMicro_error) simp_all
  then have "- 1 < (of_int (toMicro (px_arch P) (Fin q)) :: rat)"
    using q(2,3) unfolding abs_le_iff by (simp add: field_simps)
  then show ?thesis by (simp add: charge_def q(1))
qed

context dashboard_tables
begin

lemma charged_row: "priced e \<Longrightarrow> \<bar>rr_cost (read_row (requests_row e)) - charge P e\<bar> \<le> 1"
  unfolding priced_def charge_def by (auto intro!: two_roundings dest: read_cost)

lemma charged_rows:
  "\<forall>e\<in>set evs. priced e \<Longrightarrow>
     \<bar>spend (map (read_row \<circ> requests_row) evs) - sum_list (map (charge P) evs)\<bar> \<le> int (length evs)"
proof (induction evs)
  case (Cons e evs)
  then show ?case using charged_row [of e P] by (simp add: spend_def)
qed (simp add: spend_def)

lemma tenant_rows:
  assumes "tb_requests T = map (read_row \<circ> requests_row) evs"
    and "\<forall>e\<in>set (tenant_events i evs). since + 1000 \<le> CreatedAt e"
  shows "filter (\<lambda>r. rr_tenant_id r = i) (in_window since T) = map (read_row \<circ> requests_row) (tenant_events i evs)"
proof -
  have "since \<le> rr_created (read_row (requests_row e))" if "e \<in> set evs" "TenantID e = i" for e
    using that assms(2) read_created [of e] by (auto simp: tenant_events_def)
  then have "filter (\<lambda>e. since \<le> rr_created (read_row (requests_row e)) \<and> TenantID e = i) evs = tenant_events i evs"
    unfolding tenant_events_def by (intro filter_cong) auto
  then show ?thesis by (simp add: in_window_def assms(1) filter_map comp_def read_tenant conj_commute)
qed

text \<open>What the summary says of a tenant is what its events were charged, but for one micro-USD per event.\<close>

lemma summary_figures:
  assumes "tb_requests (view db) = map (read_row \<circ> requests_row) evs" "tables_ok (view db)"
    and "\<forall>e\<in>set (tenant_events i evs). priced e \<and> now1 - window + 1000 \<le> CreatedAt e"
    and "Summarize Q now1 now2 db window = (db', Inr S)" "view db' = view db"
  shows "\<forall>t\<in>set (Tenants S). ts_TenantID t = i \<longrightarrow> ts_Requests t = int (length (tenant_events i evs))
       \<and> (\<exists>x. ts_SpendUSD t = usd x \<and> \<bar>x - charges P i evs\<bar> \<le> int (length (tenant_events i evs)))"
    and "tenant_events i evs \<noteq> [] \<Longrightarrow> \<exists>t\<in>set (Tenants S). ts_TenantID t = i"
proof -
  let ?since = "now1 - window"
  from Summarize_views [OF assms(4,2)] obtain T1 T2 T3 ts where
    g: "grows (view db) T1" "grows T1 T2" "grows T2 T3" "grows T3 (view db')" and ok: "tables_ok T2"
    and a: "answers_by tenant_key (tenant_groups ?since T2) ts" "Tenants S = map tenant_spend ts" by metis
  have T2: "tb_requests T2 = map (read_row \<circ> requests_row) evs"
  proof -
    have "tb_requests T2 = tb_requests (view db)" using g assms(5) by (auto simp: grows_def)
    then show ?thesis by (simp add: assms(1))
  qed
  have rs: "filter (\<lambda>r. rr_tenant_id r = i) (in_window ?since T2) = map (read_row \<circ> requests_row) (tenant_events i evs)"
    using T2 assms(3) by (intro tenant_rows) auto
  have set: "set ts = set (tenant_groups ?since T2)" using a(1) by (auto simp: answers_by_def dest: mset_eq_setD)
  have cost: "\<bar>spend (map (read_row \<circ> requests_row) (tenant_events i evs)) - charges P i evs\<bar> \<le> int (length (tenant_events i evs))"
    using charged_rows [of "tenant_events i evs" P] assms(3) by (simp add: charges_def)
  have "ts_Requests t = int (length (tenant_events i evs))
       \<and> (\<exists>x. ts_SpendUSD t = usd x \<and> \<bar>x - charges P i evs\<bar> \<le> int (length (tenant_events i evs)))"
    if t: "t \<in> set (Tenants S)" "ts_TenantID t = i" for t
  proof -
    from t(1) obtain x where x: "x \<in> set (tenant_groups ?since T2)" "t = tenant_spend x" by (auto simp: a(2) set)
    with t(2) obtain name n where "x = (i, name, spend (map (read_row \<circ> requests_row) (tenant_events i evs)),
        int (length (tenant_events i evs)), n)"
      using rs by (auto simp: tenant_groups_def tenant_spend_def Let_def simp del: filter_filter)
    with x(2) cost show ?thesis by (auto simp: tenant_spend_def)
  qed
  then show "\<forall>t\<in>set (Tenants S). ts_TenantID t = i \<longrightarrow> ts_Requests t = int (length (tenant_events i evs))
       \<and> (\<exists>x. ts_SpendUSD t = usd x \<and> \<bar>x - charges P i evs\<bar> \<le> int (length (tenant_events i evs)))" by blast
  assume "tenant_events i evs \<noteq> []"
  then obtain r where r: "r \<in> set (in_window ?since T2)" "rr_tenant_id r = i"
    using rs by (metis (mono_tags, lifting) filter_empty_conv list.map_disc_iff)
  then have "i \<in> set (map fst (tb_tenants T2))" using ok by (auto simp: tables_ok_def in_window_def)
  with r show "\<exists>t\<in>set (Tenants S). ts_TenantID t = i"
    by (force simp: a(2) set tenant_groups_def tenant_spend_def Let_def)
qed

end

subsection \<open>A database in memory\<close>

text \<open>The tables of \<open>mem_copy\<close>, read by the queries.\<close>

fun int_col :: "sqlval option \<Rightarrow> int" where
  "int_col (Some (sqlval.VInt n)) = n"
| "int_col _ = 0"

fun text_col :: "sqlval option \<Rightarrow> bytes" where
  "text_col (Some (VText t)) = t"
| "text_col _ = []"

fun micro_col :: "sqlval option \<Rightarrow> int" where
  "micro_col (Some (sqlval.VFloat (Fin q))) = round_away (q * 1000000)"
| "micro_col _ = 0"

fun time_col :: "sqlval option \<Rightarrow> instant" where
  "time_col (Some (VTime t)) = t div 1000 * 1000"
| "time_col _ = 0"

definition mem_read_row :: "row \<Rightarrow> request_row" where
  "mem_read_row r = \<lparr>rr_tenant_id = int_col (r ''tenant_id''), rr_feature = text_col (r ''feature''),
     rr_provider = text_col (r ''provider''), rr_model = text_col (r ''model''), rr_cost = micro_col (r ''cost_usd''),
     rr_estimated = (r ''estimated'' = Some (sqlval.VBool True)), rr_created = time_col (r ''created_at'')\<rparr>"

definition mem_view :: "mem_db \<Rightarrow> tables" where
  "mem_view db = \<lparr>tb_tenants = map (\<lambda>r. (int_col (r ''id''), text_col (r ''name''))) (snd db ''tenants''),
     tb_requests = map mem_read_row (snd db ''requests'')\<rparr>"

definition mem_dash :: "mem_db summary_queries" where
  "mem_dash = \<lparr>
     q_total = (\<lambda>db since. (db, Inr (total_of since (mem_view db)))),
     q_tenants = (\<lambda>db since. (db, Inr (sort_key (\<lambda>x. - tenant_key x) (tenant_groups since (mem_view db)), True))),
     q_features = (\<lambda>db since. (db, Inr (sort_key (\<lambda>x. - feature_key x) (feature_groups since (mem_view db)), True))),
     q_models = (\<lambda>db since. (db, Inr (sort_key (\<lambda>x. - model_key x) (model_groups since (mem_view db)), True)))\<rparr>"

lemma grows_refl [simp]: "grows T T"
  by (simp add: grows_def)

lemma requests_row_cols:
  "requests_row e ''tenant_id'' = Some (sqlval.VInt (TenantID e))" "requests_row e ''cost_usd'' = Some (sqlval.VFloat (CostUSD e))"
  "requests_row e ''created_at'' = Some (VTime (CreatedAt e))"
  by (simp_all add: requests_row_def requests_columns_def event_values_def)

interpretation mem_dash: requests_view mem_dash mem_view
  by unfold_locales (auto simp: mem_dash_def answers_by_sort)

interpretation mem_tables: dashboard_tables mem_copy snd mem_dash mem_view mem_read_row
proof
  fix e :: Event and q :: rat
  show "rr_tenant_id (mem_read_row (requests_row e)) = TenantID e"
    by (simp add: mem_read_row_def requests_row_cols)
  show "rr_created (mem_read_row (requests_row e)) \<le> CreatedAt e \<and> CreatedAt e < rr_created (mem_read_row (requests_row e)) + 1000"
    by (simp add: mem_read_row_def requests_row_cols) presburger
  assume "CostUSD e = Fin q" "0 \<le> q"
  moreover have "\<bar>of_int (round_away (q * 1000000)) - q * 1000000\<bar> \<le> 1 / 2" by (rule round_away_error)
  moreover have "0 \<le> q * 1000000 / 2 ^ 53" using \<open>0 \<le> q\<close> by simp
  ultimately show "\<bar>of_int (rr_cost (mem_read_row (requests_row e))) - q * 1000000\<bar> \<le> 1 / 2 + q * 1000000 / 2 ^ 53"
    by (simp add: mem_read_row_def requests_row_cols)
qed (simp add: mem_view_def)

lemma mem_dash_summarize:
  obtains s where "Summarize mem_dash now1 now2 db window = (db, Inr s)"
  by (auto simp: Summarize_def mem_dash_def collect_rows_def Let_def total_of_def)

subsection \<open>A run\<close>

text \<open>One tenant, one request of nine prompt and sixteen completion tokens, written at once.\<close>

definition demo_tables :: mem_db where
  "demo_tables = ([], (\<lambda>_. [])(''tenants'' := [[''id'' \<mapsto> sqlval.VInt 7, ''name'' \<mapsto> VText ''acme'']]))"

definition demo_event :: Event where
  "demo_event = \<lparr>TenantID = 7, Feature = [], ev_Provider = ''openai'', ev_Model = ''gpt-4o'', InputTokens = 9,
     OutputTokens = 16, CostUSD = fst (Cost amd64 (BuildTable prices_yaml) ''openai'' ''gpt-4o'' 9 16),
     Estimated = False, ev_Status = 200, LatencyMS = 5, CreatedAt = 5000000\<rparr>"

definition demo_month :: bytes where
  "demo_month = MonthKey 7 0"

lemma demo_month_key: "budget_key (demo_weather l m) (demo_request fo) = demo_month"
  by (simp add: budget_key_def demo_weather_def demo_request_def demo_tenant_def demo_month_def)

lemma demo_usage: "parseUsage ''openai'' (up_Body (demo_response ''gpt-4o''))
    = \<lparr>us_InputTokens = 9, us_OutputTokens = 16, us_Model = ''gpt-4o'', HasUsage = True\<rparr>"
  by code_simp

lemma demo_not_stream: "\<not> event_stream (demo_response m)"
  by (simp add: event_stream_def demo_response_def Header_Get_def has_prefix_def)

definition demo_attempt :: attempt where
  "demo_attempt = \<lparr>op_weather = demo_weather Delivered ''gpt-4o'', op_writer = fresh_writer None,
     op_request = demo_request True, op_provider = demo_openai, op_body = demo_body, op_injected = False,
     op_res = \<lparr>active = True, res_key = demo_month, estMicro = 1020\<rparr>\<rparr>"

lemma demo_settle:
  "\<exists>w. settle demo_proxy demo_attempt rd wr =
     (w, \<lparr>gw_redis = reconcile demo_proxy (op_weather demo_attempt) (op_res demo_attempt) (CostUSD demo_event) rd,
          gw_writer = fst (Enqueue wr demo_event),
          gw_sent = [outbound_request (demo_request True) demo_openai demo_body]\<rparr>)"
proof -
  have h: "Header_Get (rq_Header (demo_request True)) ''X-Spendgate-Feature'' = []"
    by (simp add: demo_request_def Header_Get_def)
  have v: "px_arch demo_proxy = amd64" "px_prices demo_proxy = BuildTable prices_yaml" "ID (request_tenant (demo_request True)) = 7"
      "up_StatusCode (demo_response m) = 200" "Milliseconds (at_done (demo_weather l m) - at_start (demo_weather l m)) = 5"
      "at_created (demo_weather l m) = 5000000" for l m
    by (simp_all add: demo_proxy_def demo_request_def demo_tenant_def demo_response_def demo_weather_def Milliseconds_def)
  show ?thesis
    unfolding settle_def demo_attempt_def attempt.select_convs
    by (subst send_upstream_response [where resp = "demo_response ''gpt-4o''"])
      (simp_all add: demo_links Let_def demo_not_stream bufferedResponse_def enqueue_def h v demo_event_def
        demo_usage [unfolded demo_openai_def] demo_openai_def modelOr_def)
qed

lemma demo_cost: "CostUSD demo_event = Fin (3366530793451993 / 18446744073709551616)"
  by (simp add: demo_event_def Cost_def BuildTable_def prices_yaml_def price_key_def tokens_per_mtok_def fdot_def amd64_def
      go_eval f64_of_int_def)

lemma demo_priced:
  obtains q where "CostUSD demo_event = Fin q" "0 \<le> q" "q < 1000000"
  by (rule that [OF demo_cost]) simp_all

definition demo_ledger :: "mem \<Rightarrow> attempt list \<Rightarrow> mem_db metering \<Rightarrow> (mem, mem_db) ledger" where
  "demo_ledger rd ops m = \<lparr>lg_redis = rd, lg_open = ops, lg_mt = m, lg_elsewhere = []\<rparr>"

lemma demo_account: "accountable demo_proxy 7 0 (demo_weather Delivered m) (demo_request True) demo_openai demo_body"
  using demo_limit by (simp add: accountable_def demo_cap demo_links demo_estimate) (simp add: demo_weather_def)

lemma demo_write: "PGSink_Write mem_copy demo_tables [demo_event]
    = (([], (snd demo_tables)(''requests'' := [requests_row demo_event])), Inr ())"
  by (simp add: demo_tables_def PGSink_Write_def mem_copy_def requests_row_def)

lemma demo_run:
  obtains s where "lreach demo_proxy (PGSink_Write mem_copy) 7 0 Map.empty (New demo_tables 1 0) s"
    and "lg_open s = []" "lg_elsewhere s = []" "accepted (lg_mt s) = [demo_event]" "ch (lg_mt s) = []" "batch (lg_mt s) = []"
    and "writes (lg_mt s) = [([demo_event], Inr ())]"
    and "sink (lg_mt s) = ([], (snd demo_tables)(''requests'' := [requests_row demo_event]))"
proof -
  let ?W = "PGSink_Write mem_copy" and ?w0 = "New demo_tables 1 0" and ?E = "demo_weather Delivered ''gpt-4o''"
  let ?R = "lreach demo_proxy ?W 7 0 Map.empty ?w0" and ?m0 = "start_run ?w0"
  have r0: "?R (demo_ledger Map.empty [] ?m0)" unfolding demo_ledger_def by (rule lreach.start)
  have c: "counter mem_redis Map.empty k = 0" for k by simp
  have e: "reserve_link ?E = Delivered" "px_budget demo_proxy = Some mem_redis" by (simp_all add: demo_links demo_budget)
  obtain w rd res go where cb: "checkBudget demo_proxy ?E (fresh_writer None) demo_openai (request_tenant (demo_request True))
      demo_body Map.empty = (w, rd, res, go)" by (metis prod_cases4)
  have k: "MonthKey (ID (request_tenant (demo_request True))) (at_budget ?E) = demo_month"
    using demo_month_key [of Delivered "''gpt-4o''" True] by (simp add: budget_key_def)
  note ac = checkBudget_account [OF mem.redis_server_axioms e(2,1) demo_cap [of True] _ _ _ cb, unfolded k c demo_limit demo_estimate]
  have g: "go" using ac(1) by simp
  have w: "w = fresh_writer None" using cb g by (auto dest: checkBudget_go)
  have res: "res = \<lparr>active = True, res_key = demo_month, estMicro = 1020\<rparr>" using ac(3) g by simp
  have r1: "?R (demo_ledger rd [demo_attempt] ?m0)"
    using lreach.step [OF r0 lstep.admit [OF demo_route [of True] demo_outgoing [of True] demo_account, where gone = None and
          s = "demo_ledger Map.empty [] ?m0"]] cb g w
    by (simp add: demo_ledger_def demo_attempt_def res)
  obtain w2 where st: "settle demo_proxy demo_attempt rd (Writer.truncate ?m0) =
     (w2, \<lparr>gw_redis = reconcile demo_proxy (op_weather demo_attempt) (op_res demo_attempt) (CostUSD demo_event) rd,
          gw_writer = fst (Enqueue (Writer.truncate ?m0) demo_event),
          gw_sent = [outbound_request (demo_request True) demo_openai demo_body]\<rparr>)"
    using demo_settle [of rd "Writer.truncate ?m0"] by auto
  have m0: "ch ?m0 = []" "accepted ?m0 = []" "batch ?m0 = []" "phase ?m0 = Running" "batchSize ?m0 = 1" "writes ?m0 = []"
      "sink ?m0 = demo_tables" "refused ?m0 = []"
    by (simp_all add: start_run_def New_def Writer.extend_def)
  define m1 where "m1 = ?m0\<lparr>ch := [demo_event], accepted := [demo_event]\<rparr>"
  obtain rd1 where r2: "?R (demo_ledger rd1 [] m1)"
  proof -
    have "Enqueue (Writer.truncate ?m0) demo_event = ((Writer.truncate ?m0)\<lparr>ch := [demo_event]\<rparr>, True)"
      by (simp add: Enqueue_def Writer.defs m0 bufferSize_def)
    moreover have "length (ch (Writer.truncate ?m0)) = 0" by (simp add: Writer.defs m0)
    ultimately show ?thesis
      using lreach.step [OF r1 lstep.settled [of demo_attempt "demo_ledger rd [demo_attempt] ?m0", OF _ refl]] st that
      by (simp add: demo_ledger_def m0 m1_def bufferSize_def handed_def)
  qed
  define m2 where "m2 = recv_event ?W (m1\<lparr>ch := []\<rparr>) demo_event"
  have m2: "ch m2 = []" "accepted m2 = [demo_event]" "batch m2 = []" "writes m2 = [([demo_event], Inr ())]" "refused m2 = refused m1"
      "sink m2 = ([], (snd demo_tables)(''requests'' := [requests_row demo_event]))"
    by (simp_all add: m2_def m1_def recv_event_def flush_def m0 demo_write Let_def)
  have "mstep ?W m1 m2" unfolding m2_def by (rule mstep.recv) (simp_all add: m1_def m0)
  with lreach.step [OF r2 lstep.writer [of ?W _ m2]] m2 have "?R (demo_ledger rd1 [] m2)"
    by (simp add: demo_ledger_def m1_def)
  then show ?thesis using m2 by (intro that [of "demo_ledger rd1 [] m2"]) (simp_all add: demo_ledger_def)
qed

lemma demo_charges: "charges demo_proxy 7 [demo_event] = toMicro amd64 (CostUSD demo_event)"
  by (simp add: charges_def tenant_events_def charge_def demo_proxy_def) (simp add: demo_event_def)

lemma demo_micro: "toMicro amd64 (CostUSD demo_event) = 183"
  by (simp add: demo_cost toMicro_def f64_to_int64_def go_eval int64_defs)

lemma demo_fits: "fits demo_proxy 7 0 [demo_event]"
  using demo_charges by (simp add: fits_def tenant_events_def charge_def demo_micro demo_proxy_def)

theorem counter_is_the_account_witness:
  "\<exists>s. lreach demo_proxy (PGSink_Write mem_copy) 7 0 Map.empty (New demo_tables 1 0) s
     \<and> counter mem_redis (lg_redis s) (MonthKey 7 0) = toMicro amd64 (CostUSD demo_event)"
proof -
  obtain s where s: "lreach demo_proxy (PGSink_Write mem_copy) 7 0 Map.empty (New demo_tables 1 0) s"
      "lg_open s = []" "booked s = [demo_event]" by (rule demo_run) (auto simp: booked_def)
  have "fits demo_proxy 7 (counter mem_redis Map.empty (MonthKey 7 0)) (booked s)"
    using demo_fits by (simp add: s(3))
  from counter_is_the_account [OF mem.redis_server_axioms demo_budget _ s(1) this] s demo_charges show ?thesis
    by (intro exI [of _ s]) simp
qed

text \<open>A second request of the same tenant, with a cap that the first one has left room for.\<close>

theorem admission_is_exact_witness:
  "\<exists>s w rd res. lreach demo_proxy (PGSink_Write mem_copy) 7 0 Map.empty (New demo_tables 1 0) s
     \<and> checkBudget demo_proxy (demo_weather Delivered []) (fresh_writer None) demo_openai
         (request_tenant (demo_request True)) demo_body (lg_redis s) = (w, rd, res, True)"
proof -
  obtain s where s: "lreach demo_proxy (PGSink_Write mem_copy) 7 0 Map.empty (New demo_tables 1 0) s"
      "lg_open s = []" "booked s = [demo_event]" by (rule demo_run) (auto simp: booked_def)
  obtain w rd res go where c: "checkBudget demo_proxy (demo_weather Delivered []) (fresh_writer None) demo_openai
         (request_tenant (demo_request True)) demo_body (lg_redis s) = (w, rd, res, go)" by (metis prod_cases4)
  have f: "fits demo_proxy 7 0 (booked s)" using demo_fits by (simp add: s(3))
  have i: "ID (request_tenant (demo_request True)) = 7" by (simp add: demo_request_def demo_tenant_def)
  have "charges demo_proxy 7 [demo_event] \<le> 1000" using demo_charges by (simp add: demo_micro)
  with admission_is_exact [OF mem.redis_server_axioms demo_budget _ s(1) f demo_account i demo_cap c]
  have "go" by (simp add: s(2,3) demo_estimate demo_limit)
  with c have "checkBudget demo_proxy (demo_weather Delivered []) (fresh_writer None) demo_openai
      (request_tenant (demo_request True)) demo_body (lg_redis s) = (w, rd, res, True)" by simp
  with s(1) show ?thesis by blast
qed

end
