(* ===== verification/Spec2Isabelle.thy ===== *)
theory Spec2Isabelle
  imports Serve LoadGen Ledger
begin

section \<open>spendgate: a self-hosted LLM cost-attribution gateway\<close>

text \<open>
  \<^bold>\<open>The program.\<close> spendgate is one Go process between the SDK of a client and the API of OpenAI or
  Anthropic. A request carries a bearer key \<open>sg_...\<close>. The mux (\<open>internal/server\<close>) sends the paths below
  \<open>/openai/\<close> and \<open>/anthropic/\<close> through the authentication middleware (\<open>internal/auth\<close>, which looks the
  key up in Postgres through \<open>internal/tenant\<close> and caches the answer) to the proxy
  (\<open>internal/proxy\<close>). The proxy estimates the cost (\<open>internal/prices\<close>), reserves it against the tenant's
  monthly counter in Redis (\<open>internal/budget\<close>), sends the request upstream once, relays the answer, reads
  the token usage out of it, corrects the counter to the metered cost and hands one event to the
  writer (\<open>internal/meter\<close>), which copies the events to Postgres in batches. The dashboard
  (\<open>internal/dashboard\<close>) reads the events back. \<open>cmd/spendgate\<close> wires the parts, after
  \<open>internal/config\<close> has read the environment and \<open>internal/store\<close> has run the migrations, and shuts
  them down. \<open>bench\<close> holds a fake provider and a load generator.

  \<^bold>\<open>How code is translated.\<close> A struct is a record with the fields of the code (a prefix is added where two
  structs share a field name), an interface is a locale or a function argument, a method is a
  function that returns the changed state, an error is a value of a sum or option type, an early return is a
  branch. A byte string is a list of \<open>char\<close>. \<open>int\<close> and \<open>int64\<close> are unbounded integers with the range
  (\<open>in_int64\<close>) and the wrap-around (\<open>wrap64\<close>) written out; SHA-256 is computed on 32-bit words.
  \<open>float64\<close> is modelled exactly: a rational or an infinity or NaN, rounded to nearest even after every
  operation, with the fused multiply-add and the out-of-range conversion of the machine as the
  record \<open>arch\<close> (\<open>amd64\<close>, \<open>arm64\<close>); only the sign of zero is left out. A goroutine is a step relation over the
  state it shares with the others, so every interleaving is covered.

  \<^bold>\<open>What is not in the repository\<close> is a parameter. The Redis server is the record \<open>redis\<close> of the commands
  the code sends, over an unspecified state, under the contract \<open>redis_server\<close>; the Postgres tables are
  known by \<open>tenants_table\<close>, \<open>migrations_table\<close> (with \<open>once_migrations\<close> and \<open>migrations_up\<close>),
  \<open>postgres_copy\<close> and \<open>requests_view\<close>, each the documented behaviour of the statements sent. Every such locale is
  interpreted on an in-memory server of its theory (\<open>mem_redis\<close> and the like), which shows that the contract can be met
  and evaluates the witnesses. The YAML parser, the URL parsers, the file system, the random source and the clock are
  arguments. What the outside does to one request is the record \<open>weather\<close>: the clock
  readings, the provider's answer, and whether each Redis call is delivered, lost, or executed without its answer arriving.
\<close>

subsection \<open>The theories\<close>

text \<open>
  \<^bold>\<open>The language and its standard library.\<close>
  \<^item> \<open>Prelude\<close>: the collections \<open>go_eval\<close> and \<open>byte_simps\<close>, byte strings, 64-bit ranges.
  \<^item> \<open>GoFloat\<close>: binary64 arithmetic, its rounding, monotonicity and error bounds.
  \<^item> \<open>GoTime\<close>: \<open>%d\<close>, the UTC calendar, \<open>time.Format\<close>; \<open>GoDuration\<close>: \<open>ParseDuration\<close>,
    \<open>Duration.String\<close>, query strings, RFC 3339 timestamps.
  \<^item> \<open>GoStrings\<close>: trimming, hexadecimal; \<open>Http\<close>: headers, requests, the response writer with a client
    that may leave after any number of writes; \<open>Mux\<close>: path cleaning; \<open>Sha256\<close>: SHA-256.
  \<^item> \<open>GoJson\<close>: the part of \<open>encoding/json\<close> that decodes (duplicate and case-folded keys, type errors, null,
    raw messages, escapes and surrogates) and compacts; \<open>GoFmt\<close>: the part that encodes, shortest floats included.
  \<^item> \<open>JsonText\<close>, \<open>JsonGrammar\<close>, \<open>JsonEncode\<close>: the grammar of JSON as inductive relations; the parser accepts
    exactly its texts (\<open>parse_json_iff\<close>), quoting and unquoting are inverse on UTF-8, compaction keeps the
    value, and everything the encoders write is in the grammar.

  \<^bold>\<open>The components.\<close>
  \<^item> \<open>Prices\<close> is \<open>internal/prices\<close> (\<open>Load\<close>, \<open>BuildTable\<close>, \<open>Cost\<close>, \<open>Seed\<close>), the list \<open>prices.yaml\<close>, and
    \<open>toMicro\<close> of the proxy: both ways to a price agree, the cost in micro-USD is within one
    of the exact amount, and it is monotone.
  \<^item> \<open>Budget\<close> is \<open>internal/budget\<close> with its Lua script in Lua's doubles: it refines the integer check-and-add,
    keys separate tenants and months, counters get an expiry. \<open>Replicas\<close>: any number of gateways
    as interleaved commands on one server, and the invariant that bounds every counter.
  \<^item> \<open>Meter\<close> is \<open>internal/meter\<close>: channel, batch, ticker and shutdown as the relation \<open>mstep\<close>; events are
    written in order, once, in batches of the configured size; draining ends; \<open>PGSink\<close> is an \<open>event_sink\<close>.
  \<^item> \<open>Tenant\<close> and \<open>Auth\<close> are \<open>internal/tenant\<close> and \<open>internal/auth\<close>: keys and their hashes, the cache with its
    lifetime as an interleaving of calls (\<open>auth_step\<close>), the middleware.
  \<^item> \<open>Extract\<close> is \<open>internal/proxy/extract.go\<close>: the usage extractors and \<open>streamSSE\<close>, whose loop on lines
    refines a specification on events (\<open>relay_events\<close>). The locale \<open>extractor\<close> is the
    interface of the code, \<open>final_extractor\<close> its refinement for a provider that
    reports its counts once; both extractors are interpretations.
  \<^item> \<open>Proxy\<close> is \<open>internal/proxy/proxy.go\<close>, function by function up to \<open>ServeHTTP\<close>. \<open>Gateway\<close> holds what one
    request does: the budget gate, what is sent, charged, metered and answered, the outage policy,
    the panic, and the three ways a request escapes its budget. \<open>Inject\<close>: what \<open>maybeInjectUsage\<close> may change in
    a request. \<open>Replies\<close>: the refusal and the summary are JSON.
  \<^item> \<open>Ledger\<close> composes them: the handlers of any gateways, interleaved between their two accesses to shared state,
    over one Redis server, with one gateway's metering goroutine, its table and the dashboard that reads it. The locale
    \<open>dashboard_tables\<close> joins the contract of the COPY with that of the queries.
  \<^item> \<open>Server\<close> is \<open>internal/server\<close>: the mux, the health checks, and what happens to credentials.
  \<^item> \<open>Config\<close> is \<open>internal/config\<close>; \<open>Store\<close> is \<open>internal/store\<close>: the migration runner under crashes.
  \<^item> \<open>SummaryQueries\<close> and \<open>Dashboard\<close> are \<open>internal/dashboard\<close>: the four queries as functions on the tables,
    the JSON text, both endpoints and the live stream.
  \<^item> \<open>Serve\<close> is \<open>cmd/spendgate\<close>: the commands, the start-up sequence with its errors, and the life of the
    process from the first request to its exit (\<open>pstep\<close>), over the metering relation.
  \<^item> \<open>FakeProvider\<close> and \<open>LoadGen\<close> are \<open>bench\<close>: the load test through the modelled gateway, from the request
    of the generator to the metered counts, and the percentiles of its report.
\<close>

subsection \<open>What the theorems show\<close>

text \<open>
  \<^bold>\<open>Money.\<close> An admitted request charges the counter exactly the cost its event reports; a request over the cap is
  refused without any effect; under any interleaving the counter is the sum of the metered costs and of the
  estimates in flight, a request is admitted exactly when that sum and its own estimate fit the cap, and the
  dashboard shows the counter up to one micro-USD per request; across replicas a counter never exceeds the cap by more than settled requests
  cost beyond their estimates; the double arithmetic of the script and of the costs is exact where it
  must be and bounded elsewhere. Three theorems of \<open>Gateway\<close> delimit this: a response naming an
  unpriced model, a stream whose usage frame was not read, and an estimate beyond \<open>int64\<close> are not
  held by the budget.

  \<^bold>\<open>Metering.\<close> Each request is sent at most once and gives at most one event; accepted events reach the sink
  in order and once; shutdown flushes them; the requests table holds exactly the rows of the batches
  written; a summary adds up, and shows what the counters were charged.

  \<^bold>\<open>Transparency.\<close> Bodies and streams pass byte for byte, less the one frame the gateway asked for itself;
  injection keeps every other member of the request; a client that leaves has received whole events.

  \<^bold>\<open>Security and operation.\<close> Only resolving keys reach the proxy, client credentials do not leave it, revocation
  takes effect within the cache lifetime and the longest lookup, only clean paths are proxied; migrations
  run once and in order; the process can always be shut down.
\<close>

subsection \<open>Bounds and fuel\<close>

text \<open>
  \<^item> The JSON parser recurses on fuel \<open>2 * length s + 1\<close>; \<open>parse_fuel\<close> shows that more gives the same
    result, so a parse failure is never a lack of fuel. Its depth limit of 10000 is Go's.
  \<^item> The shortest decimal of a double is searched with up to 17 digits, which always suffice, from an exponent found
    in at most 400 steps (a double lies between \<open>10^-324\<close> and \<open>10^309\<close>); trailing zeros
    are stripped from at most 20 digits.
  \<^item> Amounts: caps below \<open>2^53\<close> micro-USD (9 billion USD), where doubles are exact; costs of one request below
    \<open>2^48\<close> micro-USD for the error bound, below \<open>2^62\<close> for the settled charge. Percentiles: up to \<open>2^40\<close> calls.
  \<^item> All other loops are structural or have a termination proof; the goroutines do not terminate as such, and that
    they can always be brought to an end is proved as reachability.
\<close>

subsection \<open>Not modelled\<close>

text \<open>
  \<^item> \<open>Close\<close>, \<open>Ping\<close> and \<open>NewFromClient\<close>, which are one call of a client library (the result of a ping is an
    argument of \<open>readyz\<close>); \<open>proxy.New\<close>, which sizes the connection pool; log lines and
    the process exit code; the flags, the listener and the simulated latency of the fake provider.
  \<^item> The transport of \<open>net/http\<close>, its redirects included, is the environment: it answers or fails. Paths
    with percent escapes are outside the model of the mux.
  \<^item> Timers appear only as steps that may happen at any time, or as clock readings.
  \<^item> The table behind \<open>strconv.IsPrint\<close>, which the fake provider's \<open>%q\<close> consults for runes above ASCII, is a
    parameter.
  \<^item> \<open>index.html\<close>, the demo scripts and the tests are not Go code of the gateway.
\<close>

subsection \<open>From the request to the dashboard\<close>

text \<open>C4: the dashboard shows what the budget counter was charged. When a gateway that started the month with an
  empty table is idle for a tenant and has written its events, the summary's line of the tenant counts its
  requests exactly, and its spend is within one micro-USD per request of the counter in Redis.\<close>

theorem dashboard_agrees_with_counter:
  assumes "redis_server R" and "px_budget P = Some R" and "dashboard_tables copy table Q view read_row"
    and run: "lreach P (PGSink_Write copy) i t0 r0 (New db n iv) s"
    and "counter R r0 (MonthKey i t0) = 0" and "table db ''requests'' = []"
    and "\<forall>a\<in>set (lg_open s). op_tenant a \<noteq> i"
    and "ch (lg_mt s) = []" and "batch (lg_mt s) = []" and "\<forall>x\<in>set (writes (lg_mt s)). snd x = Inr ()"
    and "\<forall>e\<in>set (tenant_events i (accepted (lg_mt s))). priced e \<and> now1 - window + 1000 \<le> CreatedAt e"
    and "charges P i (accepted (lg_mt s)) < 2 ^ 62" and "tenant_events i (lg_elsewhere s) = []" and "tables_ok (view (sink (lg_mt s)))"
    and "Summarize Q now1 now2 (sink (lg_mt s)) window = (db', Inr S)" and "view db' = view (sink (lg_mt s))"
  shows "(\<forall>t\<in>set (Tenants S). ts_TenantID t = i \<longrightarrow>
        ts_Requests t = int (length (tenant_events i (accepted (lg_mt s))))
      \<and> (\<exists>x. ts_SpendUSD t = usd x \<and> \<bar>x - counter R (lg_redis s) (MonthKey i t0)\<bar>
          \<le> int (length (tenant_events i (accepted (lg_mt s))))))
    \<and> (tenant_events i (accepted (lg_mt s)) \<noteq> [] \<longrightarrow> (\<exists>t\<in>set (Tenants S). ts_TenantID t = i))"
proof -
  let ?m = "lg_mt s"
  have m: "mreach (PGSink_Write copy) (New db n iv) ?m" using lreach_mreach [OF run] by blast
  have st: "stored ?m = accepted ?m" by (rule all_stored [OF m assms(8,9,10)])
  note pg = dashboard_tables.axioms(1) [OF assms(3)]
  have "table (sink ?m) ''requests'' = map requests_row (accepted ?m)"
    using event_sink.rows_reach [OF PGSink_event_sink [OF pg] m] by (simp add: st assms(6))
  then have rows: "tb_requests (view (sink ?m)) = map (read_row \<circ> requests_row) (accepted ?m)"
    by (simp add: dashboard_tables.view_requests [OF assms(3)])
  have "held i (lg_open s) = 0" using assms(7) by (simp add: held_def filter_empty_conv [THEN iffD2])
  moreover have "fits P i 0 (accepted ?m)"
    using assms(11,12) priced_charge_nonneg by (auto simp: fits_def)
  moreover have "tenant_events i (booked s) = tenant_events i (accepted ?m)"
    using assms(13) by (simp add: booked_def tenant_events_def)
  ultimately have c: "counter R (lg_redis s) (MonthKey i t0) = charges P i (accepted ?m)"
    using lreach_linv [OF assms(1,2) _ run] assms(5) by (simp add: linv_def balanced_def fits_def charges_def)
  show ?thesis
    using dashboard_tables.summary_figures(1) [OF assms(3) rows assms(14,11,15,16), where P = P]
      dashboard_tables.summary_figures(2) [OF assms(3) rows assms(14,11,15,16)] by (simp add: c)
qed

theorem dashboard_agrees_with_counter_witness:
  "\<exists>s S t x. lreach demo_proxy (PGSink_Write mem_copy) 7 0 Map.empty (New demo_tables 1 0) s
     \<and> Summarize mem_dash 10 10 (sink (lg_mt s)) day = (sink (lg_mt s), Inr S)
     \<and> t \<in> set (Tenants S) \<and> ts_Requests t = 1 \<and> ts_SpendUSD t = usd x
     \<and> \<bar>x - counter mem_redis (lg_redis s) (MonthKey 7 0)\<bar> \<le> 1"
proof -
  obtain s where s: "lreach demo_proxy (PGSink_Write mem_copy) 7 0 Map.empty (New demo_tables 1 0) s"
      "lg_open s = []" "lg_elsewhere s = []" "accepted (lg_mt s) = [demo_event]" "ch (lg_mt s) = []" "batch (lg_mt s) = []"
      "writes (lg_mt s) = [([demo_event], Inr ())]"
      "sink (lg_mt s) = ([], (snd demo_tables)(''requests'' := [requests_row demo_event]))" by (rule demo_run)
  obtain S where S: "Summarize mem_dash 10 10 (sink (lg_mt s)) day = (sink (lg_mt s), Inr S)" by (rule mem_dash_summarize)
  have ev: "tenant_events 7 [] = []" "tenant_events 7 [demo_event] = [demo_event]" "CreatedAt demo_event = 5000000" "TenantID demo_event = 7"
    by (simp_all add: tenant_events_def demo_event_def)
  obtain q where q: "CostUSD demo_event = Fin q" "0 \<le> q" "q < 1000000" by (rule demo_priced)
  then have p: "priced demo_event" by (auto simp: priced_def)
  have t: "tables_ok (mem_view (sink (lg_mt s)))"
    by (simp add: s(8) tables_ok_def mem_view_def demo_tables_def mem_tables.read_tenant ev)
  have b: "charges demo_proxy 7 [demo_event] < 2 ^ 62" using demo_charges by (simp add: demo_micro)
  have e: "snd demo_tables ''requests'' = []" by (simp add: demo_tables_def)
  from dashboard_agrees_with_counter [OF mem.redis_server_axioms demo_budget mem_tables.dashboard_tables_axioms s(1) _ e
      _ s(5,6) _ _ _ _ t S refl] s(2,3,4,7) ev p b
  have "(\<forall>t\<in>set (Tenants S). ts_TenantID t = 7 \<longrightarrow> ts_Requests t = 1
      \<and> (\<exists>x. ts_SpendUSD t = usd x \<and> \<bar>x - counter mem_redis (lg_redis s) (MonthKey 7 0)\<bar> \<le> 1))
    \<and> (\<exists>t\<in>set (Tenants S). ts_TenantID t = 7)"
    by (auto simp: day_def)
  with s(1) S show ?thesis by metis
qed

end
